(* ===== verification/Prelude.thy ===== *)
theory Prelude
  imports Main "HOL-Library.Word" "HOL-Library.Monad_Syntax"
begin

text \<open>
  Shared vocabulary of the development: the machine-integer types of the C code, the byte and
  buffer operations its loops are written with, and the list lemmas the component theories use.

  Conventions, used by every theory:
  \<^item> a C string or byte buffer is a \<open>string\<close> (a list of 8-bit characters); a possibly \<open>NULL\<close>
    data pointer is an \<open>option\<close>; a NUL-terminated string is the list of the bytes before its NUL;
  \<^item> a fixed-size array that is written by index is a list whose length is the array's size,
    accessed through \<open>buf_get\<close>, \<open>buf_put\<close> and \<open>buf_copy\<close>, which return \<open>None\<close> for an access out
    of bounds, so that the absence of such accesses is a theorem;
  \<^item> out-parameters are results; C truth values are \<open>bool\<close>; a structure passed by pointer is
    passed and returned by value, and the \<open>NULL\<close> guard of such a pointer has no counterpart
    unless the pointer is an \<open>option\<close>;
  \<^item> a narrowing conversion to \<open>uint8_t\<close> or \<open>uint16_t\<close> of a length kept as \<open>nat\<close> is written
    \<open>u8_of\<close> or \<open>u16_of\<close>.
\<close>

section \<open>Machine integers\<close>

type_synonym u8 = "8 word"
type_synonym u16 = "16 word"
type_synonym u32 = "32 word"
type_synonym u64 = "64 word"

definition u8_of :: "nat \<Rightarrow> nat" where
  "u8_of n = n mod 256"

definition u16_of :: "nat \<Rightarrow> nat" where
  "u16_of n = n mod 65536"

lemma u8_of_id [simp]: "n < 256 \<Longrightarrow> u8_of n = n"
  by (simp add: u8_of_def)

lemma u16_of_id [simp]: "n < 65536 \<Longrightarrow> u16_of n = n"
  by (simp add: u16_of_def)

section \<open>Bytes\<close>

abbreviation byte :: "char \<Rightarrow> nat" where
  "byte c \<equiv> of_char c"

abbreviation CR :: char where
  "CR \<equiv> CHR 0x0D"

abbreviation LF :: char where
  "LF \<equiv> CHR 0x0A"

abbreviation HT :: char where
  "HT \<equiv> CHR 0x09"

abbreviation NUL :: char where
  "NUL \<equiv> CHR 0x00"

definition is_digit :: "char \<Rightarrow> bool" where
  "is_digit c \<longleftrightarrow> 48 \<le> byte c \<and> byte c \<le> 57"

definition digit_val :: "char \<Rightarrow> nat" where
  "digit_val c = byte c - 48"

text \<open>Spaces and horizontal tabs, the optional whitespace of HTTP field values.\<close>

definition is_ows :: "char \<Rightarrow> bool" where
  "is_ows c \<longleftrightarrow> c = CHR '' '' \<or> c = HT"

text \<open>The ASCII lower-casing the parsers write inline: bytes 'A'..'Z' move up by 32.\<close>

definition lower_ascii :: "char \<Rightarrow> char" where
  "lower_ascii c = (if 65 \<le> byte c \<and> byte c \<le> 90 then char_of (byte c + 32) else c)"

lemma byte_less_256: "byte c < 256"
  using nat_of_char_less_256 by simp

lemma byte_inj: "byte c = byte d \<longleftrightarrow> c = d"
  by (simp add: of_char_eq_iff)

lemma byte_char_of [simp]: "n < 256 \<Longrightarrow> byte (char_of n) = n"
  by (simp add: of_char_of)

lemma lower_ascii_idem [simp]: "lower_ascii (lower_ascii c) = lower_ascii c"
  by (auto simp: lower_ascii_def)

lemma digit_val_less: "is_digit c \<Longrightarrow> digit_val c < 10"
  by (auto simp: is_digit_def digit_val_def)

section \<open>Bounded buffers\<close>

definition buf_get :: "'a list \<Rightarrow> nat \<Rightarrow> 'a option" where
  "buf_get b i = (if i < length b then Some (b ! i) else None)"

definition buf_put :: "'a list \<Rightarrow> nat \<Rightarrow> 'a \<Rightarrow> 'a list option" where
  "buf_put b i x = (if i < length b then Some (b[i := x]) else None)"

text \<open>\<open>memcpy(b + off, xs, len)\<close> into a buffer of \<open>length b\<close> bytes.\<close>

definition buf_copy :: "'a list \<Rightarrow> nat \<Rightarrow> 'a list \<Rightarrow> 'a list option" where
  "buf_copy b off xs =
     (if off + length xs \<le> length b then Some (take off b @ xs @ drop (off + length xs) b)
      else None)"

named_theorems buf_simps \<open>rules that evaluate in-bounds buffer accesses\<close>

lemma buf_get_ok [buf_simps]: "i < length b \<Longrightarrow> buf_get b i = Some (b ! i)"
  by (simp add: buf_get_def)

lemma buf_put_ok [buf_simps]: "i < length b \<Longrightarrow> buf_put b i x = Some (b[i := x])"
  by (simp add: buf_put_def)

lemma buf_copy_ok [buf_simps]:
  "off + length xs \<le> length b \<Longrightarrow>
   buf_copy b off xs = Some (take off b @ xs @ drop (off + length xs) b)"
  by (simp add: buf_copy_def)

lemma buf_copy_length:
  "buf_copy b off xs = Some b' \<Longrightarrow> length b' = length b"
  by (auto simp: buf_copy_def split: if_splits)

lemma buf_put_length: "buf_put b i x = Some b' \<Longrightarrow> length b' = length b"
  by (auto simp: buf_put_def split: if_splits)

section \<open>List lemmas\<close>

lemma length_dropWhile_less:
  "xs \<noteq> [] \<Longrightarrow> P (hd xs) \<Longrightarrow> length (dropWhile P xs) < length xs"
  by (cases xs) (auto simp: length_dropWhile_le le_imp_less_Suc)

lemma hd_dropWhile_not: "dropWhile P xs = y # ys \<Longrightarrow> \<not> P y"
  by (metis dropWhile_eq_Cons_conv)

lemma takeWhile_dropWhile_not_Nil:
  "dropWhile P xs \<noteq> [] \<Longrightarrow> takeWhile (\<lambda>x. \<not> P x) (dropWhile P xs) \<noteq> []"
  by (cases "dropWhile P xs") (auto dest: hd_dropWhile_not)

lemma length_dropWhile_twice_less:
  assumes "dropWhile P xs \<noteq> []"
  shows "length (dropWhile (\<lambda>x. \<not> P x) (dropWhile P xs)) < length xs"
proof -
  obtain y ys where d: "dropWhile P xs = y # ys"
    using assms by (cases "dropWhile P xs") auto
  then have "\<not> P y" by (rule hd_dropWhile_not)
  with d have "dropWhile (\<lambda>x. \<not> P x) (dropWhile P xs) = dropWhile (\<lambda>x. \<not> P x) ys"
    by simp
  moreover have "length (dropWhile (\<lambda>x. \<not> P x) ys) \<le> length ys"
    by (rule length_dropWhile_le)
  moreover have "length (y # ys) \<le> length xs"
    using d length_dropWhile_le [of P xs] by simp
  ultimately show ?thesis by simp
qed

lemma takeWhile_len_le: "length (takeWhile P xs) \<le> length xs"
  by (induction xs) auto

lemma length_takeWhile_dropWhile:
  "length (takeWhile P xs) + length (dropWhile P xs) = length xs"
  by (metis length_append takeWhile_dropWhile_id)

lemma length_takeWhile_all: "length (takeWhile (\<lambda>x. x \<noteq> a) xs) = length xs \<longleftrightarrow> a \<notin> set xs"
proof (induction xs)
  case Nil
  then show ?case by simp
next
  case (Cons x xs)
  have "length (takeWhile (\<lambda>x. x \<noteq> a) xs) \<le> length xs" by (rule takeWhile_len_le)
  with Cons show ?case by auto
qed

lemma takeWhile_until: "a \<notin> set xs \<Longrightarrow> takeWhile (\<lambda>c. c \<noteq> a) (xs @ a # ys) = xs"
  by (induction xs) auto

lemma option_bind_Some [simp]: "(Some x \<bind> f) = f x"
  by simp

end
