(* ===== verification/Url.thy ===== *)
theory Url
  imports Prelude
begin

text \<open>
  The request-target functions of \<^verbatim>\<open>src/src/url.c\<close>: splitting a target at the first question
  mark, strict percent decoding, and normalisation of an absolute path.
\<close>

section \<open>The model\<close>

text \<open>Return codes: \<open>URL_INVALID\<close> is -1, \<open>URL_OVERFLOW\<close> is -2.\<close>

datatype url_err = URL_INVALID | URL_OVERFLOW

fun find_qmark :: "string \<Rightarrow> nat \<Rightarrow> nat" where
  "find_qmark [] i = i"
| "find_qmark (c # cs) i = (if c = CHR ''?'' then i else find_qmark cs (Suc i))"

text \<open>The result is (path_len, query_off, query_len).\<close>

definition url_split_path_query :: "string option \<Rightarrow> url_err + nat \<times> nat \<times> nat" where
  "url_split_path_query target =
     (case target of
        None \<Rightarrow> Inl URL_INVALID
      | Some t \<Rightarrow>
          (let n = length t; q = find_qmark t 0
           in if q = n then Inr (q, n, 0)
              else Inr (q, q + 1, if q + 1 \<le> n then n - (q + 1) else 0)))"

definition hexval :: "char \<Rightarrow> int" where
  "hexval c =
     (let b = byte c
      in if 48 \<le> b \<and> b \<le> 57 then int (b - 48)
         else if 97 \<le> b \<and> b \<le> 102 then 10 + int (b - 97)
         else if 65 \<le> b \<and> b \<le> 70 then 10 + int (b - 65)
         else - 1)"

text \<open>The loop of the decoder: the bytes still to read, then the bytes written so far.\<close>

fun percent_decode_loop :: "nat \<Rightarrow> bool \<Rightarrow> string \<Rightarrow> string \<Rightarrow> url_err + string" where
  "percent_decode_loop cap rej [] out = Inr out"
| "percent_decode_loop cap rej (c # cs) out =
     (if c = CHR ''%'' then
        (case cs of
           h # l # rest \<Rightarrow>
             (let hi = hexval h; lo = hexval l
              in if hi < 0 \<or> lo < 0 then Inl URL_INVALID
                 else
                   (let d = char_of (nat (hi * 16 + lo))
                    in if d = NUL then Inl URL_INVALID
                       else if rej \<and> (d = CHR ''/'' \<or> d = CHR 0x5C) then Inl URL_INVALID
                       else if length out + 1 > cap then Inl URL_OVERFLOW
                       else percent_decode_loop cap rej rest (out @ [d])))
         | _ \<Rightarrow> Inl URL_INVALID)
      else if length out + 1 > cap then Inl URL_OVERFLOW
      else percent_decode_loop cap rej cs (out @ [c]))"

definition url_percent_decode_strict :: "string option \<Rightarrow> nat \<Rightarrow> bool \<Rightarrow> url_err + string" where
  "url_percent_decode_strict inp out_cap reject_decoded_slashes =
     (case inp of
        None \<Rightarrow> Inl URL_INVALID
      | Some s \<Rightarrow>
          if out_cap = 0 then Inl URL_INVALID
          else percent_decode_loop out_cap reject_decoded_slashes s [])"

text \<open>
  The normaliser writes into the caller's buffer \<open>out\<close> (its length is \<open>out_cap\<close>) at index \<open>o'\<close>
  and keeps the stack \<open>segs\<close> of the start offsets of the segments written. \<open>None\<close> is an
  out-of-bounds access. The constant 256 is the size of \<open>seg_starts\<close>.
\<close>

definition seg_cap :: nat where
  "seg_cap = 256"

definition normalize_pop :: "string \<Rightarrow> nat \<Rightarrow> nat list \<Rightarrow> (string \<times> nat \<times> nat list) option" where
  "normalize_pop out o' segs =
     (if segs \<noteq> [] then
        do {
          let o1 = last segs;
          c \<leftarrow> (if o1 > 1 then buf_get out (o1 - 1) else Some NUL);
          let o2 = (if o1 > 1 \<and> c = CHR ''/'' then o1 - 1 else o1);
          out' \<leftarrow> buf_put out o2 NUL;
          Some (out', o2, butlast segs)
        }
      else Some (out, o', segs))"

definition normalize_push ::
    "string \<Rightarrow> nat \<Rightarrow> nat list \<Rightarrow> string \<Rightarrow> (url_err + string \<times> nat \<times> nat list) option" where
  "normalize_push out o' segs seg =
     (let cap = length out
      in if o' > 1 \<and> o' + 1 > cap then Some (Inl URL_OVERFLOW)
         else do {
           out1 \<leftarrow> (if o' > 1 then buf_put out o' (CHR ''/'') else Some out);
           let o1 = (if o' > 1 then o' + 1 else o');
           if length segs \<ge> seg_cap then Some (Inl URL_INVALID)
           else if o1 + length seg > cap then Some (Inl URL_OVERFLOW)
           else do {
             out2 \<leftarrow> buf_copy out1 o1 seg;
             Some (Inr (out2, o1 + length seg, segs @ [o1]))
           }
         })"

function normalize_loop ::
    "string \<Rightarrow> string \<Rightarrow> nat \<Rightarrow> nat list \<Rightarrow> (url_err + string \<times> nat) option" where
  "normalize_loop rest out o' segs =
     (let p = dropWhile (\<lambda>c. c = CHR ''/'') rest
      in if p = [] then Some (Inr (out, o'))
         else
           (let seg = takeWhile (\<lambda>c. c \<noteq> CHR ''/'') p;
                rest' = dropWhile (\<lambda>c. c \<noteq> CHR ''/'') p
            in if seg = ''.'' then normalize_loop rest' out o' segs
               else if seg = ''..'' then
                 (case normalize_pop out o' segs of
                    None \<Rightarrow> None
                  | Some (out', o1, segs') \<Rightarrow> normalize_loop rest' out' o1 segs')
               else
                 (case normalize_push out o' segs seg of
                    None \<Rightarrow> None
                  | Some (Inl e) \<Rightarrow> Some (Inl e)
                  | Some (Inr (out', o1, segs')) \<Rightarrow> normalize_loop rest' out' o1 segs')))"
  by pat_completeness auto
termination
  by (relation "measure (\<lambda>(rest, out, o', segs). length rest)")
    (simp_all add: length_dropWhile_twice_less)

declare normalize_loop.simps [simp del]

text \<open>The result is the buffer, the number of its bytes that are the path, and ends_with_slash.\<close>

definition url_path_normalize_absolute ::
    "string option \<Rightarrow> string \<Rightarrow> (url_err + string \<times> nat \<times> bool) option" where
  "url_path_normalize_absolute path out =
     (case path of
        None \<Rightarrow> Some (Inl URL_INVALID)
      | Some p \<Rightarrow>
          if length out = 0 then Some (Inl URL_INVALID)
          else if p = [] \<or> hd p \<noteq> CHR ''/'' then Some (Inl URL_INVALID)
          else do {
            let ends = (last p = CHR ''/'');
            out0 \<leftarrow> buf_put out 0 (CHR ''/'');
            r \<leftarrow> normalize_loop (tl p) out0 1 [];
            (case r of
               Inl e \<Rightarrow> Some (Inl e)
             | Inr (out', o') \<Rightarrow>
                 if o' = 0 then Some (Inl URL_INVALID)
                 else if o' = 1 then do { out'' \<leftarrow> buf_put out' 0 (CHR ''/''); Some (Inr (out'', 1, ends)) }
                 else Some (Inr (out', o', ends)))
          })"

section \<open>Reference semantics of path normalisation\<close>

text \<open>
  The specification works on segments: split the path at slashes, drop the empty segments, and
  run the remaining ones over a stack, where a single dot does nothing and a double dot pops.
\<close>

fun split_slash :: "string \<Rightarrow> string list" where
  "split_slash [] = [[]]"
| "split_slash (c # cs) =
     (if c = CHR ''/'' then [] # split_slash cs
      else (case split_slash cs of [] \<Rightarrow> [[c]] | s # ss \<Rightarrow> (c # s) # ss))"

definition path_segments :: "string \<Rightarrow> string list" where
  "path_segments p = filter (\<lambda>s. s \<noteq> []) (split_slash p)"

definition resolve_step :: "string list \<Rightarrow> string \<Rightarrow> string list" where
  "resolve_step st seg = (if seg = ''.'' then st else if seg = ''..'' then butlast st else st @ [seg])"

definition canonical_segments :: "string \<Rightarrow> string list" where
  "canonical_segments p = foldl resolve_step [] (path_segments p)"

definition render_path :: "string list \<Rightarrow> string" where
  "render_path st = (if st = [] then ''/'' else concat (map (\<lambda>s. CHR ''/'' # s) st))"

definition good_segment :: "string \<Rightarrow> bool" where
  "good_segment s \<longleftrightarrow> s \<noteq> [] \<and> CHR ''/'' \<notin> set s"

subsection \<open>Splitting\<close>

lemma split_slash_not_Nil [simp]: "split_slash p \<noteq> []"
  by (induction p) (auto split: list.splits)

lemma split_slash_Cons_other:
  "c \<noteq> CHR ''/'' \<Longrightarrow> split_slash (c # cs) = (c # hd (split_slash cs)) # tl (split_slash cs)"
  by (cases "split_slash cs") auto

lemma split_slash_word:
  "CHR ''/'' \<notin> set w \<Longrightarrow> r = [] \<or> hd r = CHR ''/'' \<Longrightarrow>
   split_slash (w @ r) = (if r = [] then [w] else w # split_slash (tl r))"
  by (induction w) (cases r; auto)+

lemma path_segments_Nil [simp]: "path_segments [] = []"
  by (simp add: path_segments_def)

lemma path_segments_slash [simp]: "path_segments (CHR ''/'' # p) = path_segments p"
  by (simp add: path_segments_def)

lemma path_segments_dropWhile:
  "path_segments (dropWhile (\<lambda>c. c = CHR ''/'') p) = path_segments p"
  by (induction p) auto

lemma path_segments_word:
  assumes "good_segment w" "r = [] \<or> hd r = CHR ''/''"
  shows "path_segments (w @ r) = w # path_segments r"
proof (cases r)
  case Nil
  then show ?thesis using assms split_slash_word [of w r]
    by (auto simp: path_segments_def good_segment_def)
next
  case (Cons c r')
  with assms have c: "c = CHR ''/''" by simp
  show ?thesis using assms Cons c split_slash_word [of w r]
    by (auto simp: path_segments_def good_segment_def)
qed

lemma path_segments_render:
  "\<forall>s\<in>set st. good_segment s \<Longrightarrow> path_segments (render_path st) = st"
proof (induction st)
  case Nil
  then show ?case by (simp add: render_path_def)
next
  case (Cons s st)
  let ?r = "concat (map (\<lambda>s. CHR ''/'' # s) st)"
  have "?r = [] \<or> hd ?r = CHR ''/''" by (cases st) auto
  then have "path_segments (s @ ?r) = s # path_segments ?r"
    using Cons.prems by (auto intro: path_segments_word)
  moreover have "path_segments ?r = st"
    using Cons by (cases st) (auto simp: render_path_def)
  ultimately show ?case by (simp add: render_path_def)
qed

lemma next_segment:
  fixes rest :: string
  defines "p \<equiv> dropWhile (\<lambda>c. c = CHR ''/'') rest"
  defines "seg \<equiv> takeWhile (\<lambda>c. c \<noteq> CHR ''/'') p"
  defines "rest' \<equiv> dropWhile (\<lambda>c. c \<noteq> CHR ''/'') p"
  assumes "p \<noteq> []"
  shows "good_segment seg"
    and "path_segments rest = seg # path_segments rest'"
    and "rest' = [] \<or> hd rest' = CHR ''/''"
    and "length seg + length rest' \<le> length rest"
    and "rest = [] \<or> hd rest = CHR ''/'' \<Longrightarrow> Suc (length seg + length rest') \<le> length rest"
proof -
  have p: "p = seg @ rest'" by (simp add: seg_def rest'_def)
  have "seg \<noteq> []"
    using assms(4) takeWhile_dropWhile_not_Nil [of "\<lambda>c. c = CHR ''/''" rest]
    by (simp add: seg_def p_def)
  then show good: "good_segment seg"
    using set_takeWhileD by (fastforce simp: good_segment_def seg_def)
  show rest': "rest' = [] \<or> hd rest' = CHR ''/''"
    using hd_dropWhile [of "\<lambda>c. c \<noteq> CHR ''/''" p] by (auto simp: rest'_def)
  show "path_segments rest = seg # path_segments rest'"
    using path_segments_word [OF good rest'] path_segments_dropWhile [of rest] p
    by (simp add: p_def)
  have len: "length p = length seg + length rest'" by (simp add: p)
  have le: "length p \<le> length rest" by (simp add: p_def length_dropWhile_le)
  show "length seg + length rest' \<le> length rest" using len le by simp
  show "Suc (length seg + length rest') \<le> length rest" if "rest = [] \<or> hd rest = CHR ''/''"
  proof (cases rest)
    case Nil
    then show ?thesis using assms(4) by (simp add: p_def)
  next
    case (Cons c cs)
    then have "p = dropWhile (\<lambda>c. c = CHR ''/'') cs" using that by (simp add: p_def)
    then have "length p \<le> length cs" by (simp add: length_dropWhile_le)
    then show ?thesis using len Cons by simp
  qed
qed

subsection \<open>The loop invariant\<close>

definition seg_offset :: "string list \<Rightarrow> nat" where
  "seg_offset st = length (render_path st) + (if st = [] then 0 else 1)"

definition seg_offsets :: "string list \<Rightarrow> nat list" where
  "seg_offsets st = map (\<lambda>i. seg_offset (take i st)) [0..<length st]"

definition norm_inv :: "string \<Rightarrow> nat \<Rightarrow> nat list \<Rightarrow> string list \<Rightarrow> bool" where
  "norm_inv out o' segs st \<longleftrightarrow>
     o' = length (render_path st) \<and> o' \<le> length out \<and> take o' out = render_path st \<and>
     segs = seg_offsets st \<and> (\<forall>s\<in>set st. good_segment s)"

lemma render_snoc:
  "render_path (st @ [s]) = (if st = [] then CHR ''/'' # s else render_path st @ CHR ''/'' # s)"
  by (simp add: render_path_def)

lemma seg_offsets_snoc: "seg_offsets (st @ [s]) = seg_offsets st @ [seg_offset st]"
  by (simp add: seg_offsets_def)

lemma length_seg_offsets [simp]: "length (seg_offsets st) = length st"
  by (simp add: seg_offsets_def)

lemma length_render_ge: "st \<noteq> [] \<Longrightarrow> \<forall>s\<in>set st. good_segment s \<Longrightarrow> 1 < length (render_path st)"
  by (cases st) (auto simp: render_path_def good_segment_def)

lemma render_not_Nil: "render_path st \<noteq> []"
  by (cases st) (auto simp: render_path_def)

lemma hd_render [simp]: "hd (render_path st) = CHR ''/''"
  by (cases st) (auto simp: render_path_def)

lemma normalize_pop_inv:
  assumes inv: "norm_inv out o' segs st"
  shows "\<exists>out1 o1 segs1. normalize_pop out o' segs = Some (out1, o1, segs1) \<and>
           length out1 = length out \<and> norm_inv out1 o1 segs1 (butlast st)"
proof (cases st rule: rev_cases)
  case Nil
  with inv show ?thesis by (auto simp: normalize_pop_def norm_inv_def seg_offsets_def)
next
  case (snoc st0 s)
  from inv snoc have segs: "segs = seg_offsets st0 @ [seg_offset st0]"
    and good: "\<forall>s\<in>set st0. good_segment s" "s \<noteq> []"
    and o': "o' = length (render_path (st0 @ [s]))" "o' \<le> length out"
    and out: "take o' out = render_path (st0 @ [s])"
    by (auto simp: norm_inv_def seg_offsets_snoc good_segment_def)
  let ?k = "length (render_path st0)"
  have k: "?k < o'" using o' good by (cases "st0 = []") (auto simp: render_snoc render_path_def)
  have pre: "take ?k (render_path (st0 @ [s])) = render_path st0"
    by (auto simp: render_snoc render_path_def)
  have tk: "take ?k out = render_path st0"
    using out k pre by (metis min.strict_order_iff take_take)
  have pos: "(if seg_offset st0 > 1 \<and> out ! (seg_offset st0 - 1) = CHR ''/'' then seg_offset st0 - 1
              else seg_offset st0) = ?k"
  proof (cases "st0 = []")
    case True
    then show ?thesis by (simp add: seg_offset_def render_path_def)
  next
    case False
    have "out ! ?k = render_path (st0 @ [s]) ! ?k" using out k by (metis nth_take)
    with False have "out ! ?k = CHR ''/''" by (simp add: render_snoc nth_append)
    then show ?thesis using False length_render_ge [OF False good(1)]
      by (simp add: seg_offset_def render_not_Nil)
  qed
  have get: "seg_offset st0 - 1 < length out" using k o'
    by (cases "st0 = []") (auto simp: seg_offset_def render_path_def)
  have "normalize_pop out o' segs = Some (out[?k := NUL], ?k, seg_offsets st0)"
    using segs pos k o' get by (auto simp: normalize_pop_def buf_simps Let_def split: if_splits)
  moreover have "norm_inv (out[?k := NUL]) ?k (seg_offsets st0) (butlast st)"
    using snoc k o' tk good by (simp add: norm_inv_def)
  ultimately show ?thesis by auto
qed

lemma normalize_push_inv:
  assumes inv: "norm_inv out o' segs st" and seg: "good_segment seg"
  shows "(\<exists>e. normalize_push out o' segs seg = Some (Inl e) \<and>
            (length (render_path (st @ [seg])) > length out \<or> length st \<ge> seg_cap))
       \<or> (\<exists>out1 o1 segs1. normalize_push out o' segs seg = Some (Inr (out1, o1, segs1)) \<and>
            length out1 = length out \<and> norm_inv out1 o1 segs1 (st @ [seg]))"
proof -
  from inv have o': "o' = length (render_path st)" "o' \<le> length out"
    and out: "take o' out = render_path st" and segs: "segs = seg_offsets st"
    and good: "\<forall>s\<in>set st. good_segment s"
    by (auto simp: norm_inv_def)
  have gt: "o' > 1 \<longleftrightarrow> st \<noteq> []"
    using length_render_ge [of st] good o'(1) by (auto simp: render_path_def)
  have pos: "length seg > 0" using seg by (simp add: good_segment_def)
  define o1 where "o1 = seg_offset st"
  have len: "length (render_path (st @ [seg])) = o1 + length seg"
    using o'(1) by (auto simp: o1_def seg_offset_def render_snoc render_path_def)
  have o1: "o1 = (if o' > 1 then o' + 1 else o')"
    using gt o'(1) by (simp add: o1_def seg_offset_def)
  show ?thesis
  proof (cases "o1 + length seg \<le> length out \<and> length st < seg_cap")
    case False
    then show ?thesis
      using o1 len segs pos o'(2)
      by (cases "o' > 1") (auto simp: normalize_push_def buf_simps Let_def)
  next
    case True
    define out1 where "out1 = (if o' > 1 then out[o' := CHR ''/''] else out)"
    define out2 where "out2 = take o1 out1 @ seg @ drop (o1 + length seg) out1"
    have l1: "length out1 = length out" by (simp add: out1_def)
    have eq: "normalize_push out o' segs seg = Some (Inr (out2, o1 + length seg, segs @ [o1]))"
      using True o1 segs pos o'(2) l1
      by (auto simp: normalize_push_def buf_simps Let_def out1_def out2_def)
    have "take o1 out1 @ seg = render_path (st @ [seg])"
    proof (cases "st = []")
      case True
      then show ?thesis using gt o1 o'(1) out by (simp add: out1_def render_path_def)
    next
      case False
      then have "take o1 out1 = take o' out @ [CHR ''/'']"
        using gt o1 True pos by (simp add: out1_def take_Suc_conv_app_nth)
      then show ?thesis using False out by (simp add: render_snoc)
    qed
    then have "norm_inv out2 (o1 + length seg) (segs @ [o1]) (st @ [seg])"
      using True l1 len segs good seg
      by (auto simp: norm_inv_def seg_offsets_snoc out2_def o1_def)
    then show ?thesis using eq True l1 by (auto simp: out2_def)
  qed
qed

lemma normalize_loop_correct:
  assumes "norm_inv out o' segs st" and "st \<noteq> [] \<longrightarrow> rest = [] \<or> hd rest = CHR ''/''"
  shows "\<exists>r. normalize_loop rest out o' segs = Some r \<and>
           (case r of
              Inl e \<Rightarrow> length (render_path st) + length rest > length out
                      \<or> length st + length (path_segments rest) > seg_cap
            | Inr (out1, o1) \<Rightarrow> length out1 = length out \<and>
                (\<exists>segs1. norm_inv out1 o1 segs1 (foldl resolve_step st (path_segments rest))))"
  using assms
proof (induction rest out o' segs arbitrary: st rule: normalize_loop.induct)
  case (1 rest out o' segs)
  define p where "p = dropWhile (\<lambda>c. c = CHR ''/'') rest"
  define seg where "seg = takeWhile (\<lambda>c. c \<noteq> CHR ''/'') p"
  define rest' where "rest' = dropWhile (\<lambda>c. c \<noteq> CHR ''/'') p"
  note unf = normalize_loop.simps [of rest out o' segs, folded p_def, unfolded Let_def,
      folded seg_def rest'_def]
  show ?case
  proof (cases "p = []")
    case True
    then have "path_segments rest = []"
      using path_segments_dropWhile [of rest, folded p_def] by simp
    then show ?thesis using True unf 1(4) by auto
  next
    case p: False
    note ns = next_segment [of rest, folded p_def, folded seg_def rest'_def, OF p]
    have seg: "good_segment seg" and rs: "path_segments rest = seg # path_segments rest'"
      and hd': "st' \<noteq> [] \<longrightarrow> rest' = [] \<or> hd rest' = CHR ''/''" for st' :: "string list"
      using ns by auto
    note IH = 1(1-3) [OF p_def p seg_def rest'_def]
    consider (dot) "seg = ''.''" | (dots) "seg = ''..''" | (word) "seg \<noteq> ''.''" "seg \<noteq> ''..''"
      by blast
    then show ?thesis
    proof cases
      case dot
      with IH(1) [OF dot 1(4) hd'] unf p rs ns(4) show ?thesis
        by (fastforce simp: resolve_step_def split: sum.splits)
    next
      case dots
      obtain out1 o1 segs1 where pop: "normalize_pop out o' segs = Some (out1, o1, segs1)"
        and l1: "length out1 = length out" and inv1: "norm_inv out1 o1 segs1 (butlast st)"
        using normalize_pop_inv [OF 1(4)] by blast
      have "length (render_path (butlast st)) \<le> length (render_path st)"
        by (cases st rule: rev_cases) (auto simp: render_snoc render_path_def)
      moreover have "length (butlast st) \<le> length st" by simp
      ultimately show ?thesis
        using IH(2) [OF _ dots pop refl refl inv1 hd'] unf p rs ns(4) dots pop l1
        by (fastforce simp: resolve_step_def split: sum.splits)
    next
      case word
      consider (err) e where "normalize_push out o' segs seg = Some (Inl e)"
          "length (render_path (st @ [seg])) > length out \<or> length st \<ge> seg_cap"
        | (ok) out1 o1 segs1 where "normalize_push out o' segs seg = Some (Inr (out1, o1, segs1))"
          "length out1 = length out" "norm_inv out1 o1 segs1 (st @ [seg])"
        using normalize_push_inv [OF 1(4) seg] by blast
      then show ?thesis
      proof cases
        case err
        note push = err(1) and why = err(2)
        have "length (render_path (st @ [seg])) \<le> length (render_path st) + length rest"
          using ns(4,5) 1(5) by (cases "st = []") (auto simp: render_snoc render_path_def)
        with why rs have "length (render_path st) + length rest > length out
            \<or> length st + length (path_segments rest) > seg_cap"
          by auto
        then show ?thesis using unf p word push by simp
      next
        case ok
        note push = ok(1) and l1 = ok(2) and inv1 = ok(3)
        have "length (render_path (st @ [seg])) + length rest' \<le> length (render_path st) + length rest"
          using ns(4,5) 1(5) by (cases "st = []") (auto simp: render_snoc render_path_def)
        then show ?thesis
          using IH(3) [OF word push refl refl refl inv1 hd'] unf p rs word push l1
          by (fastforce simp: resolve_step_def split: sum.splits)
      qed
    qed
  qed
qed

subsection \<open>Properties of the reference semantics\<close>

lemma set_split_slash: "s \<in> set (split_slash p) \<Longrightarrow> CHR ''/'' \<notin> set s"
  by (induction p arbitrary: s) (auto split: list.splits if_splits)

lemma set_path_segments: "s \<in> set (path_segments p) \<Longrightarrow> good_segment s"
  by (auto simp: path_segments_def good_segment_def dest: set_split_slash)

definition plain_segment :: "string \<Rightarrow> bool" where
  "plain_segment s \<longleftrightarrow> good_segment s \<and> s \<noteq> ''.'' \<and> s \<noteq> ''..''"

lemma foldl_resolve_plain:
  "\<forall>s\<in>set st. plain_segment s \<Longrightarrow> \<forall>s\<in>set ss. good_segment s \<Longrightarrow>
   \<forall>s\<in>set (foldl resolve_step st ss). plain_segment s"
proof (induction ss arbitrary: st)
  case Nil
  then show ?case by simp
next
  case (Cons x ss)
  have "\<forall>s\<in>set (resolve_step st x). plain_segment s"
    using Cons.prems by (auto simp: resolve_step_def plain_segment_def dest: in_set_butlastD)
  then show ?case using Cons by simp
qed

lemma canonical_plain: "\<forall>s\<in>set (canonical_segments p). plain_segment s"
  unfolding canonical_segments_def
  by (rule foldl_resolve_plain) (auto dest: set_path_segments)

lemma foldl_resolve_id:
  "\<forall>s\<in>set ss. plain_segment s \<Longrightarrow> foldl resolve_step st ss = st @ ss"
  by (induction ss arbitrary: st) (auto simp: resolve_step_def plain_segment_def)

lemma canonical_render:
  "\<forall>s\<in>set st. plain_segment s \<Longrightarrow> canonical_segments (render_path st) = st"
  by (simp add: canonical_segments_def path_segments_render foldl_resolve_id plain_segment_def)

subsection \<open>Correctness of the normaliser\<close>

lemma norm_inv_start: "out \<noteq> [] \<Longrightarrow> norm_inv (out[0 := CHR ''/'']) 1 [] []"
  by (cases out) (auto simp: norm_inv_def seg_offsets_def render_path_def)

lemma url_path_normalize_cases:
  assumes "out \<noteq> []" "p \<noteq> []" "hd p = CHR ''/''"
  shows "(\<exists>e. url_path_normalize_absolute (Some p) out = Some (Inl e) \<and>
            (length p > length out \<or> length (path_segments p) > seg_cap))
       \<or> (\<exists>out1. url_path_normalize_absolute (Some p) out =
              Some (Inr (out1, length (render_path (canonical_segments p)), last p = CHR ''/''))
            \<and> length out1 = length out
            \<and> take (length (render_path (canonical_segments p))) out1
                = render_path (canonical_segments p))"
proof -
  obtain q where p: "p = CHR ''/'' # q" using assms by (cases p) auto
  let ?r = "normalize_loop q (out[0 := CHR ''/'']) 1 []"
  have can: "foldl resolve_step [] (path_segments q) = canonical_segments p"
    by (simp add: canonical_segments_def p)
  obtain r where r: "?r = Some r" and post:
    "case r of
       Inl e \<Rightarrow> length (render_path []) + length q > length out
               \<or> length (path_segments q) > seg_cap
     | Inr (out1, o1) \<Rightarrow> length out1 = length out \<and>
         (\<exists>segs1. norm_inv out1 o1 segs1 (canonical_segments p))"
    using normalize_loop_correct [OF norm_inv_start [OF assms(1)], of q, unfolded can length_list_update list.size add_0] by auto
  show ?thesis
  proof (cases r)
    case (Inl e)
    then show ?thesis using r post p assms(1)
      by (auto simp: url_path_normalize_absolute_def buf_simps render_path_def)
  next
    case (Inr ro)
    obtain out1 o1 where ro: "ro = (out1, o1)" by (cases ro)
    with Inr post have len: "length out1 = length out"
      and o1: "o1 = length (render_path (canonical_segments p))"
      and tk: "take o1 out1 = render_path (canonical_segments p)"
      by (auto simp: norm_inv_def)
    have o1_pos: "o1 \<noteq> 0" using o1 by (simp add: render_not_Nil)
    have hd1: "out1[0 := CHR ''/''] = out1" if "o1 = 1"
    proof -
      have "hd (take o1 out1) = CHR ''/''" using tk by simp
      then show ?thesis using that len assms(1) by (cases out1) auto
    qed
    show ?thesis
      using r Inr ro len o1 tk o1_pos hd1 p assms(1)
      by (cases "o1 = 1") (auto simp: url_path_normalize_absolute_def buf_simps)
  qed
qed

text \<open>
  C15: path normalisation implements the segment-stack semantics. For every path and every output
  buffer, whatever their sizes, the routine accesses neither out of bounds. If it succeeds, the
  path is absolute and the bytes reported in the buffer, whose size is unchanged, are exactly the
  rendering of the path's canonical segments, with the flag telling whether the path ended in a
  slash; and it fails only if the buffer is empty, the path is not absolute, the path is longer
  than the buffer or it has more than 256 segments.
\<close>

theorem url_path_normalize_refines:
  "\<exists>res. url_path_normalize_absolute (Some p) out = Some res \<and>
     (case res of
        Inl e \<Rightarrow> out = [] \<or> p = [] \<or> hd p \<noteq> CHR ''/'' \<or> length p > length out \<or> length (path_segments p) > seg_cap
      | Inr (out1, n, ends) \<Rightarrow> p \<noteq> [] \<and> hd p = CHR ''/'' \<and> ends = (last p = CHR ''/'') \<and> n \<le> length out1 \<and>
          length out1 = length out \<and> take n out1 = render_path (canonical_segments p))"
proof (cases "out = [] \<or> p = [] \<or> hd p \<noteq> CHR ''/''")
  case True
  then show ?thesis by (auto simp: url_path_normalize_absolute_def)
next
  case False
  then consider (err) e where "url_path_normalize_absolute (Some p) out = Some (Inl e)"
      "length p > length out \<or> length (path_segments p) > seg_cap"
    | (ok) out1 where "url_path_normalize_absolute (Some p) out =
        Some (Inr (out1, length (render_path (canonical_segments p)), last p = CHR ''/''))"
      "length out1 = length out"
      "take (length (render_path (canonical_segments p))) out1 = render_path (canonical_segments p)"
    using url_path_normalize_cases [of out p] by blast
  then show ?thesis
  proof cases
    case ok
    have "length (render_path (canonical_segments p)) \<le> length out1"
      using arg_cong [OF ok(3), of length] by simp
    then show ?thesis using ok False by auto
  qed auto
qed

theorem url_path_normalize_refines_witness:
  "\<exists>out1 n. url_path_normalize_absolute (Some ''/a/../b//./c/'') (replicate 16 NUL)
      = Some (Inr (out1, n, True)) \<and> length out1 = 16 \<and> take n out1 = ''/b/c''"
proof -
  have "render_path (canonical_segments ''/a/../b//./c/'') = ''/b/c''" "length (path_segments ''/a/../b//./c/'') \<le> seg_cap"
    by (simp_all add: path_segments_def seg_cap_def canonical_segments_def resolve_step_def render_path_def)
  then show ?thesis
    using url_path_normalize_refines [of "''/a/../b//./c/''" "replicate 16 NUL"] by (force split: sum.splits prod.splits)
qed

text \<open>
  C16: a normalised path cannot escape its root. Whatever the input and the buffer, a successful
  normalisation yields a path that starts with a slash, whose segments contain no slash and are
  neither empty nor a single or a double dot, and that is a fixed point of the canonical form.
\<close>

theorem url_path_normalize_no_traversal:
  assumes "url_path_normalize_absolute path out = Some (Inr (out1, n, ends))"
  shows "hd (take n out1) = CHR ''/'' \<and>
    (\<forall>s\<in>set (path_segments (take n out1)). plain_segment s) \<and>
    render_path (canonical_segments (take n out1)) = take n out1"
proof -
  obtain p where path: "path = Some p" "out \<noteq> []" "p \<noteq> []" "hd p = CHR ''/''"
    using assms by (auto simp: url_path_normalize_absolute_def split: option.splits if_splits)
  with url_path_normalize_cases [of out p] assms
  have tk: "take n out1 = render_path (canonical_segments p)" by auto
  have "path_segments (take n out1) = canonical_segments p"
    using tk canonical_plain [of p] by (simp add: path_segments_render plain_segment_def)
  then show ?thesis
    using tk canonical_plain [of p] by (simp add: canonical_render)
qed

theorem url_path_normalize_no_traversal_witness:
  "\<exists>out1. url_path_normalize_absolute (Some ''/../x'') (replicate 8 NUL) = Some (Inr (out1, 2, False))
     \<and> hd (take 2 out1) = CHR ''/'' \<and> (\<forall>s\<in>set (path_segments (take 2 out1)). plain_segment s)"
proof -
  have "url_path_normalize_absolute (Some ''/../x'') (replicate 8 NUL)
      = Some (Inr (''/x'' @ replicate 6 NUL, 2, False))"
    by code_simp
  from url_path_normalize_no_traversal [OF this] this show ?thesis by auto
qed

section \<open>Percent decoding\<close>

text \<open>A reference encoder: bytes selected by \<open>esc\<close>, and every percent sign, become an escape.\<close>

definition hex_digit :: "nat \<Rightarrow> char" where
  "hex_digit n = char_of (if n < 10 then 48 + n else 55 + n)"

definition percent_escape :: "char \<Rightarrow> string" where
  "percent_escape c = [CHR ''%'', hex_digit (byte c div 16), hex_digit (byte c mod 16)]"

definition percent_encode :: "(char \<Rightarrow> bool) \<Rightarrow> string \<Rightarrow> string" where
  "percent_encode esc s =
     concat (map (\<lambda>c. if esc c \<or> c = CHR ''%'' then percent_escape c else [c]) s)"

lemma hexval_hex_digit: "n < 16 \<Longrightarrow> hexval (hex_digit n) = int n"
  by (auto simp: hexval_def hex_digit_def Let_def)

lemma hexval_range: "hexval c < 16"
  by (auto simp: hexval_def Let_def)

lemma decode_escape:
  "percent_decode_loop cap rej (percent_escape c @ rest) out =
     (if c = NUL then Inl URL_INVALID
      else if rej \<and> (c = CHR ''/'' \<or> c = CHR 0x5C) then Inl URL_INVALID
      else if length out + 1 > cap then Inl URL_OVERFLOW
      else percent_decode_loop cap rej rest (out @ [c]))"
proof -
  have b: "byte c div 16 < 16" using byte_less_256 [of c] by linarith
  have "nat (int (byte c div 16) * 16 + int (byte c mod 16)) = byte c"
    by (metis div_mult_mod_eq nat_int of_nat_add of_nat_mult of_nat_numeral)
  moreover have "char_of (byte c) = c" by simp
  ultimately show ?thesis
    by (simp add: percent_escape_def hexval_hex_digit b Let_def)
qed

lemma percent_decode_encode_loop:
  "\<forall>c\<in>set s. (esc c \<or> c = CHR ''%'') \<longrightarrow> c \<noteq> NUL \<and> (rej \<longrightarrow> c \<noteq> CHR ''/'' \<and> c \<noteq> CHR 0x5C) \<Longrightarrow>
   length out + length s \<le> cap \<Longrightarrow>
   percent_decode_loop cap rej (percent_encode esc s) out = Inr (out @ s)"
proof (induction s arbitrary: out)
  case Nil
  then show ?case by (simp add: percent_encode_def)
next
  case (Cons c s)
  have enc: "percent_encode esc (c # s) =
      (if esc c \<or> c = CHR ''%'' then percent_escape c else [c]) @ percent_encode esc s"
    by (simp add: percent_encode_def)
  have IH: "percent_decode_loop cap rej (percent_encode esc s) (out @ [c]) = Inr (out @ c # s)"
    using Cons.IH [of "out @ [c]"] Cons.prems by simp
  show ?case using Cons.prems IH by (auto simp: enc decode_escape)
qed

lemma percent_decode_loop_shape:
  "percent_decode_loop cap True s out = Inr r \<Longrightarrow>
   \<exists>d. r = out @ d \<and> length d \<le> length s \<and>
       filter (\<lambda>c. c = CHR ''/'') d = filter (\<lambda>c. c = CHR ''/'') s \<and>
       (NUL \<in> set d \<longrightarrow> NUL \<in> set s) \<and> (length out \<le> cap \<longrightarrow> length r \<le> cap)"
proof (induction cap True s out rule: percent_decode_loop.induct)
  case (1 cap out)
  then show ?case by simp
next
  case (2 cap c cs out)
  show ?case
  proof (cases "c = CHR ''%''")
    case True
    obtain h l rest where cs: "cs = h # l # rest"
      using 2(3) True by (auto split: list.splits)
    let ?d = "char_of (nat (hexval h * 16 + hexval l))"
    from 2(3) True cs have ok: "\<not> (hexval h < 0 \<or> hexval l < 0)" "?d \<noteq> NUL"
      "\<not> (?d = CHR ''/'' \<or> ?d = CHR 0x5C)" "\<not> length out + 1 > cap"
      and rec: "percent_decode_loop cap True rest (out @ [?d]) = Inr r"
      by (auto simp: Let_def split: if_splits)
    have hx: "h \<noteq> CHR ''/''" "l \<noteq> CHR ''/''"
      using ok(1) by (auto simp: hexval_def)
    obtain d where "r = (out @ [?d]) @ d" "length d \<le> length rest"
      "filter (\<lambda>c. c = CHR ''/'') d = filter (\<lambda>c. c = CHR ''/'') rest"
      "NUL \<in> set d \<longrightarrow> NUL \<in> set rest" "length (out @ [?d]) \<le> cap \<longrightarrow> length r \<le> cap"
      using 2(1) [OF True cs refl refl refl ok(1) refl ok(2) _ ok(4) rec] ok(3) by auto
    then show ?thesis using True cs ok hx by (intro exI [of _ "?d # d"]) auto
  next
    case False
    from 2(3) False have le: "\<not> length out + 1 > cap"
      and rec: "percent_decode_loop cap True cs (out @ [c]) = Inr r"
      by (auto split: if_splits)
    obtain d where "r = (out @ [c]) @ d" "length d \<le> length cs"
      "filter (\<lambda>c. c = CHR ''/'') d = filter (\<lambda>c. c = CHR ''/'') cs"
      "NUL \<in> set d \<longrightarrow> NUL \<in> set cs" "length (out @ [c]) \<le> cap \<longrightarrow> length r \<le> cap"
      using 2(2) [OF False le rec] by auto
    then show ?thesis using False le by (intro exI [of _ "c # d"]) auto
  qed
qed

text \<open>
  C17: percent decoding inverts percent encoding. Every string whose escaped bytes are neither
  NUL nor, when decoded slashes are rejected, a slash or a backslash, is recovered exactly from
  any of its encodings, provided that the output buffer holds it.
\<close>

theorem percent_decode_encode:
  assumes "\<forall>c\<in>set s. (esc c \<or> c = CHR ''%'') \<longrightarrow> c \<noteq> NUL \<and> (rej \<longrightarrow> c \<noteq> CHR ''/'' \<and> c \<noteq> CHR 0x5C)"
    and "length s \<le> cap" "0 < cap"
  shows "url_percent_decode_strict (Some (percent_encode esc s)) cap rej = Inr s"
  using percent_decode_encode_loop [OF assms(1), of "[]" cap] assms(2,3)
  by (simp add: url_percent_decode_strict_def)

theorem percent_decode_encode_witness:
  "percent_encode (\<lambda>c. c = CHR '' '') ''/a b%'' = ''/a%20b%25'' \<and>
   url_percent_decode_strict (Some (percent_encode (\<lambda>c. c = CHR '' '') ''/a b%'')) 5 True = Inr ''/a b%''"
proof
  show "percent_encode (\<lambda>c. c = CHR '' '') ''/a b%'' = ''/a%20b%25''"
    by code_simp
  show "url_percent_decode_strict (Some (percent_encode (\<lambda>c. c = CHR '' '') ''/a b%'')) 5 True = Inr ''/a b%''"
    by (rule percent_decode_encode) auto
qed

text \<open>
  C18: with decoded slashes rejected, as the server calls it, decoding never changes the
  directory structure of a path: the output has exactly the slashes of the input, no NUL that
  was not in the input, is no longer than the input and fits the output buffer.
\<close>

theorem percent_decode_structure:
  assumes "url_percent_decode_strict (Some s) cap True = Inr d"
  shows "filter (\<lambda>c. c = CHR ''/'') d = filter (\<lambda>c. c = CHR ''/'') s \<and>
    (NUL \<in> set d \<longrightarrow> NUL \<in> set s) \<and> length d \<le> length s \<and> length d \<le> cap"
  using percent_decode_loop_shape [of cap s "[]" d] assms
  by (auto simp: url_percent_decode_strict_def split: if_splits)

theorem percent_decode_structure_witness:
  "url_percent_decode_strict (Some ''/%41/b'') 8 True = Inr ''/A/b'' \<and>
   filter (\<lambda>c. c = CHR ''/'') ''/A/b'' = filter (\<lambda>c. c = CHR ''/'') ''/%41/b''"
proof -
  have "url_percent_decode_strict (Some ''/%41/b'') 8 True = Inr ''/A/b''" by code_simp
  from percent_decode_structure [OF this] this show ?thesis by blast
qed

text \<open>Splitting a target: the path is everything before the first question mark.\<close>

lemma find_qmark_takeWhile: "find_qmark t i = i + length (takeWhile (\<lambda>c. c \<noteq> CHR ''?'') t)"
  by (induction t i rule: find_qmark.induct) auto

lemma url_split_path_query_Some:
  "url_split_path_query (Some t) =
     Inr (length (takeWhile (\<lambda>c. c \<noteq> CHR ''?'') t),
          (if CHR ''?'' \<in> set t then Suc (length (takeWhile (\<lambda>c. c \<noteq> CHR ''?'') t)) else length t),
          (if CHR ''?'' \<in> set t then length t - Suc (length (takeWhile (\<lambda>c. c \<noteq> CHR ''?'') t)) else 0))"
proof -
  have "length (takeWhile (\<lambda>c. c \<noteq> CHR ''?'') t) = length t \<longleftrightarrow> CHR ''?'' \<notin> set t"
    by (rule length_takeWhile_all)
  then show ?thesis
    using takeWhile_len_le [of "\<lambda>c. c \<noteq> CHR ''?''" t]
    by (auto simp: url_split_path_query_def find_qmark_takeWhile Let_def)
qed

end
