(* ===== verification/Decimal.thy ===== *)
theory Decimal
  imports Prelude
begin

text \<open>
  Decimal text and 64-bit overflow checks. The C code prints numbers with the \<^verbatim>\<open>%llu\<close>, \<^verbatim>\<open>%zu\<close> and
  \<^verbatim>\<open>%u\<close> conversions of \<^verbatim>\<open>snprintf\<close> (\<open>show_nat\<close>) and reads them back with two hand-written
  accumulation loops whose overflow guards differ; both guards are shown to be exact here.
\<close>

definition UINT64_MAX :: u64 where
  "UINT64_MAX = 18446744073709551615"

function show_nat :: "nat \<Rightarrow> string" where
  "show_nat n = (if n < 10 then [char_of (48 + n)] else show_nat (n div 10) @ [char_of (48 + n mod 10)])"
  by pat_completeness auto
termination
  by (relation "measure id") auto

declare show_nat.simps [simp del]

text \<open>The value of a string of digits.\<close>

definition dec_value :: "string \<Rightarrow> nat" where
  "dec_value s = foldl (\<lambda>v c. v * 10 + digit_val c) 0 s"

lemma is_digit_char_of [simp]: "n < 10 \<Longrightarrow> is_digit (char_of (48 + n :: nat))"
  by (simp add: is_digit_def)

lemma digit_val_char_of [simp]: "n < 10 \<Longrightarrow> digit_val (char_of (48 + n :: nat)) = n"
  by (simp add: digit_val_def)

lemma show_nat_digits: "c \<in> set (show_nat n) \<Longrightarrow> is_digit c"
proof (induction n rule: show_nat.induct)
  case (1 n)
  show ?case
  proof (cases "n < 10")
    case True
    then show ?thesis using 1(2) by (simp add: show_nat.simps [of n])
  next
    case False
    then have "c \<in> set (show_nat (n div 10)) \<or> c = char_of (48 + n mod 10)"
      using 1(2) by (auto simp: show_nat.simps [of n])
    then show ?thesis using 1(1) [OF False] by auto
  qed
qed

lemma show_nat_not_Nil [simp]: "show_nat n \<noteq> []"
  by (simp add: show_nat.simps [of n])

lemma dec_value_snoc: "dec_value (s @ [c]) = dec_value s * 10 + digit_val c"
  by (simp add: dec_value_def)

lemma dec_value_show_nat [simp]: "dec_value (show_nat n) = n"
proof (induction n rule: show_nat.induct)
  case (1 n)
  show ?case
  proof (cases "n < 10")
    case True
    then show ?thesis by (simp add: show_nat.simps [of n] dec_value_def)
  next
    case False
    then have "dec_value (show_nat n) = dec_value (show_nat (n div 10)) * 10 + n mod 10"
      by (simp add: show_nat.simps [of n] dec_value_snoc)
    also have "\<dots> = n" using 1 [OF False] by simp
    finally show ?thesis .
  qed
qed

lemma takeWhile_digit_show:
  "rest = [] \<or> \<not> is_digit (hd rest) \<Longrightarrow> takeWhile is_digit (show_nat n @ rest) = show_nat n"
  using show_nat_digits [of _ n] by (cases rest) (auto simp: takeWhile_append2)

lemma dropWhile_digit_show:
  "rest = [] \<or> \<not> is_digit (hd rest) \<Longrightarrow> dropWhile is_digit (show_nat n @ rest) = rest"
  using show_nat_digits [of _ n] by (cases rest) (auto simp: dropWhile_append2)

section \<open>Overflow guards\<close>

lemma unat_UINT64_MAX [simp]: "unat UINT64_MAX = 2 ^ 64 - 1"
  by (simp add: UINT64_MAX_def)

lemma unat_le_UINT64_MAX: "unat (v :: u64) \<le> 2 ^ 64 - 1"
  using unsigned_less [of v, where 'a = nat] by simp

lemma u64_le_MAX [simp]: "v \<le> UINT64_MAX"
  by (simp add: word_le_nat_alt) (use unat_le_UINT64_MAX [of v] in simp)

text \<open>The guard of \<^verbatim>\<open>parse_u64\<close> in \<^verbatim>\<open>http_range.c\<close>.\<close>

lemma range_guard_exact:
  fixes v d :: u64
  assumes "unat d < 10"
  shows "(v > UINT64_MAX div 10 \<or> v = UINT64_MAX div 10 \<and> d > UINT64_MAX mod 10)
         \<longleftrightarrow> unat v * 10 + unat d \<ge> 2 ^ 64"
proof -
  have "unat (UINT64_MAX div 10) = 1844674407370955161" "unat (UINT64_MAX mod 10) = 5"
    by (simp_all add: UINT64_MAX_def)
  then have "v > UINT64_MAX div 10 \<longleftrightarrow> unat v > 1844674407370955161"
    "v = UINT64_MAX div 10 \<longleftrightarrow> unat v = 1844674407370955161"
    "d > UINT64_MAX mod 10 \<longleftrightarrow> unat d > 5"
    by (auto simp: word_less_nat_alt word_unat_eq_iff)
  then show ?thesis using assms by auto
qed

text \<open>The guard of \<^verbatim>\<open>h1_parse_u64_ows_decimal\<close> in \<^verbatim>\<open>http_parser.c\<close>.\<close>

lemma parser_guard_exact:
  fixes v d :: u64
  assumes "unat d < 10"
  shows "v > (UINT64_MAX - d) div 10 \<longleftrightarrow> unat v * 10 + unat d \<ge> 2 ^ 64"
proof -
  have "unat ((UINT64_MAX - d) div 10) = (2 ^ 64 - 1 - unat d) div 10"
    by (simp add: unat_div unat_sub)
  then have "v > (UINT64_MAX - d) div 10 \<longleftrightarrow> unat v > (2 ^ 64 - 1 - unat d) div 10"
    by (simp add: word_less_nat_alt)
  then show ?thesis using assms by auto
qed

lemma unat_accumulate:
  fixes v d :: u64
  assumes "unat v * 10 + unat d < 2 ^ 64"
  shows "unat (v * 10 + d) = unat v * 10 + unat d"
  using assms by (simp add: unat_word_ariths)

lemma unat_digit: "is_digit c \<Longrightarrow> unat (of_nat (digit_val c) :: u64) = digit_val c"
  using digit_val_less [of c] by (simp add: unat_of_nat)

end
