(* ===== verification/Http_Range.thy ===== *)
theory Http_Range
  imports Decimal
begin

text \<open>
  Byte ranges, \<^verbatim>\<open>src/src/http_range.c\<close>: parsing a single-range \<^verbatim>\<open>Range\<close> header, resolving it
  against a file size, and printing the \<^verbatim>\<open>Content-Range\<close> header. All quantities are 64-bit words.
\<close>

section \<open>The model\<close>

record byte_range =
  br_valid :: bool
  br_suffix :: bool
  br_first :: u64
  br_last :: u64

record resolved_range =
  rr_satisfiable :: bool
  rr_start :: u64
  rr_end :: u64
  rr_length :: u64

definition byte_range_zero :: byte_range where
  "byte_range_zero = \<lparr>br_valid = False, br_suffix = False, br_first = 0, br_last = 0\<rparr>"

definition resolved_range_zero :: resolved_range where
  "resolved_range_zero = \<lparr>rr_satisfiable = False, rr_start = 0, rr_end = 0, rr_length = 0\<rparr>"

text \<open>The digit loop: the value read and the bytes left, or \<open>None\<close> on overflow.\<close>

fun parse_u64_loop :: "string \<Rightarrow> u64 \<Rightarrow> (u64 \<times> string) option" where
  "parse_u64_loop [] val = Some (val, [])"
| "parse_u64_loop (c # cs) val =
     (if is_digit c then
        (let digit = of_nat (digit_val c)
         in if val > UINT64_MAX div 10 \<or> val = UINT64_MAX div 10 \<and> digit > UINT64_MAX mod 10
            then None
            else parse_u64_loop cs (val * 10 + digit))
      else Some (val, c # cs))"

definition parse_u64 :: "string \<Rightarrow> (u64 \<times> string) option" where
  "parse_u64 s =
     (case parse_u64_loop s 0 of
        None \<Rightarrow> None
      | Some (val, rest) \<Rightarrow> if length rest = length s then None else Some (val, rest))"

definition is_bytes_unit :: "string \<Rightarrow> bool" where
  "is_bytes_unit v \<longleftrightarrow>
     (v ! 0 = CHR ''b'' \<or> v ! 0 = CHR ''B'') \<and> (v ! 1 = CHR ''y'' \<or> v ! 1 = CHR ''Y'') \<and>
     (v ! 2 = CHR ''t'' \<or> v ! 2 = CHR ''T'') \<and> (v ! 3 = CHR ''e'' \<or> v ! 3 = CHR ''E'') \<and>
     (v ! 4 = CHR ''s'' \<or> v ! 4 = CHR ''S'') \<and> v ! 5 = CHR ''=''"

definition http_range_parse :: "string option \<Rightarrow> byte_range" where
  "http_range_parse value =
     (case value of
        None \<Rightarrow> byte_range_zero
      | Some v \<Rightarrow>
          if length v < 6 then byte_range_zero
          else if \<not> is_bytes_unit v then byte_range_zero
          else
            (let s = dropWhile is_ows (drop 6 v)
             in if s = [] then byte_range_zero
                else if CHR '','' \<in> set s then byte_range_zero
                else if hd s = CHR ''-'' then
                  (case parse_u64 (tl s) of
                     None \<Rightarrow> byte_range_zero
                   | Some (suffix_len, rest) \<Rightarrow>
                       if rest \<noteq> [] then byte_range_zero
                       else if suffix_len = 0 then byte_range_zero
                       else \<lparr>br_valid = True, br_suffix = True, br_first = suffix_len, br_last = 0\<rparr>)
                else
                  (case parse_u64 s of
                     None \<Rightarrow> byte_range_zero
                   | Some (first, rest) \<Rightarrow>
                       if rest = [] \<or> hd rest \<noteq> CHR ''-'' then byte_range_zero
                       else if tl rest = [] then
                         \<lparr>br_valid = True, br_suffix = False, br_first = first, br_last = UINT64_MAX\<rparr>
                       else
                         (case parse_u64 (tl rest) of
                            None \<Rightarrow> byte_range_zero
                          | Some (last', rest') \<Rightarrow>
                              if rest' \<noteq> [] then byte_range_zero
                              else if first > last' then byte_range_zero
                              else \<lparr>br_valid = True, br_suffix = False,
                                     br_first = first, br_last = last'\<rparr>))))"

definition http_range_resolve :: "byte_range option \<Rightarrow> u64 \<Rightarrow> resolved_range" where
  "http_range_resolve br file_size =
     (case br of
        None \<Rightarrow> resolved_range_zero
      | Some b \<Rightarrow>
          if \<not> br_valid b \<or> file_size = 0 then resolved_range_zero
          else if br_suffix b then
            (if br_first b \<ge> file_size then
               \<lparr>rr_satisfiable = True, rr_start = 0, rr_end = file_size - 1, rr_length = file_size\<rparr>
             else
               (let st = file_size - br_first b; en = file_size - 1
                in \<lparr>rr_satisfiable = True, rr_start = st, rr_end = en, rr_length = en - st + 1\<rparr>))
          else if br_first b \<ge> file_size then resolved_range_zero
          else
            (let st = br_first b;
                 en = (if br_last b = UINT64_MAX \<or> br_last b \<ge> file_size then file_size - 1 else br_last b)
             in \<lparr>rr_satisfiable = True, rr_start = st, rr_end = en, rr_length = en - st + 1\<rparr>))"

text \<open>
  \<^verbatim>\<open>snprintf\<close> into a buffer of \<open>cap > 0\<close> bytes: the number of bytes the full text has and the
  text actually stored. The formatters return that number, or 0 when the text did not fit.
\<close>

definition snprintf_text :: "nat \<Rightarrow> string \<Rightarrow> nat \<times> string" where
  "snprintf_text cap s = (length s, take (cap - 1) s)"

definition content_range_text :: "u64 \<Rightarrow> u64 \<Rightarrow> u64 \<Rightarrow> string" where
  "content_range_text st en tot =
     ''Content-Range: bytes '' @ show_nat (unat st) @ ''-'' @ show_nat (unat en) @ ''/''
       @ show_nat (unat tot) @ [CR, LF]"

definition http_range_format_content_range :: "nat \<Rightarrow> u64 \<Rightarrow> u64 \<Rightarrow> u64 \<Rightarrow> nat \<times> string" where
  "http_range_format_content_range cap st en tot =
     (if cap = 0 then (0, [])
      else
        (let (n, buf) = snprintf_text cap (content_range_text st en tot)
         in if n = 0 \<or> n \<ge> cap then (0, buf) else (n, buf)))"

definition http_range_format_content_range_unsatisfied :: "nat \<Rightarrow> u64 \<Rightarrow> nat \<times> string" where
  "http_range_format_content_range_unsatisfied cap tot =
     (if cap = 0 then (0, [])
      else
        (let (n, buf) = snprintf_text cap (''Content-Range: bytes */'' @ show_nat (unat tot) @ [CR, LF])
         in if n = 0 \<or> n \<ge> cap then (0, buf) else (n, buf)))"

section \<open>The digit loop is exact\<close>

lemma dec_value_Cons:
  "foldl (\<lambda>v c. v * 10 + digit_val c) (unat v * 10 + digit_val c) s =
   foldl (\<lambda>v c. v * 10 + digit_val c) (unat v) (c # s)"
  by simp

lemma foldl_dec_mono: "v \<le> foldl (\<lambda>v c. v * 10 + digit_val c) v s"
proof (induction s arbitrary: v)
  case Nil
  then show ?case by simp
next
  case (Cons c s)
  have "v \<le> v * 10 + digit_val c" by simp
  then show ?case using Cons [of "v * 10 + digit_val c"] by simp
qed

lemma parse_u64_loop_exact:
  "parse_u64_loop s v =
     (let n = foldl (\<lambda>v c. v * 10 + digit_val c) (unat v) (takeWhile is_digit s)
      in if n < 2 ^ 64 then Some (of_nat n, dropWhile is_digit s) else None)"
proof (induction s v rule: parse_u64_loop.induct)
  case (1 val)
  have "unat val < 2 ^ 64" using unat_le_UINT64_MAX [of val] by simp
  then show ?case by (simp add: Let_def)
next
  case (2 c cs val)
  show ?case
  proof (cases "is_digit c")
    case False
    have "unat val < 2 ^ 64" using unat_le_UINT64_MAX [of val] by simp
    then show ?thesis using False by (simp add: Let_def)
  next
    case True
    define d :: u64 where "d = of_nat (digit_val c)"
    have d: "unat d = digit_val c" "unat d < 10"
      using True digit_val_less by (auto simp: d_def unat_digit)
    let ?over = "val > UINT64_MAX div 10 \<or> val = UINT64_MAX div 10 \<and> d > UINT64_MAX mod 10"
    note exact = range_guard_exact [OF d(2), of val]
    show ?thesis
    proof (cases ?over)
      case over: True
      then have "2 ^ 64 \<le> unat val * 10 + digit_val c" using exact d by simp
      also have "\<dots> \<le> foldl (\<lambda>v c. v * 10 + digit_val c) (unat val * 10 + digit_val c) (takeWhile is_digit cs)"
        by (rule foldl_dec_mono)
      finally show ?thesis using True over by (simp add: d_def [symmetric] Let_def)
    next
      case False
      then have "unat (val * 10 + d) = unat val * 10 + digit_val c"
        using exact d by (subst unat_accumulate) auto
      then show ?thesis
        using 2 [OF True d_def False] True False by (auto simp: d_def [symmetric] Let_def)
    qed
  qed
qed

lemma parse_u64_exact:
  "parse_u64 s =
     (if takeWhile is_digit s \<noteq> [] \<and> dec_value (takeWhile is_digit s) < 2 ^ 64
      then Some (of_nat (dec_value (takeWhile is_digit s)), dropWhile is_digit s) else None)"
proof -
  have "length (dropWhile is_digit s) = length s \<longleftrightarrow> takeWhile is_digit s = []"
    using length_takeWhile_dropWhile [of is_digit s] by auto
  then show ?thesis
    by (auto simp: parse_u64_def parse_u64_loop_exact dec_value_def Let_def)
qed

lemma parse_u64_show:
  assumes "rest = [] \<or> \<not> is_digit (hd rest)"
  shows "parse_u64 (show_nat (unat v) @ rest) = Some (v, rest)"
  using assms unat_le_UINT64_MAX [of v]
  by (simp add: parse_u64_exact takeWhile_digit_show dropWhile_digit_show)

lemma parse_u64_show_Nil: "parse_u64 (show_nat (unat v)) = Some (v, [])"
  using parse_u64_show [of "[]" v] by simp

section \<open>Parsing inverts printing\<close>

lemma bytes_unit: "is_bytes_unit (''bytes='' @ s)"
  by (simp add: is_bytes_unit_def)

lemma show_nat_head:
  obtains c s where "show_nat n = c # s" "is_digit c"
  using show_nat_digits [of _ n] by (cases "show_nat n") (auto simp: show_nat_not_Nil)

lemma digit_not_special: "is_digit c \<Longrightarrow> c \<noteq> CHR ''-'' \<and> c \<noteq> CHR '','' \<and> \<not> is_ows c"
  by (auto simp: is_digit_def is_ows_def)

lemma comma_notin_show: "CHR '','' \<notin> set (show_nat n)"
  using show_nat_digits digit_not_special by blast

lemma dash_not_digit [simp]: "\<not> is_digit (CHR ''-'')"
  by (simp add: is_digit_def)

lemma dropWhile_ows_show: "dropWhile is_ows (show_nat n @ s) = show_nat n @ s"
  by (rule show_nat_head [of n]) (auto dest: digit_not_special)

lemma hd_show_not_dash: "hd (show_nat n @ s) \<noteq> CHR ''-''"
  by (rule show_nat_head [of n]) (auto dest: digit_not_special)

text \<open>
  C19: printing a range and parsing it back is the identity, for each of the three forms of a
  single range (closed, open-ended, suffix) and all 64-bit bounds.
\<close>

theorem http_range_parse_print:
  "(a \<le> b \<longrightarrow>
     http_range_parse (Some (''bytes='' @ show_nat (unat a) @ ''-'' @ show_nat (unat b))) =
       \<lparr>br_valid = True, br_suffix = False, br_first = a, br_last = b\<rparr>) \<and>
   http_range_parse (Some (''bytes='' @ show_nat (unat a) @ ''-'')) =
       \<lparr>br_valid = True, br_suffix = False, br_first = a, br_last = UINT64_MAX\<rparr> \<and>
   (a \<noteq> 0 \<longrightarrow>
     http_range_parse (Some (''bytes=-'' @ show_nat (unat a))) =
       \<lparr>br_valid = True, br_suffix = True, br_first = a, br_last = 0\<rparr>)"
proof (intro conjI impI)
  assume "a \<le> b"
  then show "http_range_parse (Some (''bytes='' @ show_nat (unat a) @ ''-'' @ show_nat (unat b))) =
       \<lparr>br_valid = True, br_suffix = False, br_first = a, br_last = b\<rparr>"
    using bytes_unit [of "show_nat (unat a) @ ''-'' @ show_nat (unat b)"]
      hd_show_not_dash [of "unat a" "''-'' @ show_nat (unat b)"]
    by (simp add: http_range_parse_def dropWhile_ows_show comma_notin_show parse_u64_show
        parse_u64_show_Nil Let_def not_less)
next
  show "http_range_parse (Some (''bytes='' @ show_nat (unat a) @ ''-'')) =
       \<lparr>br_valid = True, br_suffix = False, br_first = a, br_last = UINT64_MAX\<rparr>"
    using bytes_unit [of "show_nat (unat a) @ ''-''"] hd_show_not_dash [of "unat a" "''-''"]
    by (simp add: http_range_parse_def dropWhile_ows_show comma_notin_show parse_u64_show Let_def)
next
  assume "a \<noteq> 0"
  then show "http_range_parse (Some (''bytes=-'' @ show_nat (unat a))) =
       \<lparr>br_valid = True, br_suffix = True, br_first = a, br_last = 0\<rparr>"
    using bytes_unit [of "''-'' @ show_nat (unat a)"]
    by (simp add: http_range_parse_def is_ows_def comma_notin_show parse_u64_show_Nil Let_def)
qed

theorem http_range_parse_print_witness:
  "http_range_parse (Some ''bytes=5-99'') =
     \<lparr>br_valid = True, br_suffix = False, br_first = 5, br_last = 99\<rparr>"
proof -
  have "show_nat (unat (5 :: u64)) = ''5''" "show_nat (unat (99 :: u64)) = ''99''"
    by (simp_all add: show_nat.simps) code_simp+
  then show ?thesis using http_range_parse_print [of 5 99] by simp
qed

section \<open>Resolution\<close>

text \<open>The byte positions of a file of \<open>fsz\<close> bytes that a parsed range asks for.\<close>

definition requested_bytes :: "byte_range \<Rightarrow> nat \<Rightarrow> nat set" where
  "requested_bytes br fsz =
     (if br_suffix br then {i. i < fsz \<and> fsz \<le> i + unat (br_first br)}
      else {i. i < fsz \<and> unat (br_first br) \<le> i \<and> i \<le> unat (br_last br)})"

lemma http_range_parse_wf:
  assumes "br_valid (http_range_parse v)"
  shows "if br_suffix (http_range_parse v) then br_first (http_range_parse v) \<noteq> 0
         else br_first (http_range_parse v) \<le> br_last (http_range_parse v)"
  using assms
  by (auto simp: http_range_parse_def byte_range_zero_def Let_def not_less
      split: option.splits if_splits prod.splits)

lemma unat_pred: "(w :: u64) \<noteq> 0 \<Longrightarrow> unat (w - 1) = unat w - 1"
  by (simp add: unat_sub word_le_nat_alt word_unat_eq_iff)

lemma unat_span:
  fixes st en :: u64
  assumes "st \<le> en" "unat en < 2 ^ 64 - 1"
  shows "unat (en - st + 1) = unat en - unat st + 1"
  using assms by (simp add: unat_word_ariths unat_sub word_le_nat_alt)

lemma range_resolve_shape:
  fixes fsz :: u64 and br :: byte_range
  defines "rr \<equiv> http_range_resolve (Some br) fsz"
  assumes "br_valid br" "fsz \<noteq> 0" "rr_satisfiable rr"
    and wf: "if br_suffix br then br_first br \<noteq> 0 else br_first br \<le> br_last br"
  shows "unat (rr_start rr) \<le> unat (rr_end rr) \<and> unat (rr_end rr) < unat fsz \<and>
    unat (rr_length rr) = unat (rr_end rr) - unat (rr_start rr) + 1 \<and>
    {unat (rr_start rr)..unat (rr_end rr)} = requested_bytes br (unat fsz)"
proof -
  have S: "0 < unat fsz" "unat (fsz - 1) = unat fsz - 1"
    using assms(3) by (auto simp: unat_pred word_unat_eq_iff)
  have lt: "unat fsz \<le> 2 ^ 64 - 1" by (rule unat_le_UINT64_MAX)
  consider (all) "br_suffix br" "fsz \<le> br_first br"
    | (suffix) "br_suffix br" "br_first br < fsz"
    | (range) "\<not> br_suffix br" "br_first br < fsz"
    using assms(2-4) by (fastforce simp: rr_def http_range_resolve_def resolved_range_zero_def
        split: if_splits)
  then show ?thesis
  proof cases
    case all
    then show ?thesis using assms(2,3) S wf
      by (auto simp: rr_def http_range_resolve_def requested_bytes_def word_le_nat_alt)
  next
    case suffix
    let ?st = "fsz - br_first br"
    have st: "unat ?st = unat fsz - unat (br_first br)" "unat (br_first br) < unat fsz"
      "0 < unat (br_first br)"
      using suffix wf by (auto simp: unat_sub word_less_nat_alt word_le_nat_alt word_unat_eq_iff)
    have "unat (fsz - 1 - ?st + 1) = unat (fsz - 1) - unat ?st + 1"
      by (rule unat_span) (use st S lt in \<open>auto simp: word_le_nat_alt\<close>)
    then show ?thesis using assms(2,3) suffix S st
      by (auto simp: rr_def http_range_resolve_def requested_bytes_def Let_def not_le)
  next
    case range
    define en where "en = (if br_last br = UINT64_MAX \<or> br_last br \<ge> fsz then fsz - 1 else br_last br)"
    have F: "unat (br_first br) < unat fsz" "unat (br_first br) \<le> unat (br_last br)"
      using range wf by (auto simp: word_less_nat_alt word_le_nat_alt)
    have en: "unat en = (if unat (br_last br) \<ge> unat fsz then unat fsz - 1 else unat (br_last br))"
      using S lt by (auto simp: en_def word_le_nat_alt)
    have "unat (en - br_first br + 1) = unat en - unat (br_first br) + 1"
      by (rule unat_span) (use F S en lt in \<open>auto simp: word_le_nat_alt\<close>)
    moreover have "rr = \<lparr>rr_satisfiable = True, rr_start = br_first br, rr_end = en,
        rr_length = en - br_first br + 1\<rparr>"
      using assms(2,3) range by (simp add: rr_def http_range_resolve_def Let_def en_def not_le)
    ultimately show ?thesis using range F S en
      by (auto simp: requested_bytes_def)
  qed
qed

text \<open>
  C12: a range that was parsed and is resolved against a file size is satisfiable exactly when
  some requested byte exists; the resolved interval is then exactly the set of requested bytes
  of the file, and its length is their number (no 64-bit wrap-around).
\<close>

theorem http_range_resolve_exact:
  fixes fsz :: u64 and v :: "string option"
  defines "br \<equiv> http_range_parse v"
  defines "rr \<equiv> http_range_resolve (Some br) fsz"
  assumes "br_valid br"
  shows "(rr_satisfiable rr \<longleftrightarrow> requested_bytes br (unat fsz) \<noteq> {}) \<and>
    (rr_satisfiable rr \<longrightarrow>
       {unat (rr_start rr)..unat (rr_end rr)} = requested_bytes br (unat fsz) \<and>
       unat (rr_length rr) = card (requested_bytes br (unat fsz)))"
proof (cases "fsz = 0")
  case True
  then show ?thesis
    by (auto simp: rr_def http_range_resolve_def resolved_range_zero_def requested_bytes_def)
next
  case fsz: False
  then have S: "0 < unat fsz" "unat (fsz - 1) = unat fsz - 1"
    by (auto simp: unat_pred word_unat_eq_iff)
  have wf: "if br_suffix br then br_first br \<noteq> 0 else br_first br \<le> br_last br"
    using http_range_parse_wf assms(3) by (simp add: br_def)
  show ?thesis
  proof (cases "rr_satisfiable rr")
    case False
    then have "\<not> br_suffix br" "fsz \<le> br_first br"
      using assms(3) fsz
      by (auto simp: rr_def http_range_resolve_def Let_def split: if_splits)
    then show ?thesis using False
      by (auto simp: requested_bytes_def word_le_nat_alt)
  next
    case True
    have shape: "unat (rr_start rr) \<le> unat (rr_end rr) \<and> unat (rr_end rr) < unat fsz \<and>
        unat (rr_length rr) = unat (rr_end rr) - unat (rr_start rr) + 1 \<and>
        {unat (rr_start rr)..unat (rr_end rr)} = requested_bytes br (unat fsz)"
      using True assms(3) fsz wf S range_resolve_shape [of br fsz]
      by (simp add: rr_def)
    then have "card (requested_bytes br (unat fsz)) = unat (rr_length rr)"
      by (metis Suc_diff_le add.commute card_atLeastAtMost plus_1_eq_Suc)
    moreover have "requested_bytes br (unat fsz) \<noteq> {}" using shape by auto
    ultimately show ?thesis using True shape by simp
  qed
qed

theorem http_range_resolve_exact_witness:
  "br_valid (http_range_parse (Some ''bytes=5-99'')) \<and>
   {unat (rr_start (http_range_resolve (Some (http_range_parse (Some ''bytes=5-99''))) 10))..
    unat (rr_end (http_range_resolve (Some (http_range_parse (Some ''bytes=5-99''))) 10))} =
   requested_bytes (http_range_parse (Some ''bytes=5-99'')) 10"
proof -
  have v: "br_valid (http_range_parse (Some ''bytes=5-99''))" by code_simp
  have s: "rr_satisfiable (http_range_resolve (Some (http_range_parse (Some ''bytes=5-99''))) 10)"
    by code_simp
  from http_range_resolve_exact [OF v, of 10] v s show ?thesis by simp
qed

end
