(* ===== verification/Rx_Stash.thy ===== *)
theory Rx_Stash
  imports Prelude
begin

text \<open>
  Receive-side buffering: the header-terminator scan of \<^verbatim>\<open>src/src/http_boundary.c\<close>, and the tail
  window, the stash of early bytes and the block pool of \<^verbatim>\<open>src/src/rx_stash.c\<close>.
\<close>

section \<open>The model\<close>

definition RBUF_SZ :: nat where
  "RBUF_SZ = 256"

subsection \<open>Header terminator\<close>

text \<open>
  The four-byte sliding window of the scan; \<open>i\<close> is the index of the next byte. The result is
  the offset just after the terminator, \<open>None\<close> for -1.
\<close>

fun window_scan :: "char \<Rightarrow> char \<Rightarrow> char \<Rightarrow> char \<Rightarrow> nat \<Rightarrow> string \<Rightarrow> nat option" where
  "window_scan w0 w1 w2 w3 i [] = None"
| "window_scan w0 w1 w2 w3 i (c # cs) =
     (if i \<ge> 3 \<and> w1 = CR \<and> w2 = LF \<and> w3 = CR \<and> c = LF then Some (i + 1)
      else window_scan w1 w2 w3 c (i + 1) cs)"

definition ptr_bytes :: "string option \<Rightarrow> string" where
  "ptr_bytes p = (case p of None \<Rightarrow> [] | Some s \<Rightarrow> s)"

definition http_find_header_terminator_end :: "string option \<Rightarrow> string option \<Rightarrow> nat option" where
  "http_find_header_terminator_end prefix buf =
     (if ptr_bytes prefix = [] \<and> ptr_bytes buf = [] then None
      else if length (ptr_bytes prefix) + length (ptr_bytes buf) < 4 then None
      else window_scan NUL NUL NUL NUL 0 (ptr_bytes prefix @ ptr_bytes buf))"

subsection \<open>Block pool\<close>

text \<open>Blocks are numbered; \<open>malloc\<close> is the outcome of the allocation the function may perform.\<close>

record rx_pool =
  rx_stash_free_list :: "nat list"
  rx_stash_blocks_total :: nat
  rx_stash_blocks_inuse :: nat

fun rx_stash_pool_init :: "nat option list \<Rightarrow> rx_pool \<Rightarrow> rx_pool" where
  "rx_stash_pool_init [] p = p"
| "rx_stash_pool_init (None # ms) p = p"
| "rx_stash_pool_init (Some b # ms) p =
     rx_stash_pool_init ms
       (p\<lparr>rx_stash_free_list := b # rx_stash_free_list p,
          rx_stash_blocks_total := rx_stash_blocks_total p + 1\<rparr>)"

definition rx_stash_pool_destroy :: "rx_pool \<Rightarrow> rx_pool" where
  "rx_stash_pool_destroy p =
     p\<lparr>rx_stash_free_list := [], rx_stash_blocks_total := 0, rx_stash_blocks_inuse := 0\<rparr>"

definition rx_stash_alloc :: "nat option \<Rightarrow> rx_pool \<Rightarrow> nat option \<times> rx_pool" where
  "rx_stash_alloc malloc p =
     (case rx_stash_free_list p of
        b # bs \<Rightarrow>
          (Some b, p\<lparr>rx_stash_free_list := bs, rx_stash_blocks_inuse := rx_stash_blocks_inuse p + 1\<rparr>)
      | [] \<Rightarrow>
          (case malloc of
             None \<Rightarrow> (None, p)
           | Some b \<Rightarrow>
               (Some b, p\<lparr>rx_stash_blocks_total := rx_stash_blocks_total p + 1,
                          rx_stash_blocks_inuse := rx_stash_blocks_inuse p + 1\<rparr>)))"

definition rx_stash_free :: "nat option \<Rightarrow> rx_pool \<Rightarrow> rx_pool" where
  "rx_stash_free ptr p =
     (case ptr of
        None \<Rightarrow> p
      | Some b \<Rightarrow>
          p\<lparr>rx_stash_free_list := b # rx_stash_free_list p,
            rx_stash_blocks_inuse :=
              (if rx_stash_blocks_inuse p \<noteq> 0 then rx_stash_blocks_inuse p - 1
               else rx_stash_blocks_inuse p)\<rparr>)"

subsection \<open>Per-connection receive state\<close>

text \<open>
  \<open>rx_tail\<close> holds the \<open>rx_tail_len\<close> valid bytes of the three-byte window. \<open>rx_stash\<close> is the block
  the connection owns, with its \<open>RBUF_SZ\<close> bytes; the first \<open>rx_stash_len\<close> of them are valid.
\<close>

record rx_state =
  rx_tail :: string
  rx_stash_len :: nat
  rx_stash :: "(nat \<times> string) option"

text \<open>\<open>memmove\<close> within a block: the bytes from \<open>n\<close> up to \<open>len\<close> move to the front.\<close>

definition block_shift :: "string \<Rightarrow> nat \<Rightarrow> nat \<Rightarrow> string option" where
  "block_shift b n len = (if len \<le> length b then buf_copy b 0 (drop n (take len b)) else None)"

definition conn_rx_stash_consume :: "nat \<Rightarrow> rx_state \<times> rx_pool \<Rightarrow> (rx_state \<times> rx_pool) option" where
  "conn_rx_stash_consume n st =
     (let (c, p) = st
      in if n = 0 \<or> rx_stash_len c = 0 then Some (c, p)
         else if n \<ge> rx_stash_len c then
           (case rx_stash c of
              None \<Rightarrow> Some (c\<lparr>rx_stash_len := 0\<rparr>, p)
            | Some (b, _) \<Rightarrow>
                Some (c\<lparr>rx_stash_len := 0, rx_stash := None\<rparr>, rx_stash_free (Some b) p))
         else
           (case rx_stash c of
              None \<Rightarrow> Some (c, p)
            | Some (b, blk) \<Rightarrow> do {
                blk' \<leftarrow> block_shift blk n (rx_stash_len c);
                Some (c\<lparr>rx_stash := Some (b, blk'), rx_stash_len := u16_of (rx_stash_len c - n)\<rparr>, p)
              }))"

text \<open>The result is (return code is 0, new state); a fresh block has unspecified contents \<open>junk\<close>.\<close>

definition conn_rx_stash_append ::
    "nat option \<Rightarrow> string \<Rightarrow> string option \<Rightarrow> rx_state \<times> rx_pool \<Rightarrow> (bool \<times> rx_state \<times> rx_pool) option"
  where
  "conn_rx_stash_append malloc junk data st =
     (let (c, p) = st
      in case data of
           None \<Rightarrow> Some (True, c, p)
         | Some d \<Rightarrow>
             if d = [] then Some (True, c, p)
             else if rx_stash_len c + length d > RBUF_SZ then Some (False, c, p)
             else
               (case (case rx_stash c of
                        Some blk \<Rightarrow> (Some blk, p)
                      | None \<Rightarrow>
                          (case rx_stash_alloc malloc p of
                             (None, p') \<Rightarrow> (None, p')
                           | (Some b, p') \<Rightarrow> (Some (b, junk), p'))) of
                  (None, p') \<Rightarrow> Some (False, c, p')
                | (Some (b, blk), p') \<Rightarrow> do {
                    blk' \<leftarrow> buf_copy blk (rx_stash_len c) d;
                    Some (True, c\<lparr>rx_stash := Some (b, blk'),
                                  rx_stash_len := u16_of (rx_stash_len c + length d)\<rparr>, p')
                  }))"

definition conn_rx_tail_update_after_feed :: "rx_state \<Rightarrow> string \<Rightarrow> rx_state" where
  "conn_rx_tail_update_after_feed c fed =
     (let prev = rx_tail c;
          total = length prev + length fed;
          take' = (if total < 3 then total else 3)
      in c\<lparr>rx_tail :=
             map (\<lambda>i. let idx = total - take' + i
                      in if idx < length prev then prev ! idx else fed ! (idx - length prev))
               [0..<take']\<rparr>)"

text \<open>
  The split is compiled out for small receive buffers (\<open>RBUF_SZ <= 512\<close>), which is the case for
  the default of 256; \<open>rbuf_sz\<close> is that compile-time constant. The flag is
  \<open>headers_done || parse_error || header_too_big\<close>. The result is (feed_len, tail_len).
\<close>

definition conn_split_on_header_end ::
    "nat \<Rightarrow> bool \<Rightarrow> rx_state \<Rightarrow> string option \<Rightarrow> nat \<times> nat" where
  "conn_split_on_header_end rbuf_sz header_phase_over c buf =
     (let n = length (ptr_bytes buf)
      in if n = 0 then (n, 0)
         else if rbuf_sz \<le> 512 then (n, 0)
         else if header_phase_over then (n, 0)
         else
           (case http_find_header_terminator_end (Some (rx_tail c)) buf of
              None \<Rightarrow> (n, 0)
            | Some e \<Rightarrow>
                (let prefix_len = length (rx_tail c);
                     f = (if e > prefix_len then e - prefix_len else 0);
                     f' = (if f > n then n else f)
                 in (f', n - f'))))"

section \<open>The terminator scan finds the first terminator\<close>

definition term_at :: "string \<Rightarrow> nat \<Rightarrow> bool" where
  "term_at s e \<longleftrightarrow> 4 \<le> e \<and> e \<le> length s \<and>
     s ! (e - 4) = CR \<and> s ! (e - 3) = LF \<and> s ! (e - 2) = CR \<and> s ! (e - 1) = LF"

definition first_term :: "string \<Rightarrow> nat option" where
  "first_term s = (if \<exists>e. term_at s e then Some (LEAST e. term_at s e) else None)"

lemma first_term_Some_iff:
  "first_term s = Some e \<longleftrightarrow> term_at s e \<and> (\<forall>e'<e. \<not> term_at s e')"
proof
  assume "first_term s = Some e"
  then show "term_at s e \<and> (\<forall>e'<e. \<not> term_at s e')"
    by (auto simp: first_term_def split: if_splits intro: LeastI dest: not_less_Least)
next
  assume a: "term_at s e \<and> (\<forall>e'<e. \<not> term_at s e')"
  then have "(LEAST e. term_at s e) = e"
    by (intro Least_equality) (auto simp: not_less [symmetric])
  with a show "first_term s = Some e" by (auto simp: first_term_def)
qed

lemma first_term_None_iff: "first_term s = None \<longleftrightarrow> (\<forall>e. \<not> term_at s e)"
  by (auto simp: first_term_def)

lemma term_at_snoc:
  "term_at (pre @ c # cs) (Suc (length pre)) \<longleftrightarrow>
     3 \<le> length pre \<and> pre ! (length pre - 3) = CR \<and> pre ! (length pre - 2) = LF \<and>
     pre ! (length pre - 1) = CR \<and> c = LF"
  by (auto simp: term_at_def nth_append)

lemma window_scan_correct:
  assumes "length pre \<ge> 1 \<longrightarrow> w3 = pre ! (length pre - 1)"
    and "length pre \<ge> 2 \<longrightarrow> w2 = pre ! (length pre - 2)"
    and "length pre \<ge> 3 \<longrightarrow> w1 = pre ! (length pre - 3)"
    and "\<forall>e \<le> length pre. \<not> term_at (pre @ cs) e"
  shows "window_scan w0 w1 w2 w3 (length pre) cs = first_term (pre @ cs)"
  using assms
proof (induction cs arbitrary: pre w0 w1 w2 w3)
  case Nil
  then have "\<not> term_at pre e" for e by (auto simp: term_at_def)
  then show ?case by (simp add: first_term_def)
next
  case (Cons c cs)
  let ?hit = "length pre \<ge> 3 \<and> w1 = CR \<and> w2 = LF \<and> w3 = CR \<and> c = LF"
  have hit: "?hit \<longleftrightarrow> term_at (pre @ c # cs) (Suc (length pre))"
    using Cons.prems(1-3) by (auto simp: term_at_snoc)
  show ?case
  proof (cases ?hit)
    case True
    then have "first_term (pre @ c # cs) = Some (Suc (length pre))"
      using hit Cons.prems(4) by (auto simp: first_term_Some_iff less_Suc_eq_le)
    then show ?thesis using True by simp
  next
    case False
    have "window_scan w1 w2 w3 c (length (pre @ [c])) cs = first_term ((pre @ [c]) @ cs)"
    proof (rule Cons.IH)
      show "\<forall>e\<le>length (pre @ [c]). \<not> term_at ((pre @ [c]) @ cs) e"
        using False hit Cons.prems(4) by (auto simp: le_Suc_eq)
    qed (use Cons.prems(1-3) in \<open>auto simp: nth_append\<close>)
    then show ?thesis using False by auto
  qed
qed

lemma window_scan_start: "window_scan NUL NUL NUL NUL 0 s = first_term s"
  using window_scan_correct [of "[]" NUL NUL NUL s] by (simp add: term_at_def)

lemma find_terminator_first:
  "http_find_header_terminator_end prefix buf = first_term (ptr_bytes prefix @ ptr_bytes buf)"
proof -
  have "first_term s = None" if "length s < 4" for s
    using that by (auto simp: first_term_None_iff term_at_def)
  then show ?thesis
    by (auto simp: http_find_header_terminator_end_def window_scan_start)
qed

section \<open>The tail window\<close>

definition last3 :: "string \<Rightarrow> string" where
  "last3 s = drop (length s - 3) s"

lemma rx_tail_update:
  "rx_tail (conn_rx_tail_update_after_feed c fed) = last3 (rx_tail c @ fed)"
proof -
  define w where "w = rx_tail c @ fed"
  define t where "t = (if length w < 3 then length w else 3)"
  have "rx_tail (conn_rx_tail_update_after_feed c fed) = map (\<lambda>i. w ! (length w - t + i)) [0..<t]"
    by (simp add: conn_rx_tail_update_after_feed_def w_def t_def Let_def nth_append)
  also have "\<dots> = last3 w"
    by (rule nth_equalityI) (auto simp: last3_def t_def)
  finally show ?thesis by (simp add: w_def)
qed

lemma last3_append_long: "length t = 3 \<Longrightarrow> last3 (a @ t @ g) = last3 (t @ g)"
  by (simp add: last3_def)

lemma last3_append: "last3 (last3 f @ g) = last3 (f @ g)"
proof (cases "length f \<ge> 3")
  case True
  then have "length (last3 f) = 3" by (simp add: last3_def)
  from last3_append_long [OF this, of "take (length f - 3) f" g] show ?thesis
    by (simp add: last3_def [of f] flip: append_assoc)
next
  case False
  then have "last3 f = f" by (simp add: last3_def)
  then show ?thesis by simp
qed

lemma rx_tail_after_feeds:
  "rx_tail (foldl conn_rx_tail_update_after_feed c chunks) = last3 (rx_tail c @ concat chunks)"
  if "length (rx_tail c) \<le> 3"
  using that
proof (induction chunks arbitrary: c)
  case Nil
  then show ?case by (simp add: last3_def)
next
  case (Cons d ds)
  have "length (rx_tail (conn_rx_tail_update_after_feed c d)) \<le> 3"
    by (simp add: rx_tail_update last3_def)
  from Cons.IH [OF this] show ?case
    using last3_append [of "rx_tail c @ d" "concat ds"] by (simp add: rx_tail_update)
qed

lemma term_at_shift:
  "length (last3 f) < e \<Longrightarrow> 4 \<le> e \<Longrightarrow>
   term_at (last3 f @ g) e \<longleftrightarrow> term_at (f @ g) (e + (length f - length (last3 f)))"
proof -
  assume e: "length (last3 f) < e" "4 \<le> e"
  define k where "k = length f - length (last3 f)"
  have "k = length f - 3" by (simp add: k_def last3_def)
  then have f: "f @ g = take k f @ (last3 f @ g)" and k: "length (take k f) = k"
    by (simp_all add: last3_def)
  have "(f @ g) ! (e + k - j) = (last3 f @ g) ! (e - j)" if "j \<le> 4" for j
  proof -
    have "e + k - j = k + (e - j)" using that e by simp
    then show ?thesis by (subst f) (metis k nth_append_length_plus)
  qed
  moreover have "length (f @ g) = k + length (last3 f @ g)"
    by (subst f) (simp only: length_append k)
  ultimately show ?thesis using e by (auto simp: term_at_def k_def [symmetric])
qed

lemma first_term_shift:
  assumes none: "first_term f = None"
  shows "first_term (last3 f @ g) =
    map_option (\<lambda>e. e - (length f - length (last3 f))) (first_term (f @ g))"
proof -
  define k where "k = length f - length (last3 f)"
  have l3: "length (last3 f) \<le> 3" by (simp add: last3_def)
  have past: "length f < e" if "term_at (f @ g) e" for e
  proof (rule ccontr)
    assume "\<not> length f < e"
    then have "term_at f e" using that by (auto simp: term_at_def nth_append split: if_splits)
    then show False using none by (simp add: first_term_None_iff)
  qed
  have iff: "term_at (last3 f @ g) e \<longleftrightarrow> term_at (f @ g) (e + k) \<and> 4 \<le> e" for e
    using term_at_shift [of f e g] l3 by (cases "4 \<le> e") (auto simp: k_def term_at_def)
  have big: "4 \<le> e - k \<and> k \<le> e" if "term_at (f @ g) e" for e
    using past [OF that] that l3 by (auto simp: k_def last3_def term_at_def)
  show ?thesis
  proof (cases "first_term (f @ g)")
    case None
    then have "first_term (last3 f @ g) = None" by (simp add: first_term_None_iff iff)
    then show ?thesis using None by simp
  next
    case (Some e)
    then have e: "term_at (f @ g) e" "\<forall>e'<e. \<not> term_at (f @ g) e'"
      by (simp_all add: first_term_Some_iff)
    then have "first_term (last3 f @ g) = Some (e - k)"
      using big [OF e(1)] by (auto simp: first_term_Some_iff iff)
    then show ?thesis using Some by (simp add: k_def)
  qed
qed

text \<open>
  C20: the end of a header block is found independently of how the bytes were split into
  receives. If the chunks fed so far contain no terminator, scanning the three-byte tail window
  together with the next chunk reports exactly the first terminator of the whole stream, at its
  offset relative to the tail.
\<close>

theorem terminator_scan_chunk_independent:
  assumes "rx_tail c = []"
    and "http_find_header_terminator_end None (Some (concat chunks)) = None"
  defines "c' \<equiv> foldl conn_rx_tail_update_after_feed c chunks"
  shows "http_find_header_terminator_end (Some (rx_tail c')) (Some buf) =
    map_option (\<lambda>e. e - (length (concat chunks) - length (rx_tail c')))
      (http_find_header_terminator_end None (Some (concat chunks @ buf)))"
proof -
  have "rx_tail c' = last3 (concat chunks)"
    using rx_tail_after_feeds [of c chunks] assms(1) by (simp add: c'_def)
  then show ?thesis
    using first_term_shift [of "concat chunks" buf] assms(2)
    by (simp add: find_terminator_first ptr_bytes_def)
qed

theorem terminator_scan_chunk_independent_witness:
  "http_find_header_terminator_end
     (Some (rx_tail (foldl conn_rx_tail_update_after_feed
        \<lparr>rx_tail = [], rx_stash_len = 0, rx_stash = None\<rparr> [''GET'', ''a'' @ [CR, LF]])))
     (Some ([CR, LF] @ ''x'')) = Some 5"
proof -
  have "http_find_header_terminator_end None (Some (concat [''GET'', ''a'' @ [CR, LF]])) = None"
    by code_simp
  note inst = terminator_scan_chunk_independent
    [of "\<lparr>rx_tail = [], rx_stash_len = 0, rx_stash = None\<rparr>", OF _ this, of "[CR, LF] @ ''x''"]
  have "http_find_header_terminator_end None
      (Some (concat [''GET'', ''a'' @ [CR, LF]] @ [CR, LF] @ ''x'')) = Some 8"
    by code_simp
  moreover have "length (rx_tail (foldl conn_rx_tail_update_after_feed
        \<lparr>rx_tail = [], rx_stash_len = 0, rx_stash = None\<rparr> [''GET'', ''a'' @ [CR, LF]])) = 3"
    by code_simp
  ultimately show ?thesis using inst by simp
qed

section \<open>The stash as a byte queue\<close>

text \<open>
  The interface the receive path relies on: appending puts bytes at the end, consuming removes
  them from the front. A run of such operations is judged by the bytes that went in and out.
\<close>

datatype fifo_op = Append string | Consume nat

fun fifo_run ::
    "('s \<Rightarrow> string) \<Rightarrow> (string \<Rightarrow> 's \<Rightarrow> bool \<times> 's) \<Rightarrow> (nat \<Rightarrow> 's \<Rightarrow> 's) \<Rightarrow> fifo_op list \<Rightarrow> 's
     \<Rightarrow> 's \<times> string \<times> string" where
  "fifo_run content push pop [] s = (s, [], [])"
| "fifo_run content push pop (Append d # ops) s =
     (let (ok, s1) = push d s; (s2, accepted, taken) = fifo_run content push pop ops s1
      in (s2, (if ok then d else []) @ accepted, taken))"
| "fifo_run content push pop (Consume n # ops) s =
     (let (s2, accepted, taken) = fifo_run content push pop ops (pop n s)
      in (s2, accepted, take n (content s) @ taken))"

locale byte_fifo =
  fixes content :: "'s \<Rightarrow> string"
    and push :: "string \<Rightarrow> 's \<Rightarrow> bool \<times> 's"
    and pop :: "nat \<Rightarrow> 's \<Rightarrow> 's"
    and inv :: "'s \<Rightarrow> bool"
    and cap :: nat
  assumes push_content:
      "inv s \<Longrightarrow> push d s = (ok, s') \<Longrightarrow> content s' = (if ok then content s @ d else content s)"
    and push_inv: "inv s \<Longrightarrow> push d s = (ok, s') \<Longrightarrow> inv s'"
    and pop_content: "inv s \<Longrightarrow> content (pop n s) = drop n (content s)"
    and pop_inv: "inv s \<Longrightarrow> inv (pop n s)"
    and content_bound: "inv s \<Longrightarrow> length (content s) \<le> cap"
begin

lemma run_inv: "inv s \<Longrightarrow> fifo_run content push pop ops s = (s', accepted, taken) \<Longrightarrow> inv s'"
proof (induction ops arbitrary: s s' accepted taken)
  case Nil
  then show ?case by simp
next
  case (Cons op ops)
  show ?case
  proof (cases op)
    case (Append d)
    then show ?thesis using Cons push_inv [OF Cons.prems(1)]
      by (fastforce simp: Let_def split: prod.splits)
  next
    case (Consume n)
    then show ?thesis using Cons pop_inv [OF Cons.prems(1)]
      by (fastforce simp: Let_def split: prod.splits)
  qed
qed

lemma run_conserves:
  "inv s \<Longrightarrow> fifo_run content push pop ops s = (s', accepted, taken) \<Longrightarrow>
   content s @ accepted = taken @ content s'"
proof (induction ops arbitrary: s s' accepted taken)
  case Nil
  then show ?case by simp
next
  case (Cons op ops)
  show ?case
  proof (cases op)
    case (Append d)
    obtain ok s1 where push: "push d s = (ok, s1)" by (cases "push d s")
    obtain s2 a t where run: "fifo_run content push pop ops s1 = (s2, a, t)"
      by (cases "fifo_run content push pop ops s1")
    have "content s1 @ a = t @ content s2"
      using Cons.IH [OF push_inv [OF Cons.prems(1) push] run] .
    then show ?thesis
      using Cons.prems(2) Append push run push_content [OF Cons.prems(1) push]
      by (auto split: if_splits)
  next
    case (Consume n)
    obtain s2 a t where run: "fifo_run content push pop ops (pop n s) = (s2, a, t)"
      by (cases "fifo_run content push pop ops (pop n s)")
    have "drop n (content s) @ a = t @ content s2"
      using Cons.IH [OF pop_inv [OF Cons.prems(1)] run] pop_content [OF Cons.prems(1)] by simp
    then have "take n (content s) @ drop n (content s) @ a = take n (content s) @ t @ content s2"
      by simp
    then show ?thesis
      using Cons.prems(2) Consume run by (auto simp flip: append_assoc)
  qed
qed

end

text \<open>The stash provides this interface. Its invariant ties the length to the block and the pool.\<close>

definition stash_bytes :: "rx_state \<times> rx_pool \<Rightarrow> string" where
  "stash_bytes st =
     (case rx_stash (fst st) of None \<Rightarrow> [] | Some (b, blk) \<Rightarrow> take (rx_stash_len (fst st)) blk)"

definition stash_inv :: "rx_state \<times> rx_pool \<Rightarrow> bool" where
  "stash_inv st \<longleftrightarrow>
     rx_stash_len (fst st) \<le> RBUF_SZ \<and>
     (case rx_stash (fst st) of
        None \<Rightarrow> rx_stash_len (fst st) = 0
      | Some (b, blk) \<Rightarrow> length blk = RBUF_SZ \<and> 0 < rx_stash_blocks_inuse (snd st)) \<and>
     rx_stash_blocks_total (snd st) =
       rx_stash_blocks_inuse (snd st) + length (rx_stash_free_list (snd st))"

lemma rx_stash_alloc_accounting:
  "rx_stash_alloc m p = (r, p') \<Longrightarrow>
   rx_stash_blocks_total p = rx_stash_blocks_inuse p + length (rx_stash_free_list p) \<Longrightarrow>
   rx_stash_blocks_total p' = rx_stash_blocks_inuse p' + length (rx_stash_free_list p') \<and>
   (r \<noteq> None \<longrightarrow> 0 < rx_stash_blocks_inuse p')"
  by (auto simp: rx_stash_alloc_def split: list.splits option.splits)

lemma conn_rx_stash_append_ok:
  assumes "stash_inv st" "length junk = RBUF_SZ"
  shows "\<exists>ok st'. conn_rx_stash_append m junk (Some d) st = Some (ok, st') \<and> stash_inv st' \<and>
           stash_bytes st' = (if ok then stash_bytes st @ d else stash_bytes st)"
proof -
  obtain c p where st: "st = (c, p)" by (cases st)
  consider (early) "d = [] \<or> rx_stash_len c + length d > RBUF_SZ"
    | (have_block) b blk where "d \<noteq> []" "rx_stash_len c + length d \<le> RBUF_SZ" "rx_stash c = Some (b, blk)"
    | (need_block) "d \<noteq> []" "rx_stash_len c + length d \<le> RBUF_SZ" "rx_stash c = None"
    by (cases "rx_stash c") force+
  then show ?thesis
  proof cases
    case early
    then show ?thesis using assms st by (auto simp: conn_rx_stash_append_def)
  next
    case have_block
    have "rx_stash_len c + length d < 65536" using have_block(2) by (simp add: RBUF_SZ_def)
    then show ?thesis using assms st have_block
      by (auto simp: conn_rx_stash_append_def stash_inv_def stash_bytes_def buf_simps Let_def)
  next
    case need_block
    have small: "length d < 65536" using need_block(2) by (simp add: RBUF_SZ_def)
    obtain r p' where al: "rx_stash_alloc m p = (r, p')" by (cases "rx_stash_alloc m p")
    have acc: "rx_stash_blocks_total p' = rx_stash_blocks_inuse p' + length (rx_stash_free_list p')"
      "r \<noteq> None \<longrightarrow> 0 < rx_stash_blocks_inuse p'"
      using rx_stash_alloc_accounting [OF al] assms(1) st by (auto simp: stash_inv_def)
    show ?thesis using assms st need_block al acc small
      by (cases r) (auto simp: conn_rx_stash_append_def stash_inv_def stash_bytes_def buf_simps Let_def)
  qed
qed

lemma conn_rx_stash_consume_ok:
  assumes "stash_inv st"
  shows "\<exists>st'. conn_rx_stash_consume n st = Some st' \<and> stash_inv st' \<and>
           stash_bytes st' = drop n (stash_bytes st)"
proof -
  obtain c p where st: "st = (c, p)" by (cases st)
  have le: "rx_stash_len c - n < 65536" using assms st by (auto simp: stash_inv_def RBUF_SZ_def)
  consider (nop) "n = 0 \<or> rx_stash_len c = 0" | (all) "n \<noteq> 0" "0 < rx_stash_len c" "n \<ge> rx_stash_len c"
    | (part) "n \<noteq> 0" "n < rx_stash_len c"
    by force
  then show ?thesis
  proof cases
    case nop
    then show ?thesis using assms st
      by (auto simp: conn_rx_stash_consume_def stash_inv_def stash_bytes_def split: option.splits)
  next
    case all
    then show ?thesis using assms st
      by (auto simp: conn_rx_stash_consume_def stash_inv_def stash_bytes_def rx_stash_free_def
          split: option.splits)
  next
    case part
    obtain b blk where blk: "rx_stash c = Some (b, blk)" "length blk = RBUF_SZ"
      using assms st part by (auto simp: stash_inv_def split: option.splits)
    let ?t = "drop n (take (rx_stash_len c) blk)"
    have len: "rx_stash_len c \<le> length blk" using assms st blk by (simp add: stash_inv_def)
    then have "length ?t = rx_stash_len c - n" by simp
    then have sh: "block_shift blk n (rx_stash_len c) = Some (?t @ drop (rx_stash_len c - n) blk)"
      using len by (simp add: block_shift_def buf_simps)
    show ?thesis using assms st part blk sh le len
      by (auto simp: conn_rx_stash_consume_def stash_inv_def stash_bytes_def)
  qed
qed

definition stash_push :: "nat option \<Rightarrow> string \<Rightarrow> string \<Rightarrow> rx_state \<times> rx_pool \<Rightarrow> bool \<times> rx_state \<times> rx_pool"
  where "stash_push m junk d st = the (conn_rx_stash_append m junk (Some d) st)"

definition stash_pop :: "nat \<Rightarrow> rx_state \<times> rx_pool \<Rightarrow> rx_state \<times> rx_pool" where
  "stash_pop n st = the (conn_rx_stash_consume n st)"

definition fresh_block :: string where
  "fresh_block = replicate RBUF_SZ NUL"

interpretation stash: byte_fifo stash_bytes "stash_push m fresh_block" stash_pop stash_inv RBUF_SZ
  for m
proof unfold_locales
  fix s d ok s'
  assume "stash_inv s" and p: "stash_push m fresh_block d s = (ok, s')"
  then obtain ok1 s1 where "conn_rx_stash_append m fresh_block (Some d) s = Some (ok1, s1)"
    "stash_inv s1" "stash_bytes s1 = (if ok1 then stash_bytes s @ d else stash_bytes s)"
    using conn_rx_stash_append_ok [of s fresh_block m d] by (auto simp: fresh_block_def)
  with p show "stash_bytes s' = (if ok then stash_bytes s @ d else stash_bytes s)" "stash_inv s'"
    by (auto simp: stash_push_def)
next
  fix s n
  assume "stash_inv s"
  then show "stash_bytes (stash_pop n s) = drop n (stash_bytes s)" "stash_inv (stash_pop n s)"
    using conn_rx_stash_consume_ok [of s n] by (auto simp: stash_pop_def)
next
  fix s
  assume "stash_inv s"
  then show "length (stash_bytes s) \<le> RBUF_SZ"
    by (auto simp: stash_inv_def stash_bytes_def split: option.splits)
qed

text \<open>
  C14: the stash is a byte queue. In every run of appends and consumes that starts from a
  well-formed state, whatever \<^verbatim>\<open>malloc\<close> returns, the bytes already stashed followed by the bytes
  accepted are exactly the bytes taken followed by the bytes still stashed; the stash never
  holds more than one receive buffer, and the pool's counters always add up.
\<close>

theorem stash_run_conserves:
  assumes "stash_inv s"
    and "fifo_run stash_bytes (stash_push m fresh_block) stash_pop ops s = (s', accepted, taken)"
  shows "stash_bytes s @ accepted = taken @ stash_bytes s' \<and>
    length (stash_bytes s') \<le> RBUF_SZ \<and> stash_inv s'"
  using stash.run_conserves [OF assms] stash.run_inv [OF assms] stash.content_bound by blast

theorem stash_run_conserves_witness:
  "\<exists>s' accepted taken.
     fifo_run stash_bytes (stash_push (Some 7) fresh_block) stash_pop
       [Append ''GET '', Consume 3, Append ''/'']
       (\<lparr>rx_tail = [], rx_stash_len = 0, rx_stash = None\<rparr>,
        \<lparr>rx_stash_free_list = [], rx_stash_blocks_total = 0, rx_stash_blocks_inuse = 0\<rparr>)
       = (s', accepted, taken) \<and> accepted = taken @ stash_bytes s'"
proof -
  let ?s = "(\<lparr>rx_tail = [], rx_stash_len = 0, rx_stash = None\<rparr>,
        \<lparr>rx_stash_free_list = [], rx_stash_blocks_total = 0, rx_stash_blocks_inuse = 0\<rparr>)"
  let ?ops = "[Append ''GET '', Consume 3, Append ''/'']"
  have inv: "stash_inv ?s" by (simp add: stash_inv_def)
  have "stash_bytes ?s = []" by (simp add: stash_bytes_def)
  then show ?thesis
    using stash_run_conserves [OF inv, of "Some 7" ?ops]
    by (cases "fifo_run stash_bytes (stash_push (Some 7) fresh_block) stash_pop ?ops ?s") auto
qed

end
