(* ===== verification/Conn_Store.thy ===== *)
theory Conn_Store
  imports Prelude
begin

unbundle bit_operations_syntax

text \<open>
  The per-thread map from file descriptors to connections, \<^verbatim>\<open>src/src/conn_store.c\<close>: an
  open-addressing hash table with linear probing and tombstones. Keys are \<open>int\<close>; the two
  negative markers are \<open>FM_EMPTY\<close> and \<open>FM_TOMB\<close>. Connection pointers are the type \<open>'v\<close>, \<open>NULL\<close>
  slots are \<open>None\<close>.

  A probe loop that meets neither its key nor an empty slot runs forever in C once it has passed
  every slot; the loops carry the number of slots as fuel, and \<open>None\<close> as a result means either an
  access out of bounds or such a non-terminating loop.
\<close>

section \<open>The model\<close>

definition FM_EMPTY :: int where
  "FM_EMPTY = - 1"

definition FM_TOMB :: int where
  "FM_TOMB = - 2"

record 'v fd_store =
  fd_keys :: "int list"
  fd_vals :: "'v option list"
  fd_cap :: nat
  fd_size :: nat
  fd_tombs :: nat

definition fm_mask :: "'v fd_store \<Rightarrow> nat" where
  "fm_mask s = fd_cap s - 1"

text \<open>The cast \<open>(size_t)fd\<close>.\<close>

definition size_of_fd :: "int \<Rightarrow> nat" where
  "size_of_fd fd = nat (fd mod 2 ^ 64)"

text \<open>Doubling from 256 until the hint is reached; the fuel bounds the number of doublings.\<close>

fun grow_cap :: "nat \<Rightarrow> nat \<Rightarrow> nat \<Rightarrow> nat option" where
  "grow_cap 0 hint cap = (if cap < hint then None else Some cap)"
| "grow_cap (Suc fuel) hint cap = (if cap < hint then grow_cap fuel hint (cap * 2) else Some cap)"

definition fresh_store :: "nat \<Rightarrow> 'v fd_store" where
  "fresh_store cap =
     \<lparr>fd_keys = replicate cap FM_EMPTY, fd_vals = replicate cap None,
      fd_cap = cap, fd_size = 0, fd_tombs = 0\<rparr>"

text \<open>
  \<open>alloc_ok\<close> says whether both allocations succeed. The boolean result is "return code 0".
\<close>

definition conn_store_init :: "bool \<Rightarrow> nat \<Rightarrow> 'v fd_store \<Rightarrow> (bool \<times> 'v fd_store) option" where
  "conn_store_init alloc_ok cap_hint s = do {
     cap \<leftarrow> grow_cap 64 cap_hint 256;
     Some (if alloc_ok then (True, fresh_store cap) else (False, s))
   }"

definition conn_store_free :: "'v fd_store \<Rightarrow> 'v fd_store" where
  "conn_store_free s =
     s\<lparr>fd_keys := [], fd_vals := [], fd_cap := 0, fd_size := 0, fd_tombs := 0\<rparr>"

text \<open>The probe loop of a rehash: the first slot at or after \<open>j\<close> whose key is negative.\<close>

fun resize_probe :: "nat \<Rightarrow> int list \<Rightarrow> nat \<Rightarrow> nat \<Rightarrow> nat option" where
  "resize_probe 0 keys msk j = None"
| "resize_probe (Suc fuel) keys msk j = do {
     k \<leftarrow> buf_get keys j;
     if k \<ge> 0 then resize_probe fuel keys msk ((j + 1) AND msk) else Some j
   }"

fun resize_loop :: "(int \<times> 'v option) list \<Rightarrow> 'v fd_store \<Rightarrow> 'v fd_store option" where
  "resize_loop [] s = Some s"
| "resize_loop ((k, v) # kvs) s =
     (if k \<ge> 0 then do {
        let msk = fd_cap s - 1;
        j \<leftarrow> resize_probe (fd_cap s) (fd_keys s) msk (size_of_fd k AND msk);
        resize_loop kvs
          (s\<lparr>fd_keys := (fd_keys s)[j := k], fd_vals := (fd_vals s)[j := v],
             fd_size := fd_size s + 1\<rparr>)
      }
      else resize_loop kvs s)"

definition fm_resize :: "bool \<Rightarrow> nat \<Rightarrow> 'v fd_store \<Rightarrow> (bool \<times> 'v fd_store) option" where
  "fm_resize alloc_ok new_cap s =
     (if \<not> alloc_ok then Some (False, s)
      else do {
        s' \<leftarrow> resize_loop (zip (fd_keys s) (fd_vals s)) (fresh_store new_cap);
        Some (True, s')
      })"

fun get_loop :: "nat \<Rightarrow> 'v fd_store \<Rightarrow> int \<Rightarrow> nat \<Rightarrow> nat \<Rightarrow> 'v option option" where
  "get_loop 0 s fd start i = None"
| "get_loop (Suc fuel) s fd start i = do {
     k \<leftarrow> buf_get (fd_keys s) i;
     if k = FM_EMPTY then Some None
     else if k = fd then buf_get (fd_vals s) i
     else
       (let i' = (i + 1) AND fm_mask s
        in if i' = start then Some None else get_loop fuel s fd start i')
   }"

definition conn_store_get :: "int \<Rightarrow> 'v fd_store \<Rightarrow> 'v option option" where
  "conn_store_get fd s =
     (if fd_cap s = 0 then Some None
      else
        (let i = size_of_fd fd AND fm_mask s
         in get_loop (fd_cap s) s fd i i))"

fun put_loop ::
    "nat \<Rightarrow> 'v fd_store \<Rightarrow> int \<Rightarrow> 'v \<Rightarrow> nat option \<Rightarrow> nat \<Rightarrow> 'v fd_store option" where
  "put_loop 0 s fd c tomb_idx i = None"
| "put_loop (Suc fuel) s fd c tomb_idx i = do {
     k \<leftarrow> buf_get (fd_keys s) i;
     if k = FM_EMPTY then
       (let ins = (case tomb_idx of Some t \<Rightarrow> t | None \<Rightarrow> i)
        in Some (s\<lparr>fd_tombs :=
                     (if tomb_idx \<noteq> None \<and> fd_tombs s \<noteq> 0 then fd_tombs s - 1 else fd_tombs s),
                   fd_keys := (fd_keys s)[ins := fd], fd_vals := (fd_vals s)[ins := Some c],
                   fd_size := fd_size s + 1\<rparr>))
     else if k = FM_TOMB then
       put_loop fuel s fd c (if tomb_idx = None then Some i else tomb_idx) ((i + 1) AND fm_mask s)
     else if k = fd then Some (s\<lparr>fd_vals := (fd_vals s)[i := Some c]\<rparr>)
     else put_loop fuel s fd c tomb_idx ((i + 1) AND fm_mask s)
   }"

definition needs_resize :: "'v fd_store \<Rightarrow> bool" where
  "needs_resize s \<longleftrightarrow>
     (fd_size s + 1) * 10 > fd_cap s * 7 \<or> fd_tombs s * 2 > fd_cap s \<or>
     fd_size s + fd_tombs s + 1 \<ge> fd_cap s"

definition conn_store_put :: "bool \<Rightarrow> int \<Rightarrow> 'v \<Rightarrow> 'v fd_store \<Rightarrow> (bool \<times> 'v fd_store) option" where
  "conn_store_put alloc_ok fd c s =
     (if fd_cap s = 0 then Some (False, s)
      else do {
        (ok, s1) \<leftarrow>
          (if needs_resize s then fm_resize alloc_ok (fd_cap s * 2) s else Some (True, s));
        if \<not> ok then Some (False, s1)
        else do {
          s2 \<leftarrow> put_loop (fd_cap s1) s1 fd c None (size_of_fd fd AND fm_mask s1);
          Some (True, s2)
        }
      })"

fun del_loop :: "nat \<Rightarrow> 'v fd_store \<Rightarrow> int \<Rightarrow> nat \<Rightarrow> 'v fd_store option" where
  "del_loop 0 s fd i = None"
| "del_loop (Suc fuel) s fd i = do {
     k \<leftarrow> buf_get (fd_keys s) i;
     if k = FM_EMPTY then Some s
     else if k = fd then
       Some (s\<lparr>fd_keys := (fd_keys s)[i := FM_TOMB], fd_vals := (fd_vals s)[i := None],
               fd_size := fd_size s - 1, fd_tombs := fd_tombs s + 1\<rparr>)
     else del_loop fuel s fd ((i + 1) AND fm_mask s)
   }"

definition conn_store_del :: "int \<Rightarrow> 'v fd_store \<Rightarrow> 'v fd_store option" where
  "conn_store_del fd s =
     (if fd_cap s = 0 then Some s
      else del_loop (fd_cap s) s fd (size_of_fd fd AND fm_mask s))"

section \<open>Probing\<close>

lemma and_mask_mod: "x AND (2 ^ k - 1) = x mod 2 ^ k" for x :: nat
  by (metis mask_eq_exp_minus_1 take_bit_eq_mask take_bit_eq_mod)

lemma size_of_fd_nonneg: "0 \<le> fd \<Longrightarrow> fd < 2 ^ 64 \<Longrightarrow> size_of_fd fd = nat fd"
  by (simp add: size_of_fd_def)

definition probe :: "nat \<Rightarrow> int \<Rightarrow> nat \<Rightarrow> nat" where
  "probe cap fd n = (size_of_fd fd + n) mod cap"

definition table_shape :: "int list \<Rightarrow> 'v option list \<Rightarrow> bool" where
  "table_shape keys vals \<longleftrightarrow>
     (\<exists>k. length keys = 2 ^ k) \<and> length vals = length keys \<and> (\<forall>k\<in>set keys. - 2 \<le> k)"

definition table_distinct :: "int list \<Rightarrow> bool" where
  "table_distinct keys \<longleftrightarrow>
     (\<forall>i j. i < length keys \<longrightarrow> j < length keys \<longrightarrow> keys ! i = keys ! j \<longrightarrow> 0 \<le> keys ! i \<longrightarrow> i = j)"

definition probe_reach :: "int list \<Rightarrow> bool" where
  "probe_reach keys \<longleftrightarrow>
     (\<forall>f n m. 0 \<le> f \<longrightarrow> n < length keys \<longrightarrow> keys ! probe (length keys) f n = f \<longrightarrow> m < n \<longrightarrow>
        keys ! probe (length keys) f m \<noteq> FM_EMPTY)"

definition table_inv :: "int list \<Rightarrow> 'v option list \<Rightarrow> bool" where
  "table_inv keys vals \<longleftrightarrow> table_shape keys vals \<and> table_distinct keys \<and> probe_reach keys"

definition table_lookup :: "int list \<Rightarrow> 'v option list \<Rightarrow> int \<Rightarrow> 'v option" where
  "table_lookup keys vals fd =
     (if 0 \<le> fd then Option.bind (map_of (zip keys vals) fd) id else None)"

lemma probe_less: "0 < cap \<Longrightarrow> probe cap fd n < cap"
  by (simp add: probe_def)

lemma probe_inj:
  assumes "n < cap" "m < cap" "probe cap fd n = probe cap fd m"
  shows "n = m"
proof -
  have "a = b" if "a \<le> b" "b < cap" "probe cap fd a = probe cap fd b" for a b
  proof -
    have "cap dvd (size_of_fd fd + b) - (size_of_fd fd + a)"
      using that by (metis probe_def mod_eq_dvd_iff_nat add_le_mono1 add.commute)
    then show "a = b" using that by (auto dest: dvd_imp_le)
  qed
  from this [of n m] this [of m n] show ?thesis using assms by (metis nat_le_linear)
qed

lemma probe_Suc: "Suc (probe cap fd n) mod cap = probe cap fd (Suc n)"
  by (simp add: probe_def mod_Suc_eq)

lemma probe_surj:
  assumes "i < cap"
  obtains n where "n < cap" "probe cap fd n = i"
proof
  let ?h = "size_of_fd fd mod cap"
  let ?n = "(i + (cap - ?h)) mod cap"
  show "?n < cap" using assms by simp
  have "probe cap fd ?n = (size_of_fd fd mod cap + (i + (cap - ?h))) mod cap"
    by (simp add: probe_def mod_simps)
  also have "?h + (i + (cap - ?h)) = i + cap"
    using mod_less_divisor [of cap "size_of_fd fd"] assms by linarith
  also have "(i + cap) mod cap = i" using assms by simp
  finally show "probe cap fd ?n = i" .
qed

lemma count_list_update:
  "i < length xs \<Longrightarrow>
     length (filter P (xs[i := x])) + (if P (xs ! i) then 1 else 0) =
     length (filter P xs) + (if P x then 1 else 0)"
proof (induction xs arbitrary: i)
  case (Cons y ys)
  then show ?case by (cases i) auto
qed simp

lemma map_of_zip_update_other:
  "i < length ks \<Longrightarrow> length vs = length ks \<Longrightarrow> f \<noteq> k \<Longrightarrow> ks ! i \<noteq> f \<Longrightarrow>
     map_of (zip (ks[i := k]) (vs[i := v])) f = map_of (zip ks vs) f"
proof (induction ks arbitrary: i vs)
  case (Cons y ys)
  then obtain w ws where "vs = w # ws" by (cases vs) auto
  with Cons show ?case by (cases i) auto
qed simp

lemma map_of_zip_unique:
  "i < length ks \<Longrightarrow> length vs = length ks \<Longrightarrow> ks ! i = f \<Longrightarrow>
     (\<And>j. j < length ks \<Longrightarrow> ks ! j = f \<Longrightarrow> j = i) \<Longrightarrow> map_of (zip ks vs) f = Some (vs ! i)"
proof (induction ks arbitrary: i vs)
  case (Cons y ys)
  from Cons.prems(2) obtain w ws where vs: "vs = w # ws" by (cases vs) auto
  show ?case
  proof (cases i)
    case 0
    then show ?thesis using Cons.prems(3) vs by simp
  next
    case (Suc i')
    have "y \<noteq> f" using Cons.prems(4) [of 0] Suc by auto
    moreover have "map_of (zip ys ws) f = Some (ws ! i')"
    proof (rule Cons.IH)
      show "j = i'" if "j < length ys" "ys ! j = f" for j
        using Cons.prems(4) [of "Suc j"] that Suc by simp
    qed (use Cons.prems(1-3) vs Suc in simp_all)
    ultimately show ?thesis using vs Suc by simp
  qed
qed simp

lemma map_of_zip_absent: "f \<notin> set ks \<Longrightarrow> map_of (zip ks vs) f = None"
  by (auto simp: map_of_eq_None_iff dest: set_zip_leftD)

text \<open>
  A free slot on the probe path of an absent key, before which no slot is empty, is a sound
  place for that key.
\<close>

lemma insert_position_unique:
  "fd \<notin> set keys \<Longrightarrow> j < length keys \<Longrightarrow> keys[i := fd] ! j = fd \<Longrightarrow> j = i"
  by (metis nth_list_update_neq nth_mem)

lemma table_shape_update:
  assumes "table_shape keys vals" "- 2 \<le> k"
  shows "table_shape (keys[i := k]) (vals[i := v])"
  using assms set_update_subset_insert [of keys i k] by (auto simp: table_shape_def)

lemma table_distinct_insert:
  assumes "table_distinct keys" "fd \<notin> set keys"
  shows "table_distinct (keys[i := fd])"
  unfolding table_distinct_def
proof (intro allI impI)
  fix a b
  assume *: "a < length (keys[i := fd])" "b < length (keys[i := fd])"
    "keys[i := fd] ! a = keys[i := fd] ! b" "0 \<le> keys[i := fd] ! a"
  show "a = b"
  proof (cases "keys[i := fd] ! a = fd")
    case True
    then show ?thesis using * insert_position_unique [OF assms(2)] by (metis length_list_update)
  next
    case False
    then have "i \<noteq> a" "i \<noteq> b" using * by (auto simp: nth_list_update)
    then show ?thesis using * assms(1) by (simp add: table_distinct_def)
  qed
qed

lemma probe_reach_insert:
  assumes "probe_reach keys" "0 \<le> fd" "fd \<notin> set keys" "m < length keys"
    and before: "\<And>l. l < m \<Longrightarrow> keys ! probe (length keys) fd l \<noteq> FM_EMPTY"
  shows "probe_reach (keys[probe (length keys) fd m := fd])"
  unfolding probe_reach_def
proof (intro allI impI)
  let ?i = "probe (length keys) fd m"
  let ?ks = "keys[?i := fd]"
  fix f n l
  assume *: "0 \<le> f" "n < length ?ks" "?ks ! probe (length ?ks) f n = f" "l < n"
  have i: "?i < length keys" using assms(4) by (intro probe_less) linarith
  have n: "probe (length keys) f n < length keys" using assms(4) by (intro probe_less) linarith
  have "keys ! probe (length keys) f l \<noteq> FM_EMPTY \<or> probe (length keys) f l = ?i"
  proof (cases "f = fd")
    case True
    then have "n = m" using * n assms insert_position_unique probe_inj by (metis length_list_update)
    then show ?thesis using before * True by simp
  next
    case False
    then have "keys ! probe (length keys) f n = f" using * n i by (auto simp: nth_list_update split: if_splits)
    then show ?thesis using * assms(1) unfolding probe_reach_def by simp
  qed
  then show "?ks ! probe (length ?ks) f l \<noteq> FM_EMPTY"
    using i assms(2) by (auto simp: nth_list_update FM_EMPTY_def)
qed

lemma table_lookup_insert:
  assumes len: "length vals = length keys" and fd: "0 \<le> fd" "fd \<notin> set keys"
    and i: "i < length keys" and free: "keys ! i < 0"
  shows "table_lookup (keys[i := fd]) (vals[i := v]) = (table_lookup keys vals)(fd := v)"
proof
  fix f
  show "table_lookup (keys[i := fd]) (vals[i := v]) f = ((table_lookup keys vals)(fd := v)) f"
  proof (cases "f = fd")
    case True
    have "map_of (zip (keys[i := fd]) (vals[i := v])) fd = Some (vals[i := v] ! i)"
      by (rule map_of_zip_unique)
        (use i len insert_position_unique [OF fd(2), where i = i] in auto)
    then show ?thesis using True fd i len by (simp add: table_lookup_def)
  next
    case False
    then show ?thesis
      using i len free by (auto simp: table_lookup_def map_of_zip_update_other)
  qed
qed

lemma table_inv_insert:
  assumes "table_inv keys vals" "0 \<le> fd" "fd \<notin> set keys" "m < length keys"
    and "\<And>l. l < m \<Longrightarrow> keys ! probe (length keys) fd l \<noteq> FM_EMPTY"
  shows "table_inv (keys[probe (length keys) fd m := fd]) (vals[probe (length keys) fd m := v])"
  using assms probe_reach_insert [of keys fd m]
  by (simp add: table_inv_def table_shape_update table_distinct_insert)

section \<open>The store invariant and the walk along a probe path\<close>

abbreviation live_keys :: "int list \<Rightarrow> int list" where
  "live_keys \<equiv> filter (\<lambda>k. 0 \<le> k)"

abbreviation tomb_keys :: "int list \<Rightarrow> int list" where
  "tomb_keys \<equiv> filter (\<lambda>k. k = FM_TOMB)"

definition store_inv :: "'v fd_store \<Rightarrow> bool" where
  "store_inv s \<longleftrightarrow>
     table_inv (fd_keys s) (fd_vals s) \<and> fd_cap s = length (fd_keys s) \<and>
     fd_size s = length (live_keys (fd_keys s)) \<and> fd_tombs s = length (tomb_keys (fd_keys s)) \<and>
     fd_size s + fd_tombs s < fd_cap s"

definition store_lookup :: "'v fd_store \<Rightarrow> int \<Rightarrow> 'v option" where
  "store_lookup s = table_lookup (fd_keys s) (fd_vals s)"

definition stop_at :: "'v fd_store \<Rightarrow> int \<Rightarrow> nat \<Rightarrow> bool" where
  "stop_at s fd n \<longleftrightarrow> fd_keys s ! probe (fd_cap s) fd n \<in> {FM_EMPTY, fd}"

definition walk :: "'v fd_store \<Rightarrow> int \<Rightarrow> nat \<Rightarrow> bool" where
  "walk s fd N \<longleftrightarrow> N < fd_cap s \<and> stop_at s fd N \<and> (\<forall>m<N. \<not> stop_at s fd m)"

lemma store_inv_len:
  assumes "store_inv s"
  shows "length (fd_keys s) = fd_cap s" "length (fd_vals s) = fd_cap s" "0 < fd_cap s"
  using assms by (auto simp: store_inv_def table_inv_def table_shape_def)

lemma store_probe_less [simp]: "store_inv s \<Longrightarrow> probe (fd_cap s) fd n < fd_cap s"
  by (simp add: probe_less store_inv_len)

lemma mask_mod: "store_inv s \<Longrightarrow> x AND (fd_cap s - Suc 0) = x mod fd_cap s"
  using and_mask_mod by (auto simp: store_inv_def table_inv_def table_shape_def)

lemma probe_start: "store_inv s \<Longrightarrow> size_of_fd fd AND (fd_cap s - Suc 0) = probe (fd_cap s) fd 0"
  by (simp add: mask_mod probe_def)

lemma probe_advance:
  "store_inv s \<Longrightarrow>
     Suc (probe (fd_cap s) fd n) AND (fd_cap s - Suc 0) = probe (fd_cap s) fd (Suc n)"
  by (simp add: mask_mod probe_Suc)

lemma buf_get_key [simp]:
  "store_inv s \<Longrightarrow> buf_get (fd_keys s) (probe (fd_cap s) fd n) =
     Some (fd_keys s ! probe (fd_cap s) fd n)"
  by (simp add: buf_get_def store_inv_len)

lemma length_partition3:
  "\<forall>k\<in>set ks. - 2 \<le> k \<Longrightarrow> FM_EMPTY \<notin> set ks \<Longrightarrow>
     length (live_keys ks) + length (tomb_keys ks) = length ks"
  by (induction ks) (auto simp: FM_EMPTY_def FM_TOMB_def)

lemma store_has_empty:
  assumes "store_inv s"
  shows "FM_EMPTY \<in> set (fd_keys s)"
  using assms length_partition3 [of "fd_keys s"]
  by (auto simp: store_inv_def table_inv_def table_shape_def)

lemma walk_exists:
  assumes "store_inv s"
  obtains N where "walk s fd N"
proof -
  obtain i where "i < fd_cap s" "fd_keys s ! i = FM_EMPTY"
    using store_has_empty [OF assms] store_inv_len [OF assms] by (auto simp: in_set_conv_nth)
  then obtain n where n: "n < fd_cap s" "stop_at s fd n"
    by (metis probe_surj stop_at_def insertI1)
  then have "walk s fd (LEAST n. stop_at s fd n)"
    by (auto simp: walk_def intro: LeastI dest: not_less_Least intro: le_less_trans [OF Least_le])
  then show thesis by (rule that)
qed

lemma store_lookup_at:
  assumes "store_inv s" "0 \<le> fd" "i < fd_cap s" "fd_keys s ! i = fd"
  shows "store_lookup s fd = fd_vals s ! i"
proof -
  have "map_of (zip (fd_keys s) (fd_vals s)) fd = Some (fd_vals s ! i)"
    by (rule map_of_zip_unique)
      (use assms store_inv_len [OF assms(1)] in
        \<open>auto simp: store_inv_def table_inv_def table_distinct_def\<close>)
  then show ?thesis using assms by (simp add: store_lookup_def table_lookup_def)
qed

lemma store_lookup_absent: "fd \<notin> set (fd_keys s) \<Longrightarrow> store_lookup s fd = None"
  by (simp add: store_lookup_def table_lookup_def map_of_zip_absent)

lemma walk_empty_absent:
  assumes inv: "store_inv s" and "0 \<le> fd" and w: "walk s fd N"
    and e: "fd_keys s ! probe (fd_cap s) fd N = FM_EMPTY"
  shows "fd \<notin> set (fd_keys s)"
proof
  assume "fd \<in> set (fd_keys s)"
  then obtain n where n: "n < fd_cap s" "fd_keys s ! probe (fd_cap s) fd n = fd"
    using store_inv_len [OF inv] by (metis in_set_conv_nth probe_surj)
  then have "stop_at s fd n" by (simp add: stop_at_def)
  with w have "N \<le> n" by (meson leI walk_def)
  moreover have "N \<noteq> n" using n e assms(2) by (auto simp: FM_EMPTY_def)
  ultimately show False
    using inv n e assms(2) by (auto simp: store_inv_def table_inv_def probe_reach_def)
qed

lemma get_loop_walk:
  assumes "store_inv s" "walk s fd N" "n \<le> N"
  shows "get_loop (Suc (N - n + d)) s fd (probe (fd_cap s) fd 0) (probe (fd_cap s) fd n) =
    get_loop (Suc d) s fd (probe (fd_cap s) fd 0) (probe (fd_cap s) fd N)"
  using assms(3)
proof (induction rule: inc_induct)
  case (step n)
  have "\<not> stop_at s fd n" using assms(2) step by (simp add: walk_def)
  moreover have "probe (fd_cap s) fd (Suc n) \<noteq> probe (fd_cap s) fd 0"
    using probe_inj [of "Suc n" "fd_cap s" 0] assms(2) step by (auto simp: walk_def)
  ultimately show ?case
    using step assms(1) Suc_diff_Suc [OF step(2)]
    by (auto simp: stop_at_def fm_mask_def probe_advance Let_def simp flip: Suc_diff_Suc)
qed simp

lemma conn_store_get_lookup:
  assumes inv: "store_inv s" and fd: "0 \<le> fd"
  shows "conn_store_get fd s = Some (store_lookup s fd)"
proof -
  obtain N where N: "walk s fd N" using walk_exists [OF inv] .
  then have cap: "fd_cap s = Suc (N - 0 + (fd_cap s - Suc N))" by (simp add: walk_def)
  have "conn_store_get fd s =
    get_loop (Suc (fd_cap s - Suc N)) s fd (probe (fd_cap s) fd 0) (probe (fd_cap s) fd N)"
    using get_loop_walk [OF inv N le0, of "fd_cap s - Suc N"] store_inv_len(3) [OF inv] cap
    by (simp add: conn_store_get_def fm_mask_def probe_start inv Let_def del: get_loop.simps)
  also have "\<dots> = Some (store_lookup s fd)"
    using N inv fd walk_empty_absent [OF inv fd N] 
      store_lookup_at [OF inv fd store_probe_less [OF inv, of fd N]] store_inv_len [OF inv]
    by (auto simp: walk_def stop_at_def store_lookup_absent buf_get_def FM_EMPTY_def)
  finally show ?thesis .
qed

section \<open>Deletion\<close>

lemma table_shape_len: "table_shape keys vals \<Longrightarrow> length vals = length keys"
  by (simp add: table_shape_def)

lemma table_distinct_tomb: "table_distinct keys \<Longrightarrow> table_distinct (keys[i := FM_TOMB])"
  unfolding table_distinct_def FM_TOMB_def
  by (metis length_list_update nth_list_update_eq nth_list_update_neq
      neg_0_le_iff_le not_numeral_le_zero)

lemma probe_reach_tomb:
  assumes "probe_reach keys"
  shows "probe_reach (keys[i := FM_TOMB])"
  unfolding probe_reach_def
proof (intro allI impI)
  let ?ks = "keys[i := FM_TOMB]"
  fix f n m
  assume *: "0 \<le> f" "n < length ?ks" "?ks ! probe (length ?ks) f n = f" "m < n"
  then have "probe (length keys) f k < length keys" for k by (auto intro: probe_less)
  moreover from this have "probe (length keys) f n \<noteq> i"
    using * by (auto simp: FM_TOMB_def)
  ultimately show "?ks ! probe (length ?ks) f m \<noteq> FM_EMPTY"
    using * assms
    by (cases "probe (length keys) f m = i") (auto simp: probe_reach_def FM_EMPTY_def FM_TOMB_def)
qed

lemma table_lookup_tomb:
  assumes "table_inv keys vals" "i < length keys" "keys ! i = fd" "0 \<le> fd"
  shows "table_lookup (keys[i := FM_TOMB]) (vals[i := None]) = (table_lookup keys vals)(fd := None)"
proof
  fix f
  have len: "length vals = length keys"
    using assms(1) by (simp add: table_inv_def table_shape_len)
  have "fd \<notin> set (keys[i := FM_TOMB])"
    using assms by (auto simp: in_set_conv_nth nth_list_update table_inv_def table_distinct_def
        FM_TOMB_def split: if_splits)
  then have gone: "map_of (zip (keys[i := FM_TOMB]) (vals[i := None])) fd = None"
    by (rule map_of_zip_absent)
  show "table_lookup (keys[i := FM_TOMB]) (vals[i := None]) f =
    ((table_lookup keys vals)(fd := None)) f"
  proof (cases "f = fd")
    case False
    then show ?thesis
      using assms len
      by (auto simp: table_lookup_def map_of_zip_update_other FM_TOMB_def)
  qed (simp add: table_lookup_def gone)
qed

lemma store_tomb:
  assumes inv: "store_inv s" and i: "i < fd_cap s" "fd_keys s ! i = fd" and fd: "0 \<le> fd"
  defines "s' \<equiv> s\<lparr>fd_keys := (fd_keys s)[i := FM_TOMB], fd_vals := (fd_vals s)[i := None],
    fd_size := fd_size s - 1, fd_tombs := fd_tombs s + 1\<rparr>"
  shows "store_inv s'" "store_lookup s' = (store_lookup s)(fd := None)"
proof -
  have il: "i < length (fd_keys s)" using i inv by (simp add: store_inv_len)
  have size: "length (live_keys ((fd_keys s)[i := FM_TOMB])) + 1 = fd_size s"
    using count_list_update [OF il, of "\<lambda>k. 0 \<le> k" FM_TOMB] i fd inv
    by (simp add: store_inv_def FM_TOMB_def)
  have tombs: "length (tomb_keys ((fd_keys s)[i := FM_TOMB])) = fd_tombs s + 1"
    using count_list_update [OF il, of "\<lambda>k. k = FM_TOMB" FM_TOMB] i fd inv
    by (auto simp: store_inv_def FM_TOMB_def)
  show "store_inv s'"
    using inv size tombs
    by (auto simp: store_inv_def s'_def table_inv_def table_distinct_tomb probe_reach_tomb
        intro!: table_shape_update) (simp add: FM_TOMB_def)
  show "store_lookup s' = (store_lookup s)(fd := None)"
    using table_lookup_tomb [of "fd_keys s" "fd_vals s" i fd] inv il i fd
    by (simp add: store_lookup_def s'_def store_inv_def)
qed

lemma del_loop_walk:
  assumes "store_inv s" "walk s fd N" "n \<le> N"
  shows "del_loop (Suc (N - n + d)) s fd (probe (fd_cap s) fd n) =
    del_loop (Suc d) s fd (probe (fd_cap s) fd N)"
  using assms(3)
proof (induction rule: inc_induct)
  case (step n)
  have "\<not> stop_at s fd n" using assms(2) step by (simp add: walk_def)
  then show ?case
    using step assms(1) Suc_diff_Suc [OF step(2)]
    by (auto simp: stop_at_def fm_mask_def probe_advance simp flip: Suc_diff_Suc)
qed simp

lemma conn_store_del_ok:
  assumes inv: "store_inv s" and fd: "0 \<le> fd"
  shows "\<exists>s'. conn_store_del fd s = Some s' \<and> store_inv s' \<and>
    store_lookup s' = (store_lookup s)(fd := None)"
proof -
  obtain N where N: "walk s fd N" using walk_exists [OF inv] .
  then have cap: "fd_cap s = Suc (N - 0 + (fd_cap s - Suc N))" by (simp add: walk_def)
  let ?i = "probe (fd_cap s) fd N"
  have eq: "conn_store_del fd s = del_loop (Suc (fd_cap s - Suc N)) s fd ?i"
    using del_loop_walk [OF inv N le0, of "fd_cap s - Suc N"] store_inv_len(3) [OF inv] cap
    by (simp add: conn_store_del_def fm_mask_def probe_start inv del: del_loop.simps)
  show ?thesis
  proof (cases "fd_keys s ! ?i = FM_EMPTY")
    case True
    then have "store_lookup s fd = None"
      using walk_empty_absent [OF inv fd N] store_lookup_absent by blast
    then show ?thesis using True inv eq by (auto simp: fun_upd_idem)
  next
    case False
    then have hit: "fd_keys s ! ?i = fd" using N by (simp add: walk_def stop_at_def)
    show ?thesis
      using store_tomb [OF inv _ hit fd] hit False inv eq by simp
  qed
qed

section \<open>Insertion\<close>

lemma store_insert:
  fixes v :: "'v option"
  assumes inv: "store_inv s" and fd: "0 \<le> fd" "fd \<notin> set (fd_keys s)"
    and m: "m < fd_cap s" and free: "fd_keys s ! probe (fd_cap s) fd m \<in> {FM_EMPTY, FM_TOMB}"
    and before: "\<And>l. l < m \<Longrightarrow> fd_keys s ! probe (fd_cap s) fd l \<noteq> FM_EMPTY"
    and room: "fd_size s + fd_tombs s + 1 < fd_cap s"
  defines "i \<equiv> probe (fd_cap s) fd m"
  defines "s' \<equiv> s\<lparr>fd_tombs := (if fd_keys s ! i = FM_TOMB then fd_tombs s - 1 else fd_tombs s),
    fd_keys := (fd_keys s)[i := fd], fd_vals := (fd_vals s)[i := v], fd_size := fd_size s + 1\<rparr>"
  shows "store_inv s'" "store_lookup s' = (store_lookup s)(fd := v)"
proof -
  note len = store_inv_len [OF inv]
  have il: "i < length (fd_keys s)" using inv by (simp add: i_def len)
  have neg: "fd_keys s ! i < 0" using free by (auto simp: i_def FM_EMPTY_def FM_TOMB_def)
  have size: "length (live_keys ((fd_keys s)[i := fd])) = fd_size s + 1"
    using count_list_update [OF il, of "\<lambda>k. 0 \<le> k" fd] neg fd inv by (simp add: store_inv_def)
  have tombs: "length (tomb_keys ((fd_keys s)[i := fd])) =
    (if fd_keys s ! i = FM_TOMB then fd_tombs s - 1 else fd_tombs s)"
    using count_list_update [OF il, of "\<lambda>k. k = FM_TOMB" fd] fd inv
    by (auto simp: store_inv_def FM_TOMB_def split: if_splits)
  have "table_inv ((fd_keys s)[i := fd]) ((fd_vals s)[i := v])"
    using table_inv_insert [of "fd_keys s" "fd_vals s" fd m v] inv fd m before
    by (simp add: i_def len store_inv_def)
  then show "store_inv s'"
    using inv size tombs room by (auto simp: store_inv_def s'_def)
  show "store_lookup s' = (store_lookup s)(fd := v)"
    using table_lookup_insert [of "fd_vals s" "fd_keys s" fd i v] fd il neg
    by (simp add: store_lookup_def s'_def len)
qed

lemma store_overwrite:
  fixes v :: 'v
  assumes inv: "store_inv s" and fd: "0 \<le> fd" and i: "i < fd_cap s" "fd_keys s ! i = fd"
  defines "s' \<equiv> s\<lparr>fd_vals := (fd_vals s)[i := Some v]\<rparr>"
  shows "store_inv s'" "store_lookup s' = (store_lookup s)(fd \<mapsto> v)"
proof -
  note len = store_inv_len [OF inv]
  show inv': "store_inv s'"
    using inv by (auto simp: store_inv_def s'_def table_inv_def table_shape_def)
  show "store_lookup s' = (store_lookup s)(fd \<mapsto> v)"
  proof
    fix f
    show "store_lookup s' f = ((store_lookup s)(fd \<mapsto> v)) f"
    proof (cases "f = fd")
      case True
      then show ?thesis
        using store_lookup_at [OF inv' fd, of i] i by (simp add: s'_def len)
    next
      case False
      have "map_of (zip ((fd_keys s)[i := fd]) ((fd_vals s)[i := Some v])) f =
        map_of (zip (fd_keys s) (fd_vals s)) f"
        using False i len by (intro map_of_zip_update_other) auto
      then show ?thesis
        using False i by (auto simp: store_lookup_def s'_def table_lookup_def)
    qed
  qed
qed

definition tomb_seen :: "'v fd_store \<Rightarrow> int \<Rightarrow> nat \<Rightarrow> nat option \<Rightarrow> bool" where
  "tomb_seen s fd n t \<longleftrightarrow>
     (\<forall>i. t = Some i \<longrightarrow>
        (\<exists>m<n. i = probe (fd_cap s) fd m \<and> fd_keys s ! probe (fd_cap s) fd m = FM_TOMB))"

lemma put_loop_walk:
  assumes "store_inv s" "walk s fd N" "n \<le> N" "tomb_seen s fd n t"
  shows "\<exists>t'. tomb_seen s fd N t' \<and>
    put_loop (Suc (N - n + d)) s fd c t (probe (fd_cap s) fd n) =
    put_loop (Suc d) s fd c t' (probe (fd_cap s) fd N)"
  using assms(3,4)
proof (induction arbitrary: t rule: inc_induct)
  case (step n)
  have k: "fd_keys s ! probe (fd_cap s) fd n \<notin> {FM_EMPTY, fd}"
    using assms(2) step by (simp add: walk_def stop_at_def)
  define t1 where "t1 = (if fd_keys s ! probe (fd_cap s) fd n = FM_TOMB \<and> t = None
    then Some (probe (fd_cap s) fd n) else t)"
  have "tomb_seen s fd (Suc n) t1"
    using step(4) by (auto simp: tomb_seen_def t1_def less_Suc_eq split: if_splits)
  from step.IH [OF this] obtain t' where "tomb_seen s fd N t'"
    "put_loop (Suc (N - Suc n + d)) s fd c t1 (probe (fd_cap s) fd (Suc n)) =
     put_loop (Suc d) s fd c t' (probe (fd_cap s) fd N)" by blast
  moreover have "put_loop (Suc (N - n + d)) s fd c t (probe (fd_cap s) fd n) =
    put_loop (N - n + d) s fd c t1 (probe (fd_cap s) fd (Suc n))"
    using k assms(1) by (simp add: fm_mask_def probe_advance t1_def)
  ultimately show ?case using Suc_diff_Suc [OF step(2)] by (metis add_Suc)
qed auto

lemma put_loop_ok:
  assumes inv: "store_inv s" and fd: "0 \<le> fd" and room: "fd_size s + fd_tombs s + 1 < fd_cap s"
  shows "\<exists>s'. put_loop (fd_cap s) s fd c None (size_of_fd fd AND fm_mask s) = Some s' \<and>
    store_inv s' \<and> store_lookup s' = (store_lookup s)(fd \<mapsto> c)"
proof -
  obtain N where N: "walk s fd N" using walk_exists [OF inv] .
  then have cap: "fd_cap s = Suc (N - 0 + (fd_cap s - Suc N))" and less: "N < fd_cap s"
    by (simp_all add: walk_def)
  let ?i = "probe (fd_cap s) fd N"
  obtain t where t: "tomb_seen s fd N t" and eq:
    "put_loop (fd_cap s) s fd c None (size_of_fd fd AND fm_mask s) =
     put_loop (Suc (fd_cap s - Suc N)) s fd c t ?i"
    using put_loop_walk [OF inv N le0, of None "fd_cap s - Suc N" c] cap inv
    by (auto simp: tomb_seen_def fm_mask_def probe_start simp del: put_loop.simps)
  have before: "fd_keys s ! probe (fd_cap s) fd l \<noteq> FM_EMPTY" if "l < N" for l
    using N that by (simp add: walk_def stop_at_def)
  consider (hit) "fd_keys s ! ?i = fd" | (free) "fd_keys s ! ?i = FM_EMPTY" "t = None"
    | (reuse) m where "fd_keys s ! ?i = FM_EMPTY" "t = Some (probe (fd_cap s) fd m)" "m < N"
        "fd_keys s ! probe (fd_cap s) fd m = FM_TOMB"
    using N t by (cases t) (auto simp: walk_def stop_at_def tomb_seen_def)
  then show ?thesis
  proof cases
    case hit
    then show ?thesis
      using store_overwrite [OF inv fd _ hit, of c] inv fd eq
      by (simp add: FM_EMPTY_def FM_TOMB_def)
  next
    case free
    then show ?thesis
      using store_insert [OF inv fd walk_empty_absent [OF inv fd N] less _ before room, of "Some c"]
        inv eq by (simp add: FM_EMPTY_def FM_TOMB_def Let_def)
  next
    case reuse
    then have "FM_TOMB \<in> set (fd_keys s)"
      using store_inv_len [OF inv] store_probe_less [OF inv] by (metis nth_mem)
    then have "fd_tombs s \<noteq> 0"
      using inv by (auto simp: store_inv_def filter_empty_conv)
    then show ?thesis
      using reuse less before inv eq
        store_insert [OF inv fd walk_empty_absent [OF inv fd N], of m "Some c"] room
      by (simp add: Let_def)
  qed
qed

section \<open>Rehashing\<close>

lemma table_distinct_live: "table_distinct keys \<Longrightarrow> distinct (live_keys keys)"
proof (induction keys)
  case (Cons k ks)
  have "table_distinct ks"
    using Cons.prems unfolding table_distinct_def by (metis Suc_less_eq length_Cons nth_Cons_Suc nat.inject)
  moreover have "k \<notin> set ks" if "0 \<le> k"
  proof
    assume "k \<in> set ks"
    then obtain j where "j < length ks" "ks ! j = k" by (auto simp: in_set_conv_nth)
    then show False
      using Cons.prems that unfolding table_distinct_def
      by (metis Suc_less_eq length_Cons nat.distinct(1) nth_Cons_0 nth_Cons_Suc zero_less_Suc)
  qed
  ultimately show ?case using Cons.IH by simp
qed simp

lemma fresh_store_inv: "cap = 2 ^ k \<Longrightarrow> store_inv (fresh_store cap)"
  by (auto simp: store_inv_def fresh_store_def table_inv_def table_shape_def table_distinct_def
      probe_reach_def probe_def FM_EMPTY_def FM_TOMB_def)

lemma fresh_store_fields:
  "fd_cap (fresh_store cap) = cap" "fd_size (fresh_store cap) = 0" "fd_tombs (fresh_store cap) = 0"
  "set (fd_keys (fresh_store cap)) \<subseteq> {FM_EMPTY}"
  by (auto simp: fresh_store_def)

lemma fresh_store_lookup: "store_lookup (fresh_store cap) = (\<lambda>_. None)"
  by (auto simp: store_lookup_def table_lookup_def fresh_store_def FM_EMPTY_def fun_eq_iff
      map_of_zip_absent simp del: zip_replicate)

lemma resize_probe_walk:
  assumes "store_inv s" "walk s fd N" "fd \<notin> set (fd_keys s)" "fd_tombs s = 0" "n \<le> N"
  shows "resize_probe (Suc (N - n + d)) (fd_keys s) (fd_cap s - 1) (probe (fd_cap s) fd n) =
    Some (probe (fd_cap s) fd N)"
proof -
  have range: "fd_keys s ! probe (fd_cap s) fd m \<ge> 0 \<longleftrightarrow> \<not> stop_at s fd m" for m
  proof -
    have "fd_keys s ! probe (fd_cap s) fd m \<in> set (fd_keys s)"
      using assms(1) by (simp add: store_inv_len)
    then show ?thesis
      using assms(1,3,4) by (force simp: store_inv_def table_inv_def table_shape_def stop_at_def
          FM_EMPTY_def FM_TOMB_def filter_empty_conv)
  qed
  show ?thesis
    using assms(5)
  proof (induction rule: inc_induct)
    case base
    then show ?case using assms(1,2) range [of N] by (auto simp: walk_def)
  next
    case (step n)
    then have "\<not> stop_at s fd n" using assms(2) by (simp add: walk_def)
    then show ?case
      using step assms(1) range [of n] Suc_diff_Suc [OF step(2)]
      by (auto simp: probe_advance simp flip: Suc_diff_Suc)
  qed
qed

definition kv_lookup :: "(int \<times> 'v option) list \<Rightarrow> int \<Rightarrow> 'v option" where
  "kv_lookup kvs fd = (if 0 \<le> fd then Option.bind (map_of kvs fd) id else None)"

lemma resize_loop_step:
  assumes inv: "store_inv s" and tombs: "fd_tombs s = 0" and k: "0 \<le> k" "k \<notin> set (fd_keys s)"
    and room: "fd_size s + 1 < fd_cap s"
  shows "\<exists>s'. resize_loop ((k, v) # kvs) s = resize_loop kvs s' \<and> store_inv s' \<and>
    fd_tombs s' = 0 \<and> fd_size s' = fd_size s + 1 \<and> fd_cap s' = fd_cap s \<and>
    set (fd_keys s') \<subseteq> insert k (set (fd_keys s)) \<and> store_lookup s' = (store_lookup s)(k := v)"
proof -
  obtain N where N: "walk s k N" using walk_exists [OF inv] .
  then have cap: "fd_cap s = Suc (N - 0 + (fd_cap s - Suc N))" and less: "N < fd_cap s"
    by (simp_all add: walk_def)
  let ?i = "probe (fd_cap s) k N"
  let ?s = "s\<lparr>fd_keys := (fd_keys s)[?i := k], fd_vals := (fd_vals s)[?i := v],
    fd_size := fd_size s + 1\<rparr>"
  have room': "fd_size s + fd_tombs s + 1 < fd_cap s" using room tombs by simp
  have "fd_keys s ! ?i \<in> set (fd_keys s)" using inv by (simp add: store_inv_len)
  with N k have e: "fd_keys s ! ?i = FM_EMPTY" by (auto simp: walk_def stop_at_def)
  have "resize_probe (fd_cap s) (fd_keys s) (fd_cap s - 1) (size_of_fd k AND (fd_cap s - 1)) = Some ?i"
    using resize_probe_walk [OF inv N k(2) tombs le0, of "fd_cap s - Suc N"] cap inv
    by (simp add: probe_start del: resize_probe.simps)
  then have "resize_loop ((k, v) # kvs) s = resize_loop kvs ?s"
    using k by simp
  moreover have "store_inv ?s" "store_lookup ?s = (store_lookup s)(k := v)"
    using store_insert [OF inv k less, of v] e N room'
    by (auto simp: walk_def stop_at_def FM_EMPTY_def FM_TOMB_def)
  ultimately show ?thesis
    using tombs set_update_subset_insert [of "fd_keys s" ?i k] by (intro exI [of _ ?s]) simp
qed

lemma resize_loop_ok:
  assumes "store_inv s" "fd_tombs s = 0" "distinct (live_keys (map fst kvs))"
    "set (live_keys (map fst kvs)) \<inter> set (fd_keys s) = {}"
    "fd_size s + length (live_keys (map fst kvs)) < fd_cap s"
  shows "\<exists>s'. resize_loop kvs s = Some s' \<and> store_inv s' \<and> fd_tombs s' = 0 \<and>
    fd_size s' = fd_size s + length (live_keys (map fst kvs)) \<and> fd_cap s' = fd_cap s \<and>
    store_lookup s' =
      (\<lambda>f. if f \<in> set (live_keys (map fst kvs)) then kv_lookup kvs f else store_lookup s f)"
  using assms
proof (induction kvs arbitrary: s)
  case (Cons kv kvs)
  obtain k v where kv: "kv = (k, v)" by (cases kv)
  show ?case
  proof (cases "0 \<le> k")
    case False
    then show ?thesis
      using Cons.IH [of s] Cons.prems kv by (auto simp: kv_lookup_def cong: if_cong)
  next
    case True
    then obtain s1 where s1: "resize_loop (kv # kvs) s = resize_loop kvs s1" "store_inv s1"
      "fd_tombs s1 = 0" "fd_size s1 = fd_size s + 1" "fd_cap s1 = fd_cap s"
      "set (fd_keys s1) \<subseteq> insert k (set (fd_keys s))" "store_lookup s1 = (store_lookup s)(k := v)"
      using resize_loop_step [of s k v kvs] Cons.prems kv by auto
    have "\<exists>s'. resize_loop kvs s1 = Some s' \<and> store_inv s' \<and> fd_tombs s' = 0 \<and>
      fd_size s' = fd_size s1 + length (live_keys (map fst kvs)) \<and> fd_cap s' = fd_cap s1 \<and>
      store_lookup s' =
        (\<lambda>f. if f \<in> set (live_keys (map fst kvs)) then kv_lookup kvs f else store_lookup s1 f)"
      using Cons.prems kv True s1 by (intro Cons.IH) auto
    then show ?thesis
      using Cons.prems kv True s1 by (auto simp: kv_lookup_def fun_eq_iff)
  qed
qed simp

lemma fm_resize_ok:
  assumes inv: "store_inv s"
  shows "\<exists>s'. fm_resize True (fd_cap s * 2) s = Some (True, s') \<and> store_inv s' \<and>
    fd_tombs s' = 0 \<and> fd_size s' = fd_size s \<and> fd_cap s' = fd_cap s * 2 \<and>
    store_lookup s' = store_lookup s"
proof -
  let ?kvs = "zip (fd_keys s) (fd_vals s)" and ?f = "fresh_store (fd_cap s * 2) :: 'a fd_store"
  obtain k where "fd_cap s = 2 ^ k"
    using inv by (auto simp: store_inv_def table_inv_def table_shape_def)
  then have f: "store_inv ?f" using fresh_store_inv [of _ "Suc k"] by (simp add: mult.commute)
  have fst: "map fst ?kvs = fd_keys s" using inv by (simp add: store_inv_len)
  have size: "length (live_keys (fd_keys s)) = fd_size s" "fd_size s < fd_cap s"
    using inv by (auto simp: store_inv_def)
  have dist: "distinct (live_keys (fd_keys s))"
    using inv by (intro table_distinct_live) (simp add: store_inv_def table_inv_def)
  have disj: "set (live_keys (fd_keys s)) \<inter> set (fd_keys ?f) = {}"
    using fresh_store_fields(4) [of "fd_cap s * 2"] by (force simp: FM_EMPTY_def)
  obtain s' where s': "resize_loop ?kvs ?f = Some s'" "store_inv s'" "fd_tombs s' = 0"
    "fd_size s' = fd_size s" "fd_cap s' = fd_cap s * 2"
    "store_lookup s' = (\<lambda>f. if f \<in> set (live_keys (fd_keys s)) then kv_lookup ?kvs f else None)"
    using resize_loop_ok [OF f, of ?kvs, unfolded fst fresh_store_lookup fresh_store_fields(1-3)]
      size dist disj by auto
  have "store_lookup s' = store_lookup s"
    unfolding s'(6) store_lookup_def [of s]
    by (auto simp: fun_eq_iff kv_lookup_def table_lookup_def map_of_zip_absent)
  with s' show ?thesis by (auto simp: fm_resize_def)
qed

section \<open>The map interface\<close>

lemma conn_store_put_ok:
  assumes inv: "store_inv s" and fd: "0 \<le> fd"
  shows "\<exists>s'. conn_store_put True fd c s = Some (True, s') \<and> store_inv s' \<and>
    store_lookup s' = (store_lookup s)(fd \<mapsto> c)"
proof -
  obtain s1 where s1: "store_inv s1" "store_lookup s1 = store_lookup s"
    "fd_size s1 + fd_tombs s1 + 1 < fd_cap s1"
    "(if needs_resize s then fm_resize True (fd_cap s * 2) s else Some (True, s)) = Some (True, s1)"
  proof (cases "needs_resize s")
    case True
    then show thesis
      using fm_resize_ok [OF inv] inv that by (fastforce simp: store_inv_def)
  next
    case False
    then show thesis using inv that [of s] by (auto simp: needs_resize_def)
  qed
  then show ?thesis
    using put_loop_ok [OF s1(1) fd s1(3), of c] store_inv_len(3) [OF inv]
    by (auto simp: conn_store_put_def simp del: put_loop.simps)
qed

lemma conn_store_put_nomem:
  assumes inv: "store_inv s" and fd: "0 \<le> fd"
  shows "\<exists>ok s'. conn_store_put False fd c s = Some (ok, s') \<and> store_inv s' \<and>
    store_lookup s' = (if ok then (store_lookup s)(fd \<mapsto> c) else store_lookup s)"
proof (cases "needs_resize s")
  case True
  then show ?thesis
    using inv store_inv_len(3) [OF inv] by (auto simp: conn_store_put_def fm_resize_def)
next
  case False
  then have "conn_store_put False fd c s = conn_store_put True fd c s"
    by (simp add: conn_store_put_def)
  then show ?thesis using conn_store_put_ok [OF inv fd, of c] by auto
qed

lemma grow_cap_pow2: "grow_cap fuel hint (2 ^ k) = Some cap \<Longrightarrow> \<exists>j. cap = 2 ^ j"
proof (induction fuel arbitrary: k)
  case (Suc fuel)
  then show ?case using Suc.IH [of "Suc k"] by (auto simp: mult.commute split: if_splits)
qed (auto split: if_splits)

lemma grow_cap_total: "hint \<le> c * 2 ^ fuel \<Longrightarrow> \<exists>cap. grow_cap fuel hint c = Some cap"
  by (induction fuel arbitrary: c) (auto simp: mult.assoc)

lemma conn_store_init_ok:
  assumes "hint \<le> 2 ^ 63"
  shows "\<exists>s. conn_store_init True hint s0 = Some (True, s) \<and> store_inv s \<and>
    store_lookup s = (\<lambda>_. None)"
proof -
  obtain cap where cap: "grow_cap 64 hint 256 = Some cap"
    using grow_cap_total [of hint 256 64] assms by auto
  then obtain k where "cap = 2 ^ k" using grow_cap_pow2 [of 64 hint 8 cap] by auto
  then show ?thesis
    using cap by (auto simp: conn_store_init_def fresh_store_inv fresh_store_lookup)
qed

datatype 'v store_op = Put bool int 'v | Del int | Get int

datatype 'v store_obs = Stored bool | Deleted | Got "'v option"

fun op_fd :: "'v store_op \<Rightarrow> int" where
  "op_fd (Put a fd c) = fd"
| "op_fd (Del fd) = fd"
| "op_fd (Get fd) = fd"

fun store_run ::
    "(bool \<Rightarrow> int \<Rightarrow> 'v \<Rightarrow> 's \<Rightarrow> (bool \<times> 's) option) \<Rightarrow> (int \<Rightarrow> 's \<Rightarrow> 's option) \<Rightarrow>
     (int \<Rightarrow> 's \<Rightarrow> 'v option option) \<Rightarrow> 'v store_op list \<Rightarrow> 's \<Rightarrow> 'v store_obs list option" where
  "store_run put del get [] s = Some []"
| "store_run put del get (Put a fd c # ops) s = do {
     (ok, s') \<leftarrow> put a fd c s;
     obs \<leftarrow> store_run put del get ops s';
     Some (Stored ok # obs)
   }"
| "store_run put del get (Del fd # ops) s = do {
     s' \<leftarrow> del fd s;
     obs \<leftarrow> store_run put del get ops s';
     Some (Deleted # obs)
   }"
| "store_run put del get (Get fd # ops) s = do {
     r \<leftarrow> get fd s;
     obs \<leftarrow> store_run put del get ops s;
     Some (Got r # obs)
   }"

text \<open>
  What a finite map answers: a successful \<open>put\<close> binds, a failed one changes nothing and is only
  allowed when memory ran out, \<open>del\<close> unbinds, \<open>get\<close> reads.
\<close>

fun map_answers :: "'v store_op list \<Rightarrow> 'v store_obs list \<Rightarrow> (int \<rightharpoonup> 'v) \<Rightarrow> bool" where
  "map_answers [] [] m \<longleftrightarrow> True"
| "map_answers (Put a fd c # ops) (Stored ok # obs) m \<longleftrightarrow>
     (a \<longrightarrow> ok) \<and> map_answers ops obs (if ok then m(fd \<mapsto> c) else m)"
| "map_answers (Del fd # ops) (Deleted # obs) m \<longleftrightarrow> map_answers ops obs (m(fd := None))"
| "map_answers (Get fd # ops) (Got r # obs) m \<longleftrightarrow> r = m fd \<and> map_answers ops obs m"
| "map_answers _ _ _ \<longleftrightarrow> False"

locale fd_map =
  fixes inv :: "'s \<Rightarrow> bool"
    and lookup :: "'s \<Rightarrow> int \<rightharpoonup> 'v"
    and put :: "bool \<Rightarrow> int \<Rightarrow> 'v \<Rightarrow> 's \<Rightarrow> (bool \<times> 's) option"
    and del :: "int \<Rightarrow> 's \<Rightarrow> 's option"
    and get :: "int \<Rightarrow> 's \<Rightarrow> 'v option option"
  assumes put_ok: "inv s \<Longrightarrow> 0 \<le> fd \<Longrightarrow>
      \<exists>s'. put True fd c s = Some (True, s') \<and> inv s' \<and> lookup s' = (lookup s)(fd \<mapsto> c)"
    and put_nomem: "inv s \<Longrightarrow> 0 \<le> fd \<Longrightarrow>
      \<exists>ok s'. put False fd c s = Some (ok, s') \<and> inv s' \<and>
        lookup s' = (if ok then (lookup s)(fd \<mapsto> c) else lookup s)"
    and del_ok: "inv s \<Longrightarrow> 0 \<le> fd \<Longrightarrow>
      \<exists>s'. del fd s = Some s' \<and> inv s' \<and> lookup s' = (lookup s)(fd := None)"
    and get_ok: "inv s \<Longrightarrow> 0 \<le> fd \<Longrightarrow> get fd s = Some (lookup s fd)"
begin

lemma put_any:
  assumes "inv s" "0 \<le> fd"
  obtains ok s' where "put a fd c s = Some (ok, s')" "inv s'" "a \<longrightarrow> ok"
    "lookup s' = (if ok then (lookup s)(fd \<mapsto> c) else lookup s)"
proof (cases a)
  case True
  then show thesis using put_ok [OF assms, of c] that [of True] by auto
next
  case False
  then show thesis using put_nomem [OF assms, of c] that by auto
qed

lemma run_answers:
  "inv s \<Longrightarrow> \<forall>x\<in>set ops. 0 \<le> op_fd x \<Longrightarrow>
     \<exists>obs. store_run put del get ops s = Some obs \<and> map_answers ops obs (lookup s)"
proof (induction ops arbitrary: s)
  case (Cons x ops)
  have fd: "0 \<le> op_fd x" and rest: "\<forall>x\<in>set ops. 0 \<le> op_fd x" using Cons.prems by auto
  show ?case
  proof (cases x)
    case (Put a fd c)
    obtain ok s' where "put a fd c s = Some (ok, s')" "inv s'" "a \<longrightarrow> ok"
      "lookup s' = (if ok then (lookup s)(fd \<mapsto> c) else lookup s)"
      using put_any [OF Cons.prems(1), of fd a c] fd Put by auto
    with Cons.IH [of s'] rest Put show ?thesis by fastforce
  next
    case (Del fd)
    with del_ok [OF Cons.prems(1), of fd] fd Cons.IH rest show ?thesis by fastforce
  next
    case (Get fd)
    with get_ok [OF Cons.prems(1), of fd] fd Cons.IH [OF Cons.prems(1) rest] show ?thesis by auto
  qed
qed simp

end

interpretation fdm: fd_map store_inv store_lookup conn_store_put conn_store_del conn_store_get
  by unfold_locales
    (rule conn_store_put_ok conn_store_put_nomem conn_store_del_ok conn_store_get_lookup; assumption)+

text \<open>
  C8: the descriptor table refines a finite map. From a successful initialisation, every
  sequence of puts, deletions and lookups on non-negative descriptors runs to its end - no probe
  loop diverges and no slot outside the arrays is touched - and answers exactly what a finite
  map answers, through rehashing, tombstone reuse and failed allocations.
\<close>

theorem conn_store_refines_map:
  assumes "hint \<le> 2 ^ 63" "\<forall>x\<in>set ops. 0 \<le> op_fd x"
  shows "\<exists>s obs. conn_store_init True hint s0 = Some (True, s) \<and>
    store_run conn_store_put conn_store_del conn_store_get ops s = Some obs \<and>
    map_answers ops obs Map.empty"
  using conn_store_init_ok [OF assms(1), of s0] fdm.run_answers [OF _ assms(2)] by fastforce

theorem conn_store_refines_map_witness:
  "\<exists>s obs. conn_store_init True 4 (fresh_store 0) = Some (True, s) \<and>
    store_run conn_store_put conn_store_del conn_store_get
      [Put True 5 ''a'', Put False 261 ''b'', Del 5, Get 261, Get 5] s = Some obs \<and>
    map_answers [Put True 5 ''a'', Put False 261 ''b'', Del 5, Get 261, Get 5] obs Map.empty"
  by (rule conn_store_refines_map) simp_all

end
