(* ===== verification/Req_Arena.thy ===== *)
theory Req_Arena
  imports Prelude "HOL-Library.Multiset"
begin

unbundle bit_operations_syntax

text \<open>
  The per-request bump allocator, \<^verbatim>\<open>src/include/req_arena.h\<close>, with its per-thread cache of small
  chunks. Sizes, capacities and offsets are 64-bit words (\<open>size_t\<close>). A pointer into an arena is a
  pair of a chunk address and an offset into the chunk's \<open>data\<close>.

  The chunks of an arena are the list reached from \<open>head\<close> along \<open>next\<close>, whose last element is
  \<open>tail\<close>; the cache is the list reached from \<open>g_req_arena_chunk_cache\<close>. The argument \<open>mem\<close> of an
  operation that may call \<open>malloc\<close> is the address \<open>malloc\<close> returns (\<open>None\<close> for \<open>NULL\<close>);
  \<open>ch_mem\<close> is the number of data bytes the allocator really handed out, which is less than \<open>cap\<close>
  when \<open>sizeof(*c) + cap\<close> wraps around. Calls of \<open>free\<close> are recorded in \<open>ar_freed\<close>. A result \<open>None\<close> is an
  access outside allocated memory. The statistics counters, compiled out by default, are left
  out.
\<close>

section \<open>The model\<close>

definition REQ_ARENA_CHUNK_MIN :: u64 where
  "REQ_ARENA_CHUNK_MIN = 1024"

definition REQ_ARENA_CHUNK_CACHE_CAP :: nat where
  "REQ_ARENA_CHUNK_CACHE_CAP = 1024"

definition REQ_ARENA_RETAIN_MAX :: u64 where
  "REQ_ARENA_RETAIN_MAX = 4096"

text \<open>\<open>sizeof(struct req_arena_chunk)\<close>: a pointer and two sizes, padded to \<open>max_align_t\<close>.\<close>

definition CHUNK_HEADER :: u64 where
  "CHUNK_HEADER = 32"

record req_arena_chunk =
  ch_addr :: nat
  ch_cap :: u64
  ch_off :: u64
  ch_mem :: nat

record req_arena =
  ar_chunks :: "req_arena_chunk list"
  ar_cache :: "req_arena_chunk list"
  ar_cache_count :: nat
  ar_freed :: "nat list"
  ar_bytes :: "nat \<times> nat \<Rightarrow> char"

definition req_arena_init :: "req_arena \<Rightarrow> req_arena" where
  "req_arena_init a = a\<lparr>ar_chunks := []\<rparr>"

definition req_arena_release_chunk :: "req_arena_chunk \<Rightarrow> req_arena \<Rightarrow> req_arena" where
  "req_arena_release_chunk c a =
     (if ch_cap c = REQ_ARENA_CHUNK_MIN \<and> ar_cache_count a < REQ_ARENA_CHUNK_CACHE_CAP then
        a\<lparr>ar_cache := c\<lparr>ch_off := 0\<rparr> # ar_cache a, ar_cache_count := ar_cache_count a + 1\<rparr>
      else a\<lparr>ar_freed := ar_freed a @ [ch_addr c]\<rparr>)"

definition req_arena_destroy :: "req_arena \<Rightarrow> req_arena" where
  "req_arena_destroy a = (fold req_arena_release_chunk (ar_chunks a) a)\<lparr>ar_chunks := []\<rparr>"

definition req_arena_cache_destroy_tls :: "req_arena \<Rightarrow> req_arena" where
  "req_arena_cache_destroy_tls a =
     a\<lparr>ar_freed := ar_freed a @ map ch_addr (ar_cache a), ar_cache := [], ar_cache_count := 0\<rparr>"

definition chunk_cap :: "u64 \<Rightarrow> u64" where
  "chunk_cap need = (if need < REQ_ARENA_CHUNK_MIN then REQ_ARENA_CHUNK_MIN else need)"

definition req_arena_new_chunk ::
    "nat option \<Rightarrow> u64 \<Rightarrow> req_arena \<Rightarrow> (req_arena_chunk option \<times> req_arena) option" where
  "req_arena_new_chunk mem need a =
     (let cap = chunk_cap need
      in if cap = REQ_ARENA_CHUNK_MIN \<and> ar_cache a \<noteq> [] then
           Some (Some ((hd (ar_cache a))\<lparr>ch_cap := cap, ch_off := 0\<rparr>),
                 a\<lparr>ar_cache := tl (ar_cache a), ar_cache_count := ar_cache_count a - 1\<rparr>)
         else
           (case mem of
              None \<Rightarrow> Some (None, a)
            | Some p \<Rightarrow>
                (if CHUNK_HEADER + cap < CHUNK_HEADER then None
                 else
                   Some (Some \<lparr>ch_addr = p, ch_cap = cap, ch_off = 0,
                               ch_mem = unat (CHUNK_HEADER + cap) - unat CHUNK_HEADER\<rparr>, a))))"

definition align_up :: "u64 \<Rightarrow> u64 \<Rightarrow> u64" where
  "align_up off align = (off + (align - 1)) AND NOT (align - 1)"

text \<open>The attempt to place \<open>n\<close> bytes in one chunk: the offset found and the updated chunk.\<close>

definition chunk_place :: "u64 \<Rightarrow> u64 \<Rightarrow> req_arena_chunk \<Rightarrow> (u64 \<times> req_arena_chunk) option" where
  "chunk_place n align c =
     (let aligned_off = align_up (ch_off c) align;
          e = aligned_off + n
      in if e \<ge> aligned_off \<and> e \<le> ch_cap c then Some (aligned_off, c\<lparr>ch_off := e\<rparr>) else None)"

definition req_arena_alloc ::
    "nat option \<Rightarrow> u64 \<Rightarrow> u64 \<Rightarrow> req_arena \<Rightarrow> ((nat \<times> nat) option \<times> req_arena) option" where
  "req_arena_alloc mem n align0 a =
     (let align = (if align0 = 0 then 1 else align0);
          chs = ar_chunks a
      in case (if chs = [] then None else chunk_place n align (last chs)) of
           Some (off, t) \<Rightarrow>
             Some (Some (ch_addr t, unat off), a\<lparr>ar_chunks := butlast chs @ [t]\<rparr>)
         | None \<Rightarrow> do {
             (nc, a1) \<leftarrow> req_arena_new_chunk mem (n + align) a;
             case nc of
               None \<Rightarrow> Some (None, a1)
             | Some c \<Rightarrow>
                 (case chunk_place n align c of
                    None \<Rightarrow> Some (None, a1\<lparr>ar_chunks := chs @ [c]\<rparr>)
                  | Some (off, c') \<Rightarrow>
                      Some (Some (ch_addr c', unat off), a1\<lparr>ar_chunks := chs @ [c']\<rparr>))
           })"

fun put_bytes :: "nat \<Rightarrow> nat \<Rightarrow> string \<Rightarrow> (nat \<times> nat \<Rightarrow> char) \<Rightarrow> (nat \<times> nat \<Rightarrow> char)" where
  "put_bytes p off [] m = m"
| "put_bytes p off (c # cs) m = put_bytes p (Suc off) cs (m((p, off) := c))"

text \<open>A store through a pointer faults outside the memory of the chunk it points into.\<close>

definition arena_write :: "nat \<times> nat \<Rightarrow> string \<Rightarrow> req_arena \<Rightarrow> req_arena option" where
  "arena_write ptr s a =
     (if \<exists>c\<in>set (ar_chunks a). ch_addr c = fst ptr \<and> snd ptr + length s \<le> ch_mem c
      then Some (a\<lparr>ar_bytes := put_bytes (fst ptr) (snd ptr) s (ar_bytes a)\<rparr>)
      else None)"

definition req_arena_strndup ::
    "nat option \<Rightarrow> string option \<Rightarrow> req_arena \<Rightarrow> ((nat \<times> nat) option \<times> req_arena) option" where
  "req_arena_strndup mem src a =
     (case src of
        None \<Rightarrow> Some (None, a)
      | Some s \<Rightarrow> do {
          (r, a1) \<leftarrow> req_arena_alloc mem (of_nat (length s) + 1) 1 a;
          case r of
            None \<Rightarrow> Some (None, a1)
          | Some p \<Rightarrow> do {
              a2 \<leftarrow> arena_write p (s @ [NUL]) a1;
              Some (Some p, a2)
            }
        })"

definition req_arena_reset :: "req_arena \<Rightarrow> req_arena" where
  "req_arena_reset a =
     (case ar_chunks a of
        [] \<Rightarrow> a
      | first # rest \<Rightarrow>
          (let a1 = (fold req_arena_release_chunk rest a)\<lparr>ar_chunks := []\<rparr>
           in if ch_cap first > REQ_ARENA_RETAIN_MAX then req_arena_release_chunk first a1
              else a1\<lparr>ar_chunks := [first\<lparr>ch_off := 0\<rparr>]\<rparr>))"

section \<open>Alignment\<close>

lemma and_not_mask_unat:
  "unat (x AND NOT (2 ^ k - 1)) = unat x div 2 ^ k * 2 ^ k" for x :: u64
proof -
  have "x AND NOT (2 ^ k - 1) = push_bit k (drop_bit k x)"
    by (auto simp: bit_eq_iff bit_simps simp flip: mask_eq_exp_minus_1)
  moreover have "take_bit 64 (unat x) = unat x"
    by (rule take_bit_nat_eq_self) (use unsigned_less [of x, where 'a = nat] in simp)
  ultimately have "unat (x AND NOT (2 ^ k - 1)) = take_bit 64 (push_bit k (drop_bit k (unat x)))"
    by (simp add: unsigned_push_bit_eq unsigned_drop_bit_eq)
  moreover have "unat x div 2 ^ k * 2 ^ k < 2 ^ 64"
    by (rule le_less_trans [OF div_times_less_eq_dividend])
      (use unsigned_less [of x, where 'a = nat] in simp)
  ultimately show ?thesis
    by (simp add: take_bit_nat_eq_self push_bit_eq_mult drop_bit_eq_div)
qed

lemma unat_pow2: "k < 64 \<Longrightarrow> unat (2 ^ k :: u64) = 2 ^ k"
  using unsigned_of_nat [of "2 ^ k", where 'b = 64 and 'a = nat] by (simp add: take_bit_nat_eq_self)

lemma align_up_unat:
  fixes off align :: u64
  assumes k: "k < 64" "align = 2 ^ k" and room: "unat off + unat align < 2 ^ 64"
  shows "unat off \<le> unat (align_up off align)" "unat (align_up off align) < unat off + unat align"
    "unat align dvd unat (align_up off align)"
proof -
  have A: "unat align = 2 ^ k" using k by (simp add: unat_pow2)
  have "unat (align - 1) = 2 ^ k - 1"
    using k by (simp flip: A add: unat_minus_one)
  then have "unat (off + (align - 1)) = unat off + (2 ^ k - 1)"
    using room A by (simp add: unat_plus_if')
  then have eq: "unat (align_up off align) = (unat off + (2 ^ k - 1)) div 2 ^ k * 2 ^ k"
    by (simp add: align_up_def k(2) and_not_mask_unat)
  let ?q = "unat off + (2 ^ k - 1)"
  have "?q div 2 ^ k * 2 ^ k + ?q mod 2 ^ k = ?q" "?q mod 2 ^ k < 2 ^ k"
    by (rule div_mult_mod_eq, simp)
  moreover have "0 < (2::nat) ^ k" by simp
  ultimately show "unat off \<le> unat (align_up off align)"
    "unat (align_up off align) < unat off + unat align"
    unfolding eq A by linarith+
  show "unat align dvd unat (align_up off align)" by (simp add: eq A)
qed

section \<open>The arena invariant\<close>

definition chunk_ok :: "req_arena_chunk \<Rightarrow> bool" where
  "chunk_ok c \<longleftrightarrow>
     ch_mem c = unat (ch_cap c) \<and> ch_off c \<le> ch_cap c \<and> unat (ch_cap c) + 32 < 2 ^ 64"

definition live_addrs :: "req_arena \<Rightarrow> nat list" where
  "live_addrs a = map ch_addr (ar_chunks a @ ar_cache a)"

definition arena_inv :: "req_arena \<Rightarrow> bool" where
  "arena_inv a \<longleftrightarrow>
     (\<forall>c\<in>set (ar_chunks a @ ar_cache a). chunk_ok c) \<and>
     (\<forall>c\<in>set (ar_cache a). ch_cap c = REQ_ARENA_CHUNK_MIN) \<and>
     ar_cache_count a = length (ar_cache a) \<and> length (ar_cache a) \<le> REQ_ARENA_CHUNK_CACHE_CAP \<and>
     distinct (live_addrs a)"

definition covered :: "req_arena \<Rightarrow> nat \<times> nat \<Rightarrow> nat \<Rightarrow> bool" where
  "covered a p n \<longleftrightarrow>
     (\<exists>c\<in>set (ar_chunks a). ch_addr c = fst p \<and> snd p + n \<le> unat (ch_off c))"

definition apart :: "nat \<times> nat \<Rightarrow> nat \<Rightarrow> nat \<times> nat \<Rightarrow> nat \<Rightarrow> bool" where
  "apart p n q m \<longleftrightarrow> fst p \<noteq> fst q \<or> snd p + n \<le> snd q \<or> snd q + m \<le> snd p"

definition size_ok :: "u64 \<Rightarrow> u64 \<Rightarrow> bool" where
  "size_ok n align \<longleftrightarrow> unat n + unat align + 32 < 2 ^ 64 \<and> (\<exists>k\<le>4. align = 2 ^ k)"

lemma chunk_place_spec:
  assumes "chunk_ok c" "size_ok n align" "chunk_place n align c = Some (off, c')"
  shows "chunk_ok c'" "ch_addr c' = ch_addr c" "unat (ch_off c) \<le> unat off"
    "unat (ch_off c') = unat off + unat n" "unat align dvd unat off" "ch_cap c' = ch_cap c"
proof -
  obtain k where k: "k \<le> 4" "align = 2 ^ k" using assms(2) by (auto simp: size_ok_def)
  then have "(2::nat) ^ k \<le> 2 ^ 4" by (intro power_increasing) simp_all
  then have al: "unat align \<le> 16" using k by (simp add: unat_pow2)
  have "unat (ch_off c) \<le> unat (ch_cap c)" using assms(1) by (simp add: chunk_ok_def word_le_nat_alt)
  then have room: "unat (ch_off c) + unat align < 2 ^ 64" using al assms(1) by (simp add: chunk_ok_def)
  note up = align_up_unat [OF _ k(2) room]
  have o: "off = align_up (ch_off c) align" "c' = c\<lparr>ch_off := off + n\<rparr>" "off \<le> off + n"
    "off + n \<le> ch_cap c"
    using assms(3) by (auto simp: chunk_place_def Let_def split: if_splits)
  then show "chunk_ok c'" "ch_addr c' = ch_addr c" "ch_cap c' = ch_cap c"
    using assms(1) by (auto simp: chunk_ok_def)
  show "unat (ch_off c) \<le> unat off" "unat align dvd unat off" using up k o(1) by simp_all
  show "unat (ch_off c') = unat off + unat n"
    using o(2,3) by (simp add: unat_plus_simple)
qed

definition fresh_mem :: "nat option \<Rightarrow> req_arena \<Rightarrow> bool" where
  "fresh_mem mem a \<longleftrightarrow> (\<forall>p. mem = Some p \<longrightarrow> p \<notin> set (live_addrs a))"

lemma new_chunk_spec:
  assumes inv: "arena_inv a" and need: "unat need + 32 < 2 ^ 64" and fresh: "fresh_mem mem a"
  obtains (none) "mem = None" "req_arena_new_chunk mem need a = Some (None, a)"
    | (chunk) c a1 where "req_arena_new_chunk mem need a = Some (Some c, a1)"
        "chunk_ok c" "ch_off c = 0" "need \<le> ch_cap c" "ch_addr c \<notin> ch_addr ` set (ar_chunks a)"
        "ar_chunks a1 = ar_chunks a" "ar_bytes a1 = ar_bytes a"
        "arena_inv (a1\<lparr>ar_chunks := ar_chunks a @ [c]\<rparr>)"
        "set (live_addrs (a1\<lparr>ar_chunks := ar_chunks a @ [c]\<rparr>)) \<subseteq> set_option mem \<union> set (live_addrs a)"
proof -
  define cap where "cap = chunk_cap need"
  have cap: "unat cap + 32 < 2 ^ 64" "need \<le> cap"
    using need by (auto simp: cap_def chunk_cap_def REQ_ARENA_CHUNK_MIN_def)
  then have hdr: "unat (CHUNK_HEADER + cap) = 32 + unat cap" "\<not> CHUNK_HEADER + cap < CHUNK_HEADER"
    by (simp_all add: CHUNK_HEADER_def unat_plus_if' word_less_nat_alt)
  consider (hit) c cs where "cap = REQ_ARENA_CHUNK_MIN" "ar_cache a = c # cs"
    | (miss) "cap \<noteq> REQ_ARENA_CHUNK_MIN \<or> ar_cache a = []" by (cases "ar_cache a") auto
  then show thesis
  proof cases
    case hit
    have "req_arena_new_chunk mem need a =
      Some (Some (c\<lparr>ch_cap := cap, ch_off := 0\<rparr>), a\<lparr>ar_cache := cs, ar_cache_count := ar_cache_count a - 1\<rparr>)"
      unfolding req_arena_new_chunk_def using hit by (simp add: Let_def flip: cap_def)
    then show thesis
      by (rule chunk) (use inv hit cap in \<open>auto simp: arena_inv_def chunk_ok_def live_addrs_def\<close>)
  next
    case miss
    then have eq: "req_arena_new_chunk mem need a =
      (case mem of None \<Rightarrow> Some (None, a)
       | Some p \<Rightarrow> Some (Some \<lparr>ch_addr = p, ch_cap = cap, ch_off = 0, ch_mem = unat cap\<rparr>, a))"
      unfolding req_arena_new_chunk_def
      using hdr by (auto simp: Let_def CHUNK_HEADER_def simp flip: cap_def split: option.splits)
    show thesis
    proof (cases mem)
      case (Some p)
      then have "p \<notin> set (live_addrs a)" using fresh by (simp add: fresh_mem_def)
      then show thesis
        using eq Some inv cap by (intro chunk) (auto simp: arena_inv_def chunk_ok_def live_addrs_def)
    qed (use eq none in auto)
  qed
qed

definition keeps :: "req_arena \<Rightarrow> req_arena \<Rightarrow> bool" where
  "keeps a a' \<longleftrightarrow>
     (\<forall>c\<in>set (ar_chunks a). \<exists>c'\<in>set (ar_chunks a'). ch_addr c' = ch_addr c \<and> ch_off c \<le> ch_off c') \<and>
     ar_bytes a' = ar_bytes a"

lemma keeps_covered:
  assumes "keeps a a'" "covered a p n"
  shows "covered a' p n"
proof -
  obtain c where c: "c \<in> set (ar_chunks a)" "ch_addr c = fst p" "snd p + n \<le> unat (ch_off c)"
    using assms(2) by (auto simp: covered_def)
  then obtain c' where "c' \<in> set (ar_chunks a')" "ch_addr c' = fst p" "ch_off c \<le> ch_off c'"
    using assms(1) by (auto simp: keeps_def)
  with c show ?thesis by (auto simp: covered_def word_le_nat_alt intro!: bexI [of _ c'])
qed

text \<open>What a successful allocation returns: an aligned region above everything handed out before.\<close>

definition grants :: "req_arena \<Rightarrow> u64 \<Rightarrow> u64 \<Rightarrow> nat \<times> nat \<Rightarrow> req_arena \<Rightarrow> bool" where
  "grants a n align p a' \<longleftrightarrow>
     covered a' p (unat n) \<and> unat align dvd snd p \<and>
     (\<forall>c\<in>set (ar_chunks a). ch_addr c = fst p \<longrightarrow> unat (ch_off c) \<le> snd p)"

lemma grants_apart:
  assumes "grants a n align p a'" "covered a q m"
  shows "apart q m p (unat n)"
  using assms by (fastforce simp: grants_def covered_def apart_def)

lemma alloc_tail:
  assumes inv: "arena_inv a" and size: "size_ok n align" and ne: "ar_chunks a \<noteq> []"
    and place: "chunk_place n align (last (ar_chunks a)) = Some (off, t)"
  defines "a' \<equiv> a\<lparr>ar_chunks := butlast (ar_chunks a) @ [t]\<rparr>"
  shows "arena_inv a'" "keeps a a'" "grants a n align (ch_addr t, unat off) a'"
    "live_addrs a' = live_addrs a"
proof -
  obtain pre l where chs: "ar_chunks a = pre @ [l]" using ne by (metis rev_exhaust)
  have "chunk_ok l" using inv chs by (auto simp: arena_inv_def)
  note sp = chunk_place_spec [OF this size, of off t] and t = place [unfolded chs last_snoc]
  show la: "live_addrs a' = live_addrs a" using sp t chs by (simp add: live_addrs_def a'_def)
  then show "arena_inv a'" using inv sp t chs by (auto simp: arena_inv_def a'_def)
  show "keeps a a'"
    using sp t chs by (auto simp: keeps_def a'_def word_le_nat_alt)
  have "ch_addr l \<notin> ch_addr ` set pre"
    using inv chs by (auto simp: arena_inv_def live_addrs_def)
  then have "\<forall>c\<in>set pre. ch_addr c \<noteq> ch_addr l" by (metis imageI)
  then show "grants a n align (ch_addr t, unat off) a'"
    using sp t chs by (auto simp: grants_def a'_def covered_def)
qed

lemma fresh_chunk_place:
  assumes size: "size_ok n align" and c: "ch_off c = 0" "unat n + unat align \<le> unat (ch_cap c)"
  shows "\<exists>off c'. chunk_place n align c = Some (off, c')"
proof -
  obtain k where k: "k \<le> 4" "align = 2 ^ k" using size by (auto simp: size_ok_def)
  have up: "unat (align_up 0 align) < unat align"
    using align_up_unat [of k align 0] k unsigned_less [of align, where 'a = nat] by simp
  then have "unat (align_up 0 align + n) = unat (align_up 0 align) + unat n"
    using size by (simp add: size_ok_def unat_plus_if')
  with up c show ?thesis by (simp add: chunk_place_def Let_def word_le_nat_alt)
qed

lemma alloc_spec:
  assumes inv: "arena_inv a" and size: "size_ok n align" and fresh: "fresh_mem mem a"
  shows "\<exists>r a'. req_arena_alloc mem n align a = Some (r, a') \<and> arena_inv a' \<and> keeps a a' \<and>
    set (live_addrs a') \<subseteq> set_option mem \<union> set (live_addrs a) \<and>
    (case r of None \<Rightarrow> mem = None | Some p \<Rightarrow> grants a n align p a')"
proof (cases "if ar_chunks a = [] then None else chunk_place n align (last (ar_chunks a))")
  case (Some r)
  then obtain off t where "ar_chunks a \<noteq> []" "chunk_place n align (last (ar_chunks a)) = Some (off, t)"
    by (cases r) (auto split: if_splits)
  moreover have "align \<noteq> 0" using size by (auto simp: size_ok_def)
  ultimately show ?thesis
    using alloc_tail [OF inv size] by (auto simp: req_arena_alloc_def Let_def)
next
  case None
  obtain k where k: "k \<le> 4" "align = 2 ^ k" using size by (auto simp: size_ok_def)
  have al: "align \<noteq> 0" using size by (auto simp: size_ok_def)
  have need: "unat (n + align) = unat n + unat align"
    using size by (simp add: size_ok_def unat_plus_if')
  then have small: "unat (n + align) + 32 < 2 ^ 64" using size by (simp add: size_ok_def)
  from inv small fresh show ?thesis
  proof (cases rule: new_chunk_spec)
    case none
    then show ?thesis using None al inv by (auto simp: req_arena_alloc_def Let_def keeps_def)
  next
    case (chunk c a1)
    let ?a = "\<lambda>c'. a1\<lparr>ar_chunks := ar_chunks a @ [c']\<rparr>"
    obtain off c' where place: "chunk_place n align c = Some (off, c')"
      using fresh_chunk_place [OF size chunk(3)] chunk(4) need by (auto simp: word_le_nat_alt)
    note sp = chunk_place_spec [OF chunk(2) size place]
    have "arena_inv (?a c')" "live_addrs (?a c') = live_addrs (?a c)"
      using chunk(8) sp by (auto simp: arena_inv_def live_addrs_def)
    moreover have "grants a n align (ch_addr c', unat off) (?a c')"
      using sp chunk(5) by (auto simp: grants_def covered_def) (metis imageI)
    moreover have "req_arena_alloc mem n align a = Some (Some (ch_addr c', unat off), ?a c')"
      unfolding req_arena_alloc_def Let_def using None al chunk(1) place by (auto split: if_splits)
    ultimately show ?thesis using chunk(7,9) by (auto simp: keeps_def)
  qed
qed

section \<open>Runs of requests\<close>

datatype arena_req = Alloc u64 u64 | Dup string

fun arena_step ::
    "nat option \<Rightarrow> arena_req \<Rightarrow> req_arena \<Rightarrow> ((nat \<times> nat) option \<times> req_arena) option" where
  "arena_step mem (Alloc n align) a = req_arena_alloc mem n align a"
| "arena_step mem (Dup s) a = req_arena_strndup mem (Some s) a"

fun arena_run ::
    "(nat option \<times> arena_req) list \<Rightarrow> req_arena \<Rightarrow> ((nat \<times> nat) option list \<times> req_arena) option" where
  "arena_run [] a = Some ([], a)"
| "arena_run ((mem, r) # rs) a = do {
     (p, a1) \<leftarrow> arena_step mem r a;
     (ps, a2) \<leftarrow> arena_run rs a1;
     Some (p # ps, a2)
   }"

fun req_len :: "arena_req \<Rightarrow> nat" where
  "req_len (Alloc n align) = unat n"
| "req_len (Dup s) = length s + 1"

fun req_align :: "arena_req \<Rightarrow> nat" where
  "req_align (Alloc n align) = unat align"
| "req_align (Dup s) = 1"

fun req_ok :: "arena_req \<Rightarrow> bool" where
  "req_ok (Alloc n align) \<longleftrightarrow> unat n + 64 < 2 ^ 64 \<and> align \<in> {1, 2, 4, 8, 16}"
| "req_ok (Dup s) \<longleftrightarrow> length s + 65 < 2 ^ 64"

definition read_bytes :: "req_arena \<Rightarrow> nat \<times> nat \<Rightarrow> nat \<Rightarrow> string" where
  "read_bytes a p n = map (\<lambda>i. ar_bytes a (fst p, snd p + i)) [0..<n]"

fun req_stored :: "arena_req \<Rightarrow> nat \<times> nat \<Rightarrow> req_arena \<Rightarrow> bool" where
  "req_stored (Alloc n align) p a \<longleftrightarrow> True"
| "req_stored (Dup s) p a \<longleftrightarrow> read_bytes a p (length s + 1) = s @ [NUL]"

text \<open>The region lies inside the memory the chunk owns.\<close>

definition within :: "req_arena \<Rightarrow> nat \<times> nat \<Rightarrow> nat \<Rightarrow> bool" where
  "within a p n \<longleftrightarrow> (\<exists>c\<in>set (ar_chunks a). ch_addr c = fst p \<and> snd p + n \<le> ch_mem c)"

lemma covered_within:
  assumes "arena_inv a" "covered a p n"
  shows "within a p n"
proof -
  obtain c where c: "c \<in> set (ar_chunks a)" "ch_addr c = fst p" "snd p + n \<le> unat (ch_off c)"
    using assms(2) by (auto simp: covered_def)
  then have "chunk_ok c" using assms(1) by (auto simp: arena_inv_def)
  with c show ?thesis by (auto simp: within_def chunk_ok_def word_le_nat_alt intro!: bexI [of _ c])
qed

lemma put_bytes_nth:
  "put_bytes p off s m (q, j) =
     (if q = p \<and> off \<le> j \<and> j < off + length s then s ! (j - off) else m (q, j))"
proof (induction s arbitrary: off m)
  case (Cons c s)
  then show ?case by (cases "j = off") (auto simp: nth_Cons' Suc_le_eq Suc_diff_Suc)
qed auto

lemma size_ok_pow2:
  assumes "unat n + 64 < 2 ^ 64" "align \<in> {1, 2, 4, 8, 16}"
  shows "size_ok n align"
proof -
  have "align = 2 ^ 0 \<or> align = 2 ^ 1 \<or> align = 2 ^ 2 \<or> align = 2 ^ 3 \<or> align = 2 ^ 4"
    using assms(2) by auto
  then have "\<exists>k\<le>4. align = 2 ^ k"
    by (elim disjE) (rule exI, rule conjI [rotated], assumption, simp)+
  moreover have "unat align \<le> 16" using assms(2) by auto
  ultimately show ?thesis using assms(1) by (simp add: size_ok_def)
qed

definition step_post ::
    "nat option \<Rightarrow> arena_req \<Rightarrow> req_arena \<Rightarrow> (nat \<times> nat) option \<Rightarrow> req_arena \<Rightarrow> bool" where
  "step_post mem r a res a' \<longleftrightarrow>
     arena_inv a' \<and> set (live_addrs a') \<subseteq> set_option mem \<union> set (live_addrs a) \<and>
     (\<forall>q m. covered a q m \<longrightarrow> covered a' q m \<and> read_bytes a' q m = read_bytes a q m) \<and>
     (res = None \<longrightarrow> mem = None) \<and>
     (\<forall>p. res = Some p \<longrightarrow>
        covered a' p (req_len r) \<and> req_align r dvd snd p \<and> req_stored r p a' \<and>
        (\<forall>q m. covered a q m \<longrightarrow> apart q m p (req_len r)))"

lemma alloc_step_post:
  assumes "arena_inv a" "size_ok n align" "fresh_mem mem a"
  shows "\<exists>res a'. req_arena_alloc mem n align a = Some (res, a') \<and>
    step_post mem (Alloc n align) a res a' \<and> ar_bytes a' = ar_bytes a"
proof -
  obtain res a' where r: "req_arena_alloc mem n align a = Some (res, a')" "arena_inv a'"
    "keeps a a'" "set (live_addrs a') \<subseteq> set_option mem \<union> set (live_addrs a)"
    "case res of None \<Rightarrow> mem = None | Some p \<Rightarrow> grants a n align p a'"
    using alloc_spec [OF assms] by blast
  have "read_bytes a' q m = read_bytes a q m" for q m
    using r(3) by (simp add: read_bytes_def keeps_def)
  moreover have "ar_bytes a' = ar_bytes a" using r(3) by (simp add: keeps_def)
  ultimately show ?thesis
    using r by (auto simp: step_post_def grants_def keeps_covered grants_apart split: option.splits)
qed

lemma write_read:
  "ar_bytes a' = put_bytes (fst p) (snd p) s (ar_bytes a) \<Longrightarrow> read_bytes a' p (length s) = s"
  by (auto simp: read_bytes_def put_bytes_nth intro: nth_equalityI)

lemma write_apart:
  "ar_bytes a' = put_bytes (fst p) (snd p) s (ar_bytes a) \<Longrightarrow> apart q m p (length s) \<Longrightarrow>
     read_bytes a' q m = read_bytes a q m"
  by (auto simp: read_bytes_def put_bytes_nth apart_def)

lemma strndup_step_post:
  assumes inv: "arena_inv a" and len: "length s + 65 < 2 ^ 64" and fresh: "fresh_mem mem a"
  shows "\<exists>res a'. req_arena_strndup mem (Some s) a = Some (res, a') \<and> step_post mem (Dup s) a res a'"
proof -
  let ?n = "of_nat (length s) + 1 :: u64"
  have "unat (of_nat (length s + 1) :: u64) = length s + 1"
    using len unsigned_of_nat [of "length s + 1", where 'b = 64 and 'a = nat]
    by (simp add: take_bit_nat_eq_self)
  then have n: "unat ?n = length s + 1" by (simp add: add.commute)
  have "size_ok ?n 1" using len n by (intro size_ok_pow2) simp_all
  then obtain res a1 where a1: "req_arena_alloc mem ?n 1 a = Some (res, a1)"
    "step_post mem (Alloc ?n 1) a res a1" "ar_bytes a1 = ar_bytes a"
    using alloc_step_post [OF inv _ fresh] by blast
  show ?thesis
  proof (cases res)
    case None
    then show ?thesis using a1 by (auto simp: req_arena_strndup_def step_post_def)
  next
    case (Some p)
    let ?a = "a1\<lparr>ar_bytes := put_bytes (fst p) (snd p) (s @ [NUL]) (ar_bytes a1)\<rparr>"
    have cov: "covered a1 p (length s + 1)" and ap: "\<And>q m. covered a q m \<Longrightarrow> apart q m p (length s + 1)"
      using a1(2) Some n by (auto simp: step_post_def)
    have "arena_write p (s @ [NUL]) a1 = Some ?a"
      using covered_within [OF _ cov] a1(2) by (auto simp: arena_write_def within_def step_post_def)
    then have eq: "req_arena_strndup mem (Some s) a = Some (Some p, ?a)"
      using a1(1) Some by (simp add: req_arena_strndup_def)
    have "read_bytes ?a p (length s + 1) = s @ [NUL]"
      using write_read [of ?a p "s @ [NUL]" a1] by simp
    moreover have "read_bytes ?a q m = read_bytes a q m" if "covered a q m" for q m
      using write_apart [of ?a p "s @ [NUL]" a1 q m] ap [OF that] a1(3)
      by (simp add: read_bytes_def)
    moreover have "covered ?a q m = covered a1 q m" "live_addrs ?a = live_addrs a1"
      "arena_inv ?a = arena_inv a1" for q m
      by (simp_all add: covered_def arena_inv_def live_addrs_def)
    ultimately have "step_post mem (Dup s) a (Some p) ?a"
      using a1(2) ap cov unfolding step_post_def by simp
    then show ?thesis using eq by blast
  qed
qed

lemma arena_step_post:
  assumes "arena_inv a" "req_ok r" "fresh_mem mem a"
  shows "\<exists>res a'. arena_step mem r a = Some (res, a') \<and> step_post mem r a res a'"
proof (cases r)
  case (Alloc n align)
  then show ?thesis using alloc_step_post [of a n align mem] size_ok_pow2 assms by auto
next
  case (Dup s)
  then show ?thesis using strndup_step_post [of a s mem] assms by simp
qed

fun granted :: "(nat option \<times> arena_req) list \<Rightarrow> (nat \<times> nat) option list \<Rightarrow> ((nat \<times> nat) \<times> nat) list" where
  "granted ((mem, r) # rs) (Some p # ps) = (p, req_len r) # granted rs ps"
| "granted (_ # rs) (None # ps) = granted rs ps"
| "granted _ _ = []"

definition served :: "req_arena \<Rightarrow> nat option \<times> arena_req \<Rightarrow> (nat \<times> nat) option \<Rightarrow> bool" where
  "served a x res \<longleftrightarrow>
     (case res of
        None \<Rightarrow> fst x = None
      | Some p \<Rightarrow>
          covered a p (req_len (snd x)) \<and> req_align (snd x) dvd snd p \<and> req_stored (snd x) p a)"

abbreviation mallocs :: "(nat option \<times> arena_req) list \<Rightarrow> nat list" where
  "mallocs reqs \<equiv> concat (map (\<lambda>x. case fst x of None \<Rightarrow> [] | Some p \<Rightarrow> [p]) reqs)"

abbreviation apart_regions :: "(nat \<times> nat) \<times> nat \<Rightarrow> (nat \<times> nat) \<times> nat \<Rightarrow> bool" where
  "apart_regions g h \<equiv> apart (fst g) (snd g) (fst h) (snd h)"

definition run_post :: "(nat option \<times> arena_req) list \<Rightarrow> req_arena \<Rightarrow> (nat \<times> nat) option list \<Rightarrow> req_arena \<Rightarrow> bool"
  where
  "run_post reqs a ps a' \<longleftrightarrow>
     arena_inv a' \<and> list_all2 (served a') reqs ps \<and> sorted_wrt apart_regions (granted reqs ps) \<and>
     (\<forall>q m. covered a q m \<longrightarrow>
        covered a' q m \<and> read_bytes a' q m = read_bytes a q m \<and>
        (\<forall>g\<in>set (granted reqs ps). apart_regions (q, m) g))"

lemma req_stored_cong:
  "read_bytes a' p (req_len r) = read_bytes a p (req_len r) \<Longrightarrow> req_stored r p a' = req_stored r p a"
  by (cases r) auto

lemma run_post_Cons:
  assumes s: "step_post mem r a res a1" and t: "run_post reqs a1 ps a'"
  shows "run_post ((mem, r) # reqs) a (res # ps) a'"
proof -
  have "served a' (mem, r) res"
  proof (cases res)
    case (Some p)
    then have "covered a1 p (req_len r)" "req_stored r p a1" using s by (auto simp: step_post_def)
    moreover from this have "covered a' p (req_len r)"
      "read_bytes a' p (req_len r) = read_bytes a1 p (req_len r)"
      using t unfolding run_post_def by blast+
    ultimately have "covered a' p (req_len r)" "req_stored r p a'"
      using req_stored_cong by blast+
    then show ?thesis using s Some by (simp add: served_def step_post_def)
  qed (use s in \<open>simp add: served_def step_post_def\<close>)
  then show ?thesis
    using s t unfolding run_post_def step_post_def by (cases res) (auto, fastforce)
qed

lemma arena_run_post:
  "arena_inv a \<Longrightarrow> \<forall>x\<in>set reqs. req_ok (snd x) \<Longrightarrow> distinct (mallocs reqs) \<Longrightarrow>
     set (mallocs reqs) \<inter> set (live_addrs a) = {} \<Longrightarrow>
     \<exists>ps a'. arena_run reqs a = Some (ps, a') \<and> run_post reqs a ps a'"
proof (induction reqs arbitrary: a)
  case (Cons x reqs)
  obtain mem r where x: "x = (mem, r)" by (cases x)
  have "fresh_mem mem a" using Cons.prems(4) x by (auto simp: fresh_mem_def)
  then obtain res a1 where s: "arena_step mem r a = Some (res, a1)" "step_post mem r a res a1"
    using arena_step_post [of a r mem] Cons.prems x by auto
  then have live: "set (live_addrs a1) \<subseteq> set_option mem \<union> set (live_addrs a)" "arena_inv a1"
    by (auto simp: step_post_def)
  have "set (mallocs reqs) \<inter> set (live_addrs a1) = {}"
    using live Cons.prems(3,4) x by (cases mem) auto
  then obtain ps a' where "arena_run reqs a1 = Some (ps, a')" "run_post reqs a1 ps a'"
    using Cons.IH [OF live(2)] Cons.prems x by auto
  then show ?case using s run_post_Cons [OF s(2)] x by auto
qed (simp add: run_post_def)

lemma granted_within:
  "arena_inv a \<Longrightarrow> list_all2 (served a) reqs ps \<Longrightarrow> \<forall>g\<in>set (granted reqs ps). within a (fst g) (snd g)"
proof (induction reqs ps rule: granted.induct)
  case (1 mem r rs p ps)
  then show ?case using covered_within by (auto simp: served_def)
qed auto

text \<open>
  C21: any run of allocations and string copies on a well-formed arena, with alignments up to
  that of \<open>max_align_t\<close>, completes without touching memory outside the chunks, fails only when
  \<open>malloc\<close> does, and hands out regions that are aligned, lie inside the memory their chunk owns
  and are pairwise disjoint; at the end of the run every copied string is still intact.
\<close>

theorem arena_regions_disjoint:
  assumes "arena_inv a" "\<forall>x\<in>set reqs. req_ok (snd x)" "distinct (mallocs reqs)"
    "set (mallocs reqs) \<inter> set (live_addrs a) = {}"
  shows "\<exists>ps a'. arena_run reqs a = Some (ps, a') \<and> arena_inv a' \<and> list_all2 (served a') reqs ps \<and>
    (\<forall>g\<in>set (granted reqs ps). within a' (fst g) (snd g)) \<and>
    sorted_wrt apart_regions (granted reqs ps)"
  using arena_run_post [OF assms] granted_within unfolding run_post_def by blast

definition empty_arena :: req_arena where
  "empty_arena = \<lparr>ar_chunks = [], ar_cache = [], ar_cache_count = 0, ar_freed = [], ar_bytes = (\<lambda>_. NUL)\<rparr>"

theorem arena_regions_disjoint_witness:
  "\<exists>ps a'. arena_run [(Some 1, Alloc 3 1), (None, Alloc 24 8), (Some 2, Dup ''abc''), (Some 3, Alloc 5000 16)]
      empty_arena = Some (ps, a') \<and> arena_inv a' \<and>
    list_all2 (served a')
      [(Some 1, Alloc 3 1), (None, Alloc 24 8), (Some 2, Dup ''abc''), (Some 3, Alloc 5000 16)] ps \<and>
    (\<forall>g\<in>set (granted
      [(Some 1, Alloc 3 1), (None, Alloc 24 8), (Some 2, Dup ''abc''), (Some 3, Alloc 5000 16)] ps).
        within a' (fst g) (snd g)) \<and>
    sorted_wrt apart_regions (granted
      [(Some 1, Alloc 3 1), (None, Alloc 24 8), (Some 2, Dup ''abc''), (Some 3, Alloc 5000 16)] ps)"
  by (rule arena_regions_disjoint) (simp_all add: arena_inv_def empty_arena_def live_addrs_def)

section \<open>Releasing chunks\<close>

definition cache_inv :: "req_arena \<Rightarrow> bool" where
  "cache_inv a \<longleftrightarrow>
     (\<forall>c\<in>set (ar_cache a). chunk_ok c \<and> ch_cap c = REQ_ARENA_CHUNK_MIN) \<and>
     ar_cache_count a = length (ar_cache a) \<and> length (ar_cache a) \<le> REQ_ARENA_CHUNK_CACHE_CAP"

lemma arena_inv_alt:
  "arena_inv a \<longleftrightarrow> (\<forall>c\<in>set (ar_chunks a). chunk_ok c) \<and> cache_inv a \<and> distinct (live_addrs a)"
  by (auto simp: arena_inv_def cache_inv_def)

text \<open>\<open>moved a cs a'\<close>: the chunks \<open>cs\<close> went to the cache or to \<open>free\<close>, each exactly once.\<close>

definition moved :: "req_arena \<Rightarrow> req_arena_chunk list \<Rightarrow> req_arena \<Rightarrow> bool" where
  "moved a cs a' \<longleftrightarrow>
     (\<exists>ex. ar_freed a' = ar_freed a @ ex \<and>
        mset (map ch_addr (ar_cache a')) + mset ex =
        mset (map ch_addr (ar_cache a)) + mset (map ch_addr cs)) \<and> (cache_inv a \<longrightarrow> cache_inv a')"

lemma release_moved:
  assumes "chunk_ok c"
  shows "moved a [c] (req_arena_release_chunk c a)"
proof (cases "ch_cap c = REQ_ARENA_CHUNK_MIN \<and> ar_cache_count a < REQ_ARENA_CHUNK_CACHE_CAP")
  case True
  then show ?thesis
    using assms by (auto simp: moved_def req_arena_release_chunk_def cache_inv_def chunk_ok_def)
next
  case False
  then show ?thesis by (auto simp: moved_def req_arena_release_chunk_def cache_inv_def)
qed

lemma moved_trans:
  assumes "moved a cs a1" "moved a1 ds a2"
  shows "moved a (cs @ ds) a2"
proof -
  obtain ex ey where "ar_freed a1 = ar_freed a @ ex" "ar_freed a2 = ar_freed a1 @ ey"
    "mset (map ch_addr (ar_cache a1)) + mset ex = mset (map ch_addr (ar_cache a)) + mset (map ch_addr cs)"
    "mset (map ch_addr (ar_cache a2)) + mset ey = mset (map ch_addr (ar_cache a1)) + mset (map ch_addr ds)"
    using assms by (auto simp: moved_def)
  then have "ar_freed a2 = ar_freed a @ (ex @ ey)"
    "mset (map ch_addr (ar_cache a2)) + mset (ex @ ey) =
     mset (map ch_addr (ar_cache a)) + mset (map ch_addr (cs @ ds))"
    by (simp_all, metis (no_types, lifting) union_assoc union_commute)
  then show ?thesis using assms unfolding moved_def by blast
qed

lemma moved_set_chunks [simp]: "moved a cs (a'\<lparr>ar_chunks := x\<rparr>) \<longleftrightarrow> moved a cs a'"
  unfolding moved_def cache_inv_def by simp

lemma fold_release_moved:
  "\<forall>c\<in>set cs. chunk_ok c \<Longrightarrow> moved a cs (fold req_arena_release_chunk cs a)"
proof (induction cs arbitrary: a)
  case (Cons c cs)
  then show ?case
    using moved_trans [OF release_moved, of c a cs] by simp
qed (simp add: moved_def)

lemma fold_release_chunks [simp]:
  "ar_chunks (fold req_arena_release_chunk cs a) = ar_chunks a"
  by (induction cs arbitrary: a) (simp_all add: req_arena_release_chunk_def)

text \<open>Replacing the chunks of an arena by a subset, the rest having been moved, keeps the invariant.\<close>

lemma moved_inv:
  assumes inv: "arena_inv a" and m: "moved a cs a'" and ok: "\<forall>c\<in>set (ar_chunks a'). chunk_ok c"
    and split: "mset (map ch_addr cs) + mset (map ch_addr (ar_chunks a')) = mset (map ch_addr (ar_chunks a))"
  shows "arena_inv a'" "mset (live_addrs a') + mset (ar_freed a') = mset (live_addrs a) + mset (ar_freed a)"
proof -
  obtain ex where ex: "ar_freed a' = ar_freed a @ ex"
    "mset (map ch_addr (ar_cache a')) + mset ex = mset (map ch_addr (ar_cache a)) + mset (map ch_addr cs)"
    using m by (auto simp: moved_def)
  then have eq: "mset (live_addrs a' @ ex) = mset (live_addrs a)"
    using split by (simp add: live_addrs_def) (metis (no_types, lifting) union_assoc union_commute)
  then show "mset (live_addrs a') + mset (ar_freed a') = mset (live_addrs a) + mset (ar_freed a)"
    using ex(1) by (simp add: union_assoc union_commute)
  have "distinct (live_addrs a' @ ex)"
    using inv mset_eq_imp_distinct_iff [OF eq] by (simp add: arena_inv_def)
  then show "arena_inv a'"
    using inv m ok by (simp add: arena_inv_alt moved_def)
qed

lemma reset_moved:
  assumes inv: "arena_inv a" and ne: "ar_chunks a = first # rest"
  shows "arena_inv (req_arena_reset a)"
    "mset (live_addrs (req_arena_reset a)) + mset (ar_freed (req_arena_reset a)) =
     mset (live_addrs a) + mset (ar_freed a)"
proof -
  let ?a1 = "(fold req_arena_release_chunk rest a)\<lparr>ar_chunks := []\<rparr>"
  have ok: "chunk_ok first" "\<forall>c\<in>set rest. chunk_ok c" using inv ne by (auto simp: arena_inv_def)
  have m: "moved a rest ?a1"
    using fold_release_moved [OF ok(2), of a] by simp
  have goal: "arena_inv (req_arena_reset a) \<and>
    mset (live_addrs (req_arena_reset a)) + mset (ar_freed (req_arena_reset a)) =
    mset (live_addrs a) + mset (ar_freed a)"
  proof (cases "ch_cap first > REQ_ARENA_RETAIN_MAX")
    case True
    then have eq: "req_arena_reset a = req_arena_release_chunk first ?a1"
      using ne by (simp add: req_arena_reset_def Let_def)
    have "moved a (rest @ [first]) (req_arena_release_chunk first ?a1)"
      by (rule moved_trans [OF m release_moved [OF ok(1)]])
    moreover have "ar_chunks (req_arena_release_chunk first ?a1) = []"
      by (simp add: req_arena_release_chunk_def)
    ultimately show ?thesis unfolding eq
      using moved_inv [OF inv] ne by auto
  next
    case False
    then have eq: "req_arena_reset a = ?a1\<lparr>ar_chunks := [first\<lparr>ch_off := 0\<rparr>]\<rparr>"
      using ne by (simp add: req_arena_reset_def Let_def)
    moreover have "moved a rest (?a1\<lparr>ar_chunks := [first\<lparr>ch_off := 0\<rparr>]\<rparr>)"
      using m by simp
    ultimately show ?thesis
      using moved_inv [OF inv, of rest "req_arena_reset a"] ne ok(1) by (simp add: chunk_ok_def)
  qed
  then show "arena_inv (req_arena_reset a)"
    "mset (live_addrs (req_arena_reset a)) + mset (ar_freed (req_arena_reset a)) =
     mset (live_addrs a) + mset (ar_freed a)" by auto
qed

lemma reset_chunks:
  "length (ar_chunks (req_arena_reset a)) \<le> 1 \<and>
   (\<forall>c\<in>set (ar_chunks (req_arena_reset a)). ch_off c = 0 \<and> ch_cap c \<le> REQ_ARENA_RETAIN_MAX)"
  by (auto simp: req_arena_reset_def req_arena_release_chunk_def Let_def split: list.splits)

lemma destroy_conserves:
  assumes inv: "arena_inv a"
  shows "arena_inv (req_arena_destroy a)"
    "mset (live_addrs (req_arena_destroy a)) + mset (ar_freed (req_arena_destroy a)) =
     mset (live_addrs a) + mset (ar_freed a)"
proof -
  have "\<forall>c\<in>set (ar_chunks a). chunk_ok c" using inv by (simp add: arena_inv_def)
  from fold_release_moved [OF this, of a] have "moved a (ar_chunks a) (req_arena_destroy a)"
    by (simp add: req_arena_destroy_def)
  then show "arena_inv (req_arena_destroy a)"
    "mset (live_addrs (req_arena_destroy a)) + mset (ar_freed (req_arena_destroy a)) =
     mset (live_addrs a) + mset (ar_freed a)"
    using moved_inv [OF inv, of "ar_chunks a" "req_arena_destroy a"]
    by (simp_all add: req_arena_destroy_def)
qed

text \<open>
  C22: chunks are neither leaked nor freed twice. Resetting an arena keeps the invariant (so the
  cache never exceeds its cap and shares no chunk with the arena) and conserves the multiset of
  chunk addresses that are in use, cached or freed; at most one chunk, of at most
  \<open>REQ_ARENA_RETAIN_MAX\<close> bytes and empty, stays. Destroying the arena and then the thread's cache
  frees every chunk exactly once.
\<close>

theorem arena_chunks_conserved:
  assumes "arena_inv a"
  defines "r \<equiv> req_arena_reset a" and "d \<equiv> req_arena_cache_destroy_tls (req_arena_destroy a)"
  shows "arena_inv r \<and> mset (live_addrs r) + mset (ar_freed r) = mset (live_addrs a) + mset (ar_freed a) \<and>
    length (ar_chunks r) \<le> 1 \<and> (\<forall>c\<in>set (ar_chunks r). ch_off c = 0 \<and> ch_cap c \<le> REQ_ARENA_RETAIN_MAX) \<and>
    live_addrs d = [] \<and> mset (ar_freed d) = mset (live_addrs a) + mset (ar_freed a)"
proof -
  have "arena_inv r \<and> mset (live_addrs r) + mset (ar_freed r) = mset (live_addrs a) + mset (ar_freed a)"
  proof (cases "ar_chunks a")
    case Nil
    then show ?thesis using assms(1) by (simp add: r_def req_arena_reset_def)
  next
    case (Cons first rest)
    then show ?thesis using reset_moved [OF assms(1)] by (simp add: r_def)
  qed
  moreover have "live_addrs d = []" "mset (ar_freed d) = mset (live_addrs a) + mset (ar_freed a)"
    using destroy_conserves(2) [OF assms(1)]
    by (simp_all add: d_def req_arena_cache_destroy_tls_def live_addrs_def req_arena_destroy_def
        union_commute)
  ultimately show ?thesis using reset_chunks [of a] by (simp add: r_def)
qed

definition busy_arena :: req_arena where
  "busy_arena = empty_arena\<lparr>ar_chunks :=
     [\<lparr>ch_addr = 1, ch_cap = 2000, ch_off = 7, ch_mem = 2000\<rparr>,
      \<lparr>ch_addr = 2, ch_cap = 1024, ch_off = 9, ch_mem = 1024\<rparr>,
      \<lparr>ch_addr = 3, ch_cap = 9000, ch_off = 9000, ch_mem = 9000\<rparr>]\<rparr>"

theorem arena_chunks_conserved_witness:
  "arena_inv (req_arena_reset busy_arena) \<and>
   live_addrs (req_arena_reset busy_arena) = [1, 2] \<and> ar_freed (req_arena_reset busy_arena) = [3] \<and>
   mset (ar_freed (req_arena_cache_destroy_tls (req_arena_destroy busy_arena))) = {#1, 2, 3#}"
proof -
  have "arena_inv busy_arena"
    by (auto simp: arena_inv_def busy_arena_def empty_arena_def live_addrs_def chunk_ok_def)
  note arena_chunks_conserved [OF this]
  then show ?thesis
    by (auto simp: busy_arena_def empty_arena_def req_arena_reset_def req_arena_release_chunk_def
        live_addrs_def REQ_ARENA_CHUNK_MIN_def REQ_ARENA_RETAIN_MAX_def REQ_ARENA_CHUNK_CACHE_CAP_def Let_def)
qed

end
