(* ===== verification/Types.thy ===== *)
theory Types
  imports Prelude
begin

text \<open>
  The enumerations that the components share: \<^verbatim>\<open>src/include/types.h\<close> (response and deadline
  kinds, feature bits) and \<^verbatim>\<open>src/include/tx.h\<close> (decisions of the transmit state machine).
\<close>

datatype op_type =
    OP_CLOSE | OP_WRITE | OP_WRITE_READY | OP_READ | OP_ACCEPT | OP_WAKE | OP_SWEEP
  | OP_ACCEPT_BACKOFF

datatype resp_kind =
    RK_NONE | RK_OK_CLOSE | RK_OK_KA | RK_206 | RK_301 | RK_304 | RK_400 | RK_401 | RK_416
  | RK_403 | RK_404 | RK_405 | RK_408 | RK_413 | RK_431 | RK_500 | RK_501 | RK_503

datatype deadline_kind =
    DK_NONE | DK_DRAIN | DK_KA_IDLE | DK_INITIAL_IDLE | DK_HEADER_TIMEOUT | DK_BODY_TIMEOUT
  | DK_WRITE_TIMEOUT

datatype tx_io_kind = TX_IO_HEADERS | TX_IO_SENDFILE

datatype tx_decision =
    TX_NOOP | TX_SEND_HEADERS | TX_START_SENDFILE | TX_RESUME_SENDFILE | TX_ARM_POLLOUT
  | TX_CANCEL_POLLOUT | TX_SHUT_WR_AND_READ | TX_DONE_KEEPALIVE | TX_DONE_CLOSE | TX_ERROR_CLOSE

datatype tx_after_action =
    TX_AFTER_CLOSE | TX_AFTER_SHUT_WR_AND_READ | TX_AFTER_KEEPALIVE_RESET

datatype tx_sendfile_step =
    TX_SF_STEP_RETRY | TX_SF_STEP_RESUME | TX_SF_STEP_ARM_POLLOUT | TX_SF_STEP_ERROR_CLOSE
  | TX_SF_STEP_SHUT_WR_AND_READ | TX_SF_STEP_AFTER_FULL_RESPONSE

definition CRLF :: string where
  "CRLF = [CR, LF]"

text \<open>
  Effects on the outside that the components perform, recorded in order: memory returned to the
  allocator and descriptors closed.
\<close>

datatype eff = Free nat | Close_fd int

end
