(* ===== verification/Http_Date.thy ===== *)
theory Http_Date
  imports Decimal
begin

text \<open>
  \<^verbatim>\<open>time_format_http_date\<close> of \<^verbatim>\<open>src/include/time_utils.h\<close>: the IMF-fixdate of the \<open>Date\<close> and
  \<open>Last-Modified\<close> headers. \<open>gmtime_r\<close> of the C library is modelled for times from the epoch on:
  the day number is split into a year of the Gregorian calendar, a month and a day; before the
  epoch the broken-down time is not defined here and the formatter is not applied.
\<close>

section \<open>The calendar\<close>

record tm =
  tm_year :: nat
  tm_mon :: nat
  tm_mday :: nat
  tm_wday :: nat
  tm_hour :: nat
  tm_min :: nat
  tm_sec :: nat

definition leap :: "nat \<Rightarrow> bool" where
  "leap y \<longleftrightarrow> y mod 4 = 0 \<and> y mod 100 \<noteq> 0 \<or> y mod 400 = 0"

definition month_days :: "nat \<Rightarrow> nat list" where
  "month_days y = [31, if leap y then 29 else 28, 31, 30, 31, 30, 31, 31, 30, 31, 30, 31]"

definition year_days :: "nat \<Rightarrow> nat" where
  "year_days y = (if leap y then 366 else 365)"

function split_year :: "nat \<Rightarrow> nat \<Rightarrow> nat \<times> nat" where
  "split_year y d = (if d < year_days y then (y, d) else split_year (y + 1) (d - year_days y))"
  by auto
termination by (relation "measure snd") (auto simp: year_days_def split: if_splits)

declare split_year.simps [simp del]

fun split_month :: "nat list \<Rightarrow> nat \<Rightarrow> nat \<Rightarrow> nat \<times> nat" where
  "split_month [] m d = (m, d)"
| "split_month (n # ns) m d = (if d < n then (m, d) else split_month ns (m + 1) (d - n))"

definition gmtime_r :: "nat \<Rightarrow> tm" where
  "gmtime_r t =
     (let days = t div 86400; s = t mod 86400;
          (y, yd) = split_year 1970 days;
          (m, d) = split_month (month_days y) 0 yd
      in \<lparr>tm_year = y - 1900, tm_mon = m, tm_mday = d + 1, tm_wday = (days + 4) mod 7,
          tm_hour = s div 3600, tm_min = s mod 3600 div 60, tm_sec = s mod 60\<rparr>)"

section \<open>The formatter\<close>

definition day_names :: "string list" where
  "day_names = [''Sun'', ''Mon'', ''Tue'', ''Wed'', ''Thu'', ''Fri'', ''Sat'']"

definition month_names :: "string list" where
  "month_names = [''Jan'', ''Feb'', ''Mar'', ''Apr'', ''May'', ''Jun'',
     ''Jul'', ''Aug'', ''Sep'', ''Oct'', ''Nov'', ''Dec'']"

text \<open>The conversion \<open>%0wd\<close>.\<close>

definition pad0 :: "nat \<Rightarrow> nat \<Rightarrow> string" where
  "pad0 w n = (let s = show_nat n in replicate (w - length s) (CHR ''0'') @ s)"

definition http_date_text :: "tm \<Rightarrow> string" where
  "http_date_text tm =
     day_names ! tm_wday tm @ '', '' @ pad0 2 (tm_mday tm) @ '' '' @ month_names ! tm_mon tm @ '' ''
     @ pad0 4 (1900 + tm_year tm) @ '' '' @ pad0 2 (tm_hour tm) @ '':'' @ pad0 2 (tm_min tm) @ '':''
     @ pad0 2 (tm_sec tm) @ '' GMT''"

text \<open>The result is \<open>None\<close> where the C function returns 0.\<close>

definition time_format_http_date :: "nat \<Rightarrow> nat \<Rightarrow> string option" where
  "time_format_http_date cap when =
     (if cap = 0 then None
      else
        (let tm = gmtime_r when
         in if tm_wday tm > 6 \<or> tm_mon tm > 11 then None
            else
              (let s = http_date_text tm
               in if length s = 0 \<or> length s \<ge> cap then None else Some s)))"

section \<open>The calendar is inverted by day counting\<close>

text \<open>The reference: the number of days before a date, counted year by year and month by month.\<close>

definition days_before :: "nat \<Rightarrow> nat \<Rightarrow> nat \<Rightarrow> nat" where
  "days_before y m d = (\<Sum>i\<in>{1970..<y}. year_days i) + sum_list (take m (month_days y)) + d"

definition timegm :: "tm \<Rightarrow> nat" where
  "timegm tm =
     days_before (1900 + tm_year tm) (tm_mon tm) (tm_mday tm - 1) * 86400 +
     tm_hour tm * 3600 + tm_min tm * 60 + tm_sec tm"

lemma sum_month_days: "sum_list (month_days y) = year_days y"
  by (simp add: month_days_def year_days_def)

lemma split_year_spec:
  "split_year y d = (y', d') \<Longrightarrow>
     y \<le> y' \<and> d' < year_days y' \<and> d = (\<Sum>i\<in>{y..<y'}. year_days i) + d'"
proof (induction y d arbitrary: y' d' rule: split_year.induct)
  case (1 y d)
  show ?case
  proof (cases "d < year_days y")
    case True
    then show ?thesis using 1 by (simp add: split_year.simps [of y d])
  next
    case False
    then have "split_year (y + 1) (d - year_days y) = (y', d')"
      using "1.prems" by (simp add: split_year.simps [of y d])
    from "1.IH" [OF False this] show ?thesis
      using False by (auto simp: sum.atLeast_Suc_lessThan)
  qed
qed

lemma split_month_spec:
  "split_month ns m d = (m', d') \<Longrightarrow> d < sum_list ns \<Longrightarrow>
     m \<le> m' \<and> m' < m + length ns \<and> d' < ns ! (m' - m) \<and> d = sum_list (take (m' - m) ns) + d'"
proof (induction ns arbitrary: m d)
  case (Cons n ns)
  show ?case
  proof (cases "d < n")
    case False
    then have "split_month ns (m + 1) (d - n) = (m', d')" "d - n < sum_list ns"
      using Cons.prems by auto
    from Cons.IH [OF this] show ?thesis
      using False by (auto simp: take_Cons' nth_Cons')
  qed (use Cons.prems in auto)
qed simp

lemma gmtime_r_fields:
  fixes t :: nat
  defines "x \<equiv> gmtime_r t"
  shows "tm_wday x \<le> 6" "tm_mon x \<le> 11" "tm_hour x < 24" "tm_min x < 60" "tm_sec x < 60"
    "1 \<le> tm_mday x" "tm_mday x \<le> 31" "timegm x = t" "70 \<le> tm_year x"
proof -
  obtain y yd where y: "split_year 1970 (t div 86400) = (y, yd)" by (cases "split_year 1970 (t div 86400)")
  obtain m d where m: "split_month (month_days y) 0 yd = (m, d)" by (cases "split_month (month_days y) 0 yd")
  note Y = split_year_spec [OF y]
  have M: "m < 12" "d < month_days y ! m" "yd = sum_list (take m (month_days y)) + d"
    using split_month_spec [OF m] Y by (auto simp: sum_month_days) (simp add: month_days_def)
  have x: "x = \<lparr>tm_year = y - 1900, tm_mon = m, tm_mday = d + 1, tm_wday = (t div 86400 + 4) mod 7,
    tm_hour = t mod 86400 div 3600, tm_min = t mod 86400 mod 3600 div 60, tm_sec = t mod 86400 mod 60\<rparr>"
    unfolding x_def gmtime_r_def Let_def y prod.case m ..
  show "tm_wday x \<le> 6" "tm_mon x \<le> 11" "tm_hour x < 24" "tm_min x < 60" "tm_sec x < 60"
    "1 \<le> tm_mday x" "70 \<le> tm_year x"
    using M(1) Y by (auto simp: x)
  have "month_days y ! m \<le> 31"
    using M(1) by (auto simp: month_days_def less_Suc_eq numeral_eq_Suc)
  then show "tm_mday x \<le> 31" using M(2) by (simp add: x)
  have "days_before (1900 + (y - 1900)) m d = t div 86400"
    using Y M(3) by (simp add: days_before_def)
  then have "timegm x = t div 86400 * 86400 + (t mod 86400 div 3600 * 3600
    + t mod 86400 mod 3600 div 60 * 60 + t mod 86400 mod 60)"
    by (simp add: x timegm_def)
  moreover have "s div 3600 * 3600 + s mod 3600 div 60 * 60 + s mod 60 = s" for s :: nat
  proof -
    have "s mod 3600 mod 60 = s mod 60" by (rule mod_mod_cancel) simp
    then show ?thesis
      using div_mult_mod_eq [of s 3600] div_mult_mod_eq [of "s mod 3600" 60] by linarith
  qed
  ultimately show "timegm x = t" by simp
qed

text \<open>The number of days of the first \<open>y\<close> years in closed form.\<close>

lemma div_ceil_step:
  fixes y k :: nat
  assumes "0 < k"
  shows "(y + k) div k = (y + (k - 1)) div k + (if y mod k = 0 then 1 else 0)"
proof -
  define q r where "q = y div k" and "r = y mod k"
  have y: "y = r + q * k" by (simp add: q_def r_def)
  have "r < k" using assms by (simp add: r_def)
  then have "(r + (k - 1)) div k = (if r = 0 then 0 else 1)"
    by (auto intro!: div_nat_eqI)
  moreover have "y + (k - 1) = r + (k - 1) + q * k" by (simp only: y add.assoc add.left_commute add.commute)
  then have "(y + (k - 1)) div k = q + (r + (k - 1)) div k"
    using assms by (simp only: div_mult_self1 [of k "r + (k - 1)" q])
  ultimately have "(y + (k - 1)) div k = q + (if r = 0 then 0 else 1)" by simp
  moreover have "(y + k) div k = q + 1" using assms div_add_self2 [of k y] by (simp add: q_def)
  ultimately show ?thesis by (simp add: r_def)
qed

lemma sum_year_days:
  "(\<Sum>i<y. year_days i) + (y + 99) div 100 = 365 * y + (y + 3) div 4 + (y + 399) div 400"
proof (induction y)
  case (Suc y)
  have "y mod 400 = 0 \<Longrightarrow> y mod 100 = 0" "y mod 100 = 0 \<Longrightarrow> y mod 4 = 0"
    using dvd_trans [of 100 400 y] dvd_trans [of 4 100 y] by (auto simp: mod_eq_0_iff_dvd)
  then have yd: "year_days y + (if y mod 100 = 0 then 1 else 0) =
    365 + (if y mod 4 = 0 then 1 else 0) + (if y mod 400 = 0 then 1 else 0)"
    by (auto simp: year_days_def leap_def)
  have add: "S + d + c' = 365 * Suc y + a' + e'"
    if "S + c = 365 * y + a + e" "d + k = 365 + i + j" "a' = a + i" "c' = c + k" "e' = e + j"
    for S a c e d i j k a' c' e' :: nat
    using that by simp
  have "Suc y + 3 = y + 4" "Suc y + 99 = y + 100" "Suc y + 399 = y + 400" by simp_all
  then have "(Suc y + 3) div 4 = (y + 3) div 4 + (if y mod 4 = 0 then 1 else 0)"
    "(Suc y + 99) div 100 = (y + 99) div 100 + (if y mod 100 = 0 then 1 else 0)"
    "(Suc y + 399) div 400 = (y + 399) div 400 + (if y mod 400 = 0 then 1 else 0)"
    using div_ceil_step [of 4 y] div_ceil_step [of 100 y] div_ceil_step [of 400 y]
    by (simp_all add: add.commute)
  from add [OF Suc yd this] show ?case by simp
qed simp

lemma gmtime_r_year:
  assumes "t < 253402300800"
  shows "1900 + tm_year (gmtime_r t) < 10000"
proof (rule ccontr)
  obtain y yd where y: "split_year 1970 (t div 86400) = (y, yd)" by (cases "split_year 1970 (t div 86400)")
  note Y = split_year_spec [OF y]
  assume "\<not> 1900 + tm_year (gmtime_r t) < 10000"
  then have "10000 \<le> y" using Y y by (auto simp: gmtime_r_def Let_def split_beta)
  then have "(\<Sum>i\<in>{1970..<10000}. year_days i) \<le> (\<Sum>i\<in>{1970..<y}. year_days i)"
    by (intro sum_mono2) auto
  also have "\<dots> \<le> t div 86400" using Y by simp
  finally have le: "(\<Sum>i\<in>{1970..<10000}. year_days i) \<le> t div 86400" .
  have "(\<Sum>i<10000. year_days i) = (\<Sum>i<1970. year_days i) + (\<Sum>i\<in>{1970..<10000}. year_days i)"
    by (simp add: sum.atLeastLessThan_concat lessThan_atLeast0)
  then have "(\<Sum>i\<in>{1970..<10000}. year_days i) = 2932897"
    using sum_year_days [of 10000] sum_year_days [of 1970] by simp
  with le assms show False by simp
qed

section \<open>Reading a date back\<close>

definition index_of :: "string \<Rightarrow> string list \<Rightarrow> nat" where
  "index_of s names = length (takeWhile (\<lambda>n. n \<noteq> s) names)"

text \<open>A fixed-column reader of the IMF-fixdate format (RFC 7231, section 7.1.1.1).\<close>

definition read_http_date :: "string \<Rightarrow> nat" where
  "read_http_date s =
     timegm \<lparr>tm_year = dec_value (take 4 (drop 12 s)) - 1900,
       tm_mon = index_of (take 3 (drop 8 s)) month_names, tm_mday = dec_value (take 2 (drop 5 s)),
       tm_wday = index_of (take 3 s) day_names, tm_hour = dec_value (take 2 (drop 17 s)),
       tm_min = dec_value (take 2 (drop 20 s)), tm_sec = dec_value (take 2 (drop 23 s))\<rparr>"

lemma length_show_nat: "n < 10 ^ w \<Longrightarrow> 0 < w \<Longrightarrow> length (show_nat n) \<le> w"
proof (induction w arbitrary: n)
  case (Suc w)
  show ?case
  proof (cases "n < 10")
    case True
    then show ?thesis by (simp add: show_nat.simps [of n])
  next
    case False
    then have "n div 10 < 10 ^ w" "0 < w"
      using Suc.prems by (auto simp: less_mult_imp_div_less mult.commute intro: gr0I)
    then show ?thesis using Suc.IH [of "n div 10"] False by (simp add: show_nat.simps [of n])
  qed
qed simp

lemma length_pad0: "n < 10 ^ w \<Longrightarrow> 0 < w \<Longrightarrow> length (pad0 w n) = w"
  using length_show_nat [of n w] by (simp add: pad0_def Let_def)

lemma dec_value_pad0 [simp]: "dec_value (pad0 w n) = n"
proof -
  have "foldl (\<lambda>v c. v * 10 + digit_val c) 0 (replicate k (CHR ''0'') @ s) =
    foldl (\<lambda>v c. v * 10 + digit_val c) 0 s" for k s
    by (induction k) (simp_all add: digit_val_def)
  then have "dec_value (replicate k (CHR ''0'') @ s) = dec_value s" for k s
    by (simp add: dec_value_def)
  then show ?thesis by (simp add: pad0_def Let_def)
qed

lemma month_name_facts:
  assumes "m \<le> 11"
  shows "length (month_names ! m) = 3" "index_of (month_names ! m) month_names = m"
proof -
  have "\<forall>m\<in>set [0..<12]. length (month_names ! m) = 3 \<and> index_of (month_names ! m) month_names = m"
    by code_simp
  with assms show "length (month_names ! m) = 3" "index_of (month_names ! m) month_names = m"
    by auto
qed

lemma day_name_length: "d \<le> 6 \<Longrightarrow> length (day_names ! d) = 3"
proof -
  have "\<forall>d\<in>set [0..<7]. length (day_names ! d) = 3" by code_simp
  then show "d \<le> 6 \<Longrightarrow> length (day_names ! d) = 3" by auto
qed

lemma http_date_text_length:
  assumes "t < 253402300800"
  shows "length (http_date_text (gmtime_r t)) = 29"
  using gmtime_r_fields [of t] gmtime_r_year [OF assms]
  by (simp add: http_date_text_def day_name_length month_name_facts length_pad0)

lemma read_http_date_text:
  assumes "t < 253402300800"
  shows "read_http_date (http_date_text (gmtime_r t)) = t"
proof -
  let ?x = "gmtime_r t"
  let ?s = "http_date_text ?x"
  note f = gmtime_r_fields [of t] gmtime_r_year [OF assms]
  have len: "length (day_names ! tm_wday ?x) = 3" "length (month_names ! tm_mon ?x) = 3"
    "length (pad0 2 (tm_mday ?x)) = 2" "length (pad0 4 (1900 + tm_year ?x)) = 4"
    "length (pad0 2 (tm_hour ?x)) = 2" "length (pad0 2 (tm_min ?x)) = 2"
    "length (pad0 2 (tm_sec ?x)) = 2"
    using f by (simp_all add: day_name_length month_name_facts length_pad0)
  have "take 4 (drop 12 ?s) = pad0 4 (1900 + tm_year ?x)" "take 3 (drop 8 ?s) = month_names ! tm_mon ?x"
    "take 2 (drop 5 ?s) = pad0 2 (tm_mday ?x)" "take 2 (drop 17 ?s) = pad0 2 (tm_hour ?x)"
    "take 2 (drop 20 ?s) = pad0 2 (tm_min ?x)" "take 2 (drop 23 ?s) = pad0 2 (tm_sec ?x)"
    unfolding http_date_text_def by (simp_all add: len)
  then have "read_http_date ?s = timegm ?x"
    using month_name_facts(2) [OF f(2)] by (simp add: read_http_date_def timegm_def)
  then show ?thesis using f(8) by simp
qed

text \<open>
  C23: for every time from the epoch to the end of the year 9999 the formatter succeeds on the
  40-byte buffer its callers pass, writes exactly 29 characters, and the text denotes that very
  second: reading its columns back and counting days in the Gregorian calendar gives the time.
\<close>

theorem http_date_roundtrip:
  assumes "t < 253402300800"
  shows "\<exists>s. time_format_http_date 40 t = Some s \<and> length s = 29 \<and> read_http_date s = t"
  using gmtime_r_fields [of t] http_date_text_length [OF assms] read_http_date_text [OF assms]
  by (auto simp: time_format_http_date_def Let_def)

theorem http_date_roundtrip_witness:
  "(784111777::nat) < 253402300800 \<and>
   (\<exists>s. time_format_http_date 40 784111777 = Some s \<and> length s = 29 \<and> read_http_date s = 784111777)"
  using http_date_roundtrip [of 784111777] by simp

end
