(* ===== verification/Tx.thy ===== *)
theory Tx
  imports Types Http_Date "HOL-Library.Multiset"
begin

text \<open>
  The transmit state of a connection, \<^verbatim>\<open>src/src/tx.c\<close>: the staged response head, partial sends,
  the attached file body and the decisions the event loop acts on. A buffer pointer is the byte
  string it points to (\<open>None\<close> for \<open>NULL\<close>); \<open>dyn_buf\<close> is the address of the block the state owns.
  Operations return the list of \<open>free\<close> and \<open>close\<close> calls they make. Results of system calls are
  integers, negative ones being negated \<open>errno\<close> values. The test hooks compiled in by
  \<open>ENABLE_ITEST_ECHO\<close> are left out.
\<close>

section \<open>The model\<close>

record tx_state_t =
  write_len :: nat
  write_off :: nat
  content_length_hint :: nat
  write_buf :: "string option"
  dyn_buf :: "nat option"
  tx_resp_kind :: resp_kind
  tx_keepalive :: bool
  drain_after_headers :: bool
  write_poll_armed :: bool
  recv_armed :: bool
  file_fd :: int
  file_rem :: nat
  file_off :: int

definition EAGAIN :: int where "EAGAIN = 11"
definition EINTR :: int where "EINTR = 4"

definition tx_is_eagain :: "int \<Rightarrow> bool" where
  "tx_is_eagain sent \<longleftrightarrow> sent = - EAGAIN"

text \<open>The thread's cached \<open>Date\<close> line: the second it was made for and the text.\<close>

record date_cache =
  cached_date_sec :: "nat option"
  cached_date_line :: string

definition date_cache_empty :: date_cache where
  "date_cache_empty = \<lparr>cached_date_sec = None, cached_date_line = []\<rparr>"

text \<open>\<open>now\<close> is the result of \<open>time(NULL)\<close>, \<open>None\<close> for the error value.\<close>

definition tx_cached_date_header_line :: "nat option \<Rightarrow> date_cache \<Rightarrow> string \<times> date_cache" where
  "tx_cached_date_header_line now g =
     (case now of
        None \<Rightarrow> ([], date_cache_empty)
      | Some t \<Rightarrow>
          (if cached_date_sec g = Some t \<and> cached_date_line g \<noteq> [] then (cached_date_line g, g)
           else
             (case time_format_http_date 40 t of
                None \<Rightarrow> ([], date_cache_empty)
              | Some v \<Rightarrow>
                  (let line = ''Date: '' @ v @ CRLF
                   in if length line \<ge> 64 then ([], date_cache_empty)
                      else (line, \<lparr>cached_date_sec = Some t, cached_date_line = line\<rparr>)))))"

definition tx_init :: tx_state_t where
  "tx_init =
     \<lparr>write_len = 0, write_off = 0, content_length_hint = 0, write_buf = None, dyn_buf = None,
      tx_resp_kind = RK_NONE, tx_keepalive = False, drain_after_headers = False,
      write_poll_armed = False, recv_armed = False, file_fd = - 1, file_rem = 0, file_off = 0\<rparr>"

definition free_dyn :: "tx_state_t \<Rightarrow> eff list" where
  "free_dyn tx = (case dyn_buf tx of None \<Rightarrow> [] | Some p \<Rightarrow> [Free p])"

definition tx_close_attached_file :: "tx_state_t \<Rightarrow> tx_state_t \<times> eff list" where
  "tx_close_attached_file tx =
     (if file_fd tx \<ge> 0
      then (tx\<lparr>file_fd := - 1, file_off := 0, file_rem := 0\<rparr>, [Close_fd (file_fd tx)])
      else (tx\<lparr>file_off := 0, file_rem := 0\<rparr>, []))"

definition tx_reset :: "tx_state_t \<Rightarrow> tx_state_t \<times> eff list" where
  "tx_reset tx =
     (let (tx1, es) = tx_close_attached_file tx
      in (tx1\<lparr>dyn_buf := None, write_buf := None, write_len := 0, write_off := 0,
              content_length_hint := 0, tx_resp_kind := RK_NONE, write_poll_armed := False,
              tx_keepalive := False, drain_after_headers := False, recv_armed := False\<rparr>,
          es @ free_dyn tx1))"

text \<open>The bytes to hand to \<open>send\<close> next are the last component of a result.\<close>

definition tx_begin_headers ::
    "resp_kind \<Rightarrow> string option \<Rightarrow> nat \<Rightarrow> bool \<Rightarrow> bool \<Rightarrow> tx_state_t \<Rightarrow>
     tx_decision \<times> tx_state_t \<times> string" where
  "tx_begin_headers rk buf len ka drain tx =
     (if buf = None \<or> len = 0 then (TX_ERROR_CLOSE, tx, [])
      else
        (TX_SEND_HEADERS,
         tx\<lparr>tx_resp_kind := rk, write_buf := buf, write_len := len, write_off := 0,
            tx_keepalive := ka, drain_after_headers := drain\<rparr>,
         take len (the buf)))"

definition content_lines :: "string option \<Rightarrow> bool \<Rightarrow> nat \<Rightarrow> string option" where
  "content_lines content_type emit_cl content_len =
     (let cl = ''Content-Length: '' @ show_nat content_len @ CRLF;
          s = (case content_type of
                 Some ct \<Rightarrow> ''Content-Type: '' @ ct @ CRLF @ cl
               | None \<Rightarrow> if emit_cl then cl else [])
      in if length s \<ge> 128 then None else Some s)"

definition head_text :: "string \<Rightarrow> string \<Rightarrow> string \<Rightarrow> bool \<Rightarrow> string \<Rightarrow> string" where
  "head_text status_line date_hdr lines ka extra =
     ''HTTP/1.1 '' @ status_line @ CRLF @ date_hdr @ lines @
     ''Connection: '' @ (if ka then ''keep-alive'' else ''close'') @ CRLF @ extra @ CRLF"

text \<open>
  \<open>mem\<close> is the result of \<open>malloc\<close>. \<open>snprintf\<close> fails when the text is longer than \<open>INT_MAX\<close>.
\<close>

definition tx_build_headers ::
    "nat option \<Rightarrow> nat option \<Rightarrow> string \<Rightarrow> string option \<Rightarrow> bool \<Rightarrow> nat \<Rightarrow> string option \<Rightarrow> nat \<Rightarrow>
     bool \<Rightarrow> bool \<Rightarrow> string option \<Rightarrow> tx_state_t \<Rightarrow> date_cache \<Rightarrow>
     string option \<times> (tx_state_t \<times> date_cache) \<times> eff list" where
  "tx_build_headers mem now status_line content_type emit_cl content_len body body_send_len ka drain
     extra tx g =
     (if body_send_len > 0 \<and> body = None then (None, (tx, g), [])
      else
        (let (date_hdr, g1) = tx_cached_date_header_line now g
         in case content_lines content_type emit_cl content_len of
              None \<Rightarrow> (None, (tx, g1), [])
            | Some lines \<Rightarrow>
                (let head = head_text status_line date_hdr lines ka (case extra of None \<Rightarrow> [] | Some e \<Rightarrow> e)
                 in if length head > 2147483647 then (None, (tx, g1), [])
                    else if body_send_len > 18446744073709551615 - length head - 1
                    then (None, (tx, g1), [])
                    else
                      (case mem of
                         None \<Rightarrow> (None, (tx, g1), [])
                       | Some p \<Rightarrow>
                           (Some (head @ take body_send_len (case body of None \<Rightarrow> [] | Some b \<Rightarrow> b)),
                            (tx\<lparr>dyn_buf := Some p, content_length_hint := content_len,
                                tx_keepalive := ka, drain_after_headers := drain\<rparr>, g1),
                            free_dyn tx)))))"

definition tx_begin_sendfile :: "int \<Rightarrow> nat \<Rightarrow> tx_state_t \<Rightarrow> tx_state_t" where
  "tx_begin_sendfile off len tx = tx\<lparr>file_rem := len, file_off := off\<rparr>"

definition tx_attach_sendfile :: "int \<Rightarrow> int \<Rightarrow> nat \<Rightarrow> tx_state_t \<Rightarrow> bool \<times> tx_state_t \<times> eff list" where
  "tx_attach_sendfile fd off len tx =
     (if fd < 0 \<or> len = 0 then (False, tx, [])
      else
        (let (tx1, es) = tx_close_attached_file tx
         in (True, tx1\<lparr>file_fd := fd, file_rem := len, file_off := off\<rparr>, es)))"

definition tx_sendfile_is_active :: "tx_state_t \<Rightarrow> bool" where
  "tx_sendfile_is_active tx \<longleftrightarrow> file_fd tx \<ge> 0 \<and> file_rem tx > 0"

definition done_decision :: "tx_state_t \<Rightarrow> tx_decision" where
  "done_decision tx = (if tx_keepalive tx then TX_DONE_KEEPALIVE else TX_DONE_CLOSE)"

definition tx_pending_headers :: "tx_state_t \<Rightarrow> string option" where
  "tx_pending_headers tx =
     (case write_buf tx of
        None \<Rightarrow> None
      | Some b \<Rightarrow>
          (if write_len tx = 0 \<or> write_off tx \<ge> write_len tx then None
           else Some (take (write_len tx - write_off tx) (drop (write_off tx) b))))"

definition tx_on_io_result ::
    "tx_io_kind \<Rightarrow> int \<Rightarrow> tx_state_t \<Rightarrow> tx_decision \<times> tx_state_t \<times> string" where
  "tx_on_io_result kind sent tx =
     (if sent = 0 then (TX_ERROR_CLOSE, tx, [])
      else if sent < 0 then
        (if tx_is_eagain sent then (TX_ARM_POLLOUT, tx, [])
         else if kind = TX_IO_SENDFILE \<and> sent = - EINTR then (TX_NOOP, tx, [])
         else (TX_ERROR_CLOSE, tx, []))
      else
        (case kind of
           TX_IO_HEADERS \<Rightarrow>
             (if write_buf tx = None \<or> write_len tx = 0 then (TX_ERROR_CLOSE, tx, [])
              else
                (let tx1 = tx\<lparr>write_off := write_off tx + nat sent\<rparr>
                 in if write_off tx1 < write_len tx1 then
                      (TX_SEND_HEADERS, tx1,
                       take (write_len tx1 - write_off tx1) (drop (write_off tx1) (the (write_buf tx1))))
                    else if drain_after_headers tx1 then (TX_SHUT_WR_AND_READ, tx1, [])
                    else if tx_sendfile_is_active tx1 then (TX_START_SENDFILE, tx1, [])
                    else (done_decision tx1, tx1, [])))
         | TX_IO_SENDFILE \<Rightarrow>
             (if file_rem tx = 0 then (done_decision tx, tx, [])
              else
                (let s = (if nat sent > file_rem tx then file_rem tx else nat sent);
                     tx1 = tx\<lparr>file_rem := file_rem tx - s\<rparr>
                 in if file_rem tx1 > 0 then (TX_RESUME_SENDFILE, tx1, [])
                    else (done_decision tx1, tx1, [])))))"

definition tx_on_pollout :: "tx_state_t \<Rightarrow> tx_decision \<times> string" where
  "tx_on_pollout tx =
     (if tx_sendfile_is_active tx \<and> (write_buf tx = None \<or> write_off tx \<ge> write_len tx)
      then (TX_RESUME_SENDFILE, [])
      else
        (case tx_pending_headers tx of
           Some b \<Rightarrow> if tx_resp_kind tx \<noteq> RK_NONE then (TX_SEND_HEADERS, b) else (TX_NOOP, [])
         | None \<Rightarrow> (TX_NOOP, [])))"

definition tx_notify_poll_armed :: "tx_state_t \<Rightarrow> tx_state_t" where
  "tx_notify_poll_armed tx = tx\<lparr>write_poll_armed := True\<rparr>"

definition tx_notify_poll_disarmed_staged :: "tx_state_t \<Rightarrow> tx_state_t" where
  "tx_notify_poll_disarmed_staged tx = tx\<lparr>write_poll_armed := False\<rparr>"

definition tx_recv_mark_armed :: "tx_state_t \<Rightarrow> tx_state_t" where
  "tx_recv_mark_armed tx = tx\<lparr>recv_armed := True\<rparr>"

definition tx_recv_mark_disarmed :: "tx_state_t \<Rightarrow> tx_state_t" where
  "tx_recv_mark_disarmed tx = tx\<lparr>recv_armed := False\<rparr>"

definition tx_should_arm_pollout :: "tx_state_t \<Rightarrow> bool" where
  "tx_should_arm_pollout tx \<longleftrightarrow> \<not> write_poll_armed tx"

definition tx_discard :: "tx_state_t \<Rightarrow> tx_state_t \<times> eff list" where
  "tx_discard tx =
     (tx\<lparr>dyn_buf := None, write_buf := None, write_len := 0, write_off := 0\<rparr>, free_dyn tx)"

definition tx_after_full_response :: "bool \<Rightarrow> tx_state_t \<Rightarrow> tx_after_action" where
  "tx_after_full_response conn_draining tx =
     (if conn_draining \<and> tx_resp_kind tx = RK_431 then TX_AFTER_SHUT_WR_AND_READ
      else if tx_resp_kind tx = RK_503 then TX_AFTER_CLOSE
      else if tx_keepalive tx then TX_AFTER_KEEPALIVE_RESET
      else TX_AFTER_CLOSE)"

definition TX_MAX_SENDFILE_CHUNK :: nat where
  "TX_MAX_SENDFILE_CHUNK = 1048576"

definition tx_next_sendfile_chunk :: "tx_state_t \<Rightarrow> nat" where
  "tx_next_sendfile_chunk tx =
     (if file_rem tx = 0 then 0
      else if file_rem tx > TX_MAX_SENDFILE_CHUNK then TX_MAX_SENDFILE_CHUNK else file_rem tx)"

fun tx_sendfile_step_from_decision :: "tx_decision \<Rightarrow> tx_sendfile_step" where
  "tx_sendfile_step_from_decision TX_RESUME_SENDFILE = TX_SF_STEP_RESUME"
| "tx_sendfile_step_from_decision TX_NOOP = TX_SF_STEP_RETRY"
| "tx_sendfile_step_from_decision TX_ARM_POLLOUT = TX_SF_STEP_ARM_POLLOUT"
| "tx_sendfile_step_from_decision TX_ERROR_CLOSE = TX_SF_STEP_ERROR_CLOSE"
| "tx_sendfile_step_from_decision TX_SHUT_WR_AND_READ = TX_SF_STEP_SHUT_WR_AND_READ"
| "tx_sendfile_step_from_decision _ = TX_SF_STEP_AFTER_FULL_RESPONSE"

section \<open>Delivery\<close>

text \<open>
  The environment of the state machine: the kernel accepts some of the bytes offered to it (at
  least one, at most what was offered), or refuses and later reports the socket writable.
\<close>

datatype kernel = Accepts nat | Refuses

record wire_state =
  ws_tx :: tx_state_t
  ws_dec :: tx_decision
  ws_out :: string
  ws_wire :: string

definition clamp :: "nat \<Rightarrow> nat \<Rightarrow> nat" where
  "clamp n limit = max 1 (min n limit)"

definition send_step :: "kernel \<Rightarrow> wire_state \<Rightarrow> wire_state" where
  "send_step io w =
     (case io of
        Accepts n \<Rightarrow>
          (let k = clamp n (length (ws_out w));
               (d, tx, out) = tx_on_io_result TX_IO_HEADERS (int k) (ws_tx w)
           in \<lparr>ws_tx = tx, ws_dec = d, ws_out = out, ws_wire = ws_wire w @ take k (ws_out w)\<rparr>)
      | Refuses \<Rightarrow>
          (let (d, tx, out) = tx_on_io_result TX_IO_HEADERS (- EAGAIN) (ws_tx w);
               (d', out') = tx_on_pollout tx
           in w\<lparr>ws_tx := tx, ws_dec := (if d = TX_ARM_POLLOUT then d' else d), ws_out := out'\<rparr>))"

text \<open>\<open>sendfile\<close> advances the file offset itself.\<close>

definition file_step :: "string \<Rightarrow> kernel \<Rightarrow> wire_state \<Rightarrow> wire_state" where
  "file_step content io w =
     (case io of
        Accepts n \<Rightarrow>
          (let tx0 = ws_tx w;
               k = clamp n (tx_next_sendfile_chunk tx0);
               (d, tx, out) =
                 tx_on_io_result TX_IO_SENDFILE (int k) (tx0\<lparr>file_off := file_off tx0 + int k\<rparr>)
           in \<lparr>ws_tx = tx, ws_dec = d, ws_out = out,
               ws_wire = ws_wire w @ take k (drop (nat (file_off tx0)) content)\<rparr>)
      | Refuses \<Rightarrow>
          (let (d, tx, out) = tx_on_io_result TX_IO_SENDFILE (- EAGAIN) (ws_tx w);
               (d', out') = tx_on_pollout tx
           in w\<lparr>ws_tx := tx, ws_dec := (if d = TX_ARM_POLLOUT then d' else d), ws_out := out'\<rparr>))"

definition wire_step :: "string \<Rightarrow> kernel \<Rightarrow> wire_state \<Rightarrow> wire_state" where
  "wire_step content io w =
     (if ws_dec w = TX_SEND_HEADERS then send_step io w
      else if ws_dec w = TX_START_SENDFILE \<or> ws_dec w = TX_RESUME_SENDFILE then file_step content io w
      else w)"

definition file_part :: "string \<Rightarrow> tx_state_t \<Rightarrow> string" where
  "file_part content tx =
     (if tx_sendfile_is_active tx \<and> \<not> drain_after_headers tx
      then take (file_rem tx) (drop (nat (file_off tx)) content) else [])"

definition final_decision :: "tx_state_t \<Rightarrow> tx_decision" where
  "final_decision tx = (if drain_after_headers tx then TX_SHUT_WR_AND_READ else done_decision tx)"

text \<open>The bytes still owed to the peer, and the shape of the state while they are.\<close>

definition owed :: "string \<Rightarrow> wire_state \<Rightarrow> string" where
  "owed content w =
     (if ws_dec w = TX_SEND_HEADERS then ws_out w @ file_part content (ws_tx w)
      else if ws_dec w = TX_START_SENDFILE \<or> ws_dec w = TX_RESUME_SENDFILE
      then file_part content (ws_tx w) else [])"

definition wire_inv :: "string \<Rightarrow> wire_state \<Rightarrow> bool" where
  "wire_inv content w \<longleftrightarrow>
     (let tx = ws_tx w in
        tx_resp_kind tx \<noteq> RK_NONE \<and> write_buf tx \<noteq> None \<and> write_len tx = length (the (write_buf tx)) \<and>
        write_len tx > 0 \<and> 0 \<le> file_off tx \<and>
        (tx_sendfile_is_active tx \<longrightarrow> nat (file_off tx) + file_rem tx \<le> length content) \<and>
        (ws_dec w = TX_SEND_HEADERS \<and> write_off tx < write_len tx \<and>
           ws_out w = drop (write_off tx) (the (write_buf tx)) \<or>
         (ws_dec w = TX_START_SENDFILE \<or> ws_dec w = TX_RESUME_SENDFILE) \<and>
           write_off tx \<ge> write_len tx \<and> tx_sendfile_is_active tx \<and> \<not> drain_after_headers tx \<or>
         ws_dec w = final_decision tx))"

lemmas wire_simps = wire_inv_def owed_def file_part_def Let_def final_decision_def done_decision_def
  tx_sendfile_is_active_def

lemma wire_inv_base:
  assumes "wire_inv content w"
  shows "tx_resp_kind (ws_tx w) \<noteq> RK_NONE" "write_len (ws_tx w) = length (the (write_buf (ws_tx w)))"
    "write_len (ws_tx w) > 0" "write_buf (ws_tx w) \<noteq> None" "0 \<le> file_off (ws_tx w)"
    "tx_sendfile_is_active (ws_tx w) \<Longrightarrow>
       nat (file_off (ws_tx w)) + file_rem (ws_tx w) \<le> length content"
  using assms by (auto simp: wire_inv_def Let_def)

lemma write_off_irrelevant [simp]:
  "tx_sendfile_is_active (tx\<lparr>write_off := x\<rparr>) = tx_sendfile_is_active tx"
  "file_part content (tx\<lparr>write_off := x\<rparr>) = file_part content tx"
  "final_decision (tx\<lparr>write_off := x\<rparr>) = final_decision tx"
  by (simp_all add: tx_sendfile_is_active_def file_part_def final_decision_def done_decision_def)

lemma clamp_bounds: "0 < limit \<Longrightarrow> 0 < clamp n limit \<and> clamp n limit \<le> limit"
  by (auto simp: clamp_def)

lemma final_not_io [simp]:
  "final_decision tx \<noteq> TX_SEND_HEADERS" "final_decision tx \<noteq> TX_START_SENDFILE"
  "final_decision tx \<noteq> TX_RESUME_SENDFILE"
  by (auto simp: final_decision_def done_decision_def)

definition advances :: "string \<Rightarrow> kernel \<Rightarrow> wire_state \<Rightarrow> wire_state \<Rightarrow> bool" where
  "advances content io w w' \<longleftrightarrow>
     wire_inv content w' \<and> ws_wire w' @ owed content w' = ws_wire w @ owed content w \<and>
     final_decision (ws_tx w') = final_decision (ws_tx w) \<and>
     (io \<noteq> Refuses \<longrightarrow> length (ws_wire w) < length (ws_wire w')) \<and>
     length (ws_wire w) \<le> length (ws_wire w')"

lemma send_accepts:
  assumes inv: "wire_inv content w" and d: "ws_dec w = TX_SEND_HEADERS"
  shows "advances content (Accepts n) w (send_step (Accepts n) w)"
proof -
  let ?tx = "ws_tx w"
  define k where "k = clamp n (length (ws_out w))"
  obtain b where b: "write_buf ?tx = Some b" "write_len ?tx = length b" "write_off ?tx < length b"
    "ws_out w = drop (write_off ?tx) b"
    using inv d by (auto simp: wire_inv_def Let_def final_decision_def done_decision_def split: if_splits)
  then have k: "0 < k" "k \<le> length b - write_off ?tx"
    using clamp_bounds [of "length (ws_out w)" n] by (auto simp: k_def)
  let ?tx1 = "?tx\<lparr>write_off := write_off ?tx + k\<rparr>"
  have res: "tx_on_io_result TX_IO_HEADERS (int k) ?tx =
    (if write_off ?tx + k < length b then (TX_SEND_HEADERS, ?tx1, drop (write_off ?tx + k) b)
     else if drain_after_headers ?tx then (TX_SHUT_WR_AND_READ, ?tx1, [])
     else if tx_sendfile_is_active ?tx then (TX_START_SENDFILE, ?tx1, [])
     else (done_decision ?tx, ?tx1, []))"
    using b k by (auto simp: tx_on_io_result_def Let_def tx_sendfile_is_active_def done_decision_def)
  have step: "send_step (Accepts n) w =
    (case tx_on_io_result TX_IO_HEADERS (int k) ?tx of (d, tx, out) \<Rightarrow>
       \<lparr>ws_tx = tx, ws_dec = d, ws_out = out, ws_wire = ws_wire w @ take k (ws_out w)\<rparr>)"
    by (simp add: send_step_def k_def Let_def)
  have split: "take k (drop (write_off ?tx) b) @ drop (write_off ?tx + k) b = drop (write_off ?tx) b"
    by (metis add.commute append_take_drop_id drop_drop)
  note base = wire_inv_base [OF inv]
  have owed: "owed content w = drop (write_off ?tx) b @ file_part content ?tx"
    using d b by (simp add: owed_def)
  have grows: "length (ws_wire w) < length (ws_wire w @ take k (drop (write_off ?tx) b))"
    using b(3) k(1) by simp
  consider (more) "write_off ?tx + k < length b"
    | (stop) "write_off ?tx + k \<ge> length b" "tx_sendfile_is_active ?tx \<longrightarrow> drain_after_headers ?tx"
    | (body) "write_off ?tx + k \<ge> length b" "\<not> drain_after_headers ?tx" "tx_sendfile_is_active ?tx"
    by force
  then show ?thesis
  proof cases
    case more
    then show ?thesis
      unfolding advances_def step res owed
      using base b k split grows by (simp add: wire_inv_def owed_def Let_def)
  next
    case stop
    then have "tx_on_io_result TX_IO_HEADERS (int k) ?tx = (final_decision ?tx, ?tx1, [])"
      using res by (simp add: final_decision_def)
    moreover have "file_part content ?tx = []" using stop by (auto simp: file_part_def)
    ultimately show ?thesis
      unfolding advances_def step owed
      using stop base b k split grows by (simp add: wire_inv_def owed_def Let_def)
  next
    case body
    then show ?thesis
      unfolding advances_def step res owed
      using base b k split grows by (simp add: wire_inv_def owed_def Let_def)
  qed
qed

lemma pollout_headers:
  assumes "wire_inv content w" "ws_dec w = TX_SEND_HEADERS"
  shows "tx_on_pollout (ws_tx w) = (TX_SEND_HEADERS, ws_out w)"
  using assms
  by (auto simp: wire_inv_def tx_on_pollout_def tx_pending_headers_def Let_def final_decision_def
      done_decision_def split: if_splits)

lemma send_refuses:
  assumes "wire_inv content w" "ws_dec w = TX_SEND_HEADERS"
  shows "send_step Refuses w = w"
  using pollout_headers [OF assms] assms(2)
  by (simp add: send_step_def tx_on_io_result_def tx_is_eagain_def EAGAIN_def Let_def)

lemma file_accepts:
  assumes inv: "wire_inv content w" and d: "ws_dec w = TX_START_SENDFILE \<or> ws_dec w = TX_RESUME_SENDFILE"
  shows "advances content (Accepts n) w (file_step content (Accepts n) w)"
proof -
  let ?tx = "ws_tx w"
  define k where "k = clamp n (tx_next_sendfile_chunk ?tx)"
  define off where "off = nat (file_off ?tx)"
  have st: "write_off ?tx \<ge> write_len ?tx" "file_fd ?tx \<ge> 0" "file_rem ?tx > 0" "\<not> drain_after_headers ?tx"
    "off + file_rem ?tx \<le> length content" "file_off ?tx = int off"
    using inv d by (auto simp: wire_inv_def Let_def tx_sendfile_is_active_def off_def)
  have k: "0 < k" "k \<le> file_rem ?tx"
    using clamp_bounds [of "tx_next_sendfile_chunk ?tx" n] st(3)
    by (auto simp: k_def tx_next_sendfile_chunk_def TX_MAX_SENDFILE_CHUNK_def split: if_splits)
  let ?tx1 = "?tx\<lparr>file_off := file_off ?tx + int k, file_rem := file_rem ?tx - k\<rparr>"
  have res: "tx_on_io_result TX_IO_SENDFILE (int k) (?tx\<lparr>file_off := file_off ?tx + int k\<rparr>) =
    (if k < file_rem ?tx then (TX_RESUME_SENDFILE, ?tx1, []) else (done_decision ?tx, ?tx1, []))"
    using st k by (auto simp: tx_on_io_result_def Let_def done_decision_def)
  have step: "file_step content (Accepts n) w =
    (case tx_on_io_result TX_IO_SENDFILE (int k) (?tx\<lparr>file_off := file_off ?tx + int k\<rparr>) of (d, tx, out) \<Rightarrow>
       \<lparr>ws_tx = tx, ws_dec = d, ws_out = out, ws_wire = ws_wire w @ take k (drop off content)\<rparr>)"
    by (simp add: file_step_def k_def off_def Let_def)
  have split: "take k (drop off content) @ take (file_rem ?tx - k) (drop (off + k) content) =
    take (file_rem ?tx) (drop off content)"
    using k by (metis add.commute drop_drop le_add_diff_inverse take_add)
  note base = wire_inv_base [OF inv]
  have owed: "owed content w = take (file_rem ?tx) (drop off content)"
    using d st by (auto simp: owed_def file_part_def tx_sendfile_is_active_def)
  consider "k < file_rem ?tx" | "k = file_rem ?tx" using k by linarith
  then show ?thesis
    unfolding advances_def step res owed
    by cases (use base st k split in \<open>simp_all add: wire_simps nat_int_add\<close>)
qed

lemma file_refuses:
  assumes "wire_inv content w" "ws_dec w = TX_START_SENDFILE \<or> ws_dec w = TX_RESUME_SENDFILE"
  shows "advances content Refuses w (file_step content Refuses w)"
proof -
  have "tx_on_pollout (ws_tx w) = (TX_RESUME_SENDFILE, [])"
    using assms by (auto simp: wire_inv_def tx_on_pollout_def Let_def)
  then have "file_step content Refuses w = w\<lparr>ws_dec := TX_RESUME_SENDFILE, ws_out := []\<rparr>"
    by (simp add: file_step_def tx_on_io_result_def tx_is_eagain_def EAGAIN_def Let_def)
  then show ?thesis
    using assms by (auto simp: advances_def wire_inv_def owed_def Let_def)
qed

lemma wire_inv_cases:
  assumes "wire_inv content w"
  obtains (head) "ws_dec w = TX_SEND_HEADERS" "ws_out w \<noteq> []"
    | (body) "ws_dec w = TX_START_SENDFILE \<or> ws_dec w = TX_RESUME_SENDFILE" "file_part content (ws_tx w) \<noteq> []"
    | (finished) "ws_dec w = final_decision (ws_tx w)"
  using assms wire_inv_base [OF assms]
  by (auto simp: wire_inv_def Let_def file_part_def tx_sendfile_is_active_def)

lemma owed_Nil_iff:
  assumes "wire_inv content w"
  shows "owed content w = [] \<longleftrightarrow> ws_dec w = final_decision (ws_tx w)"
  using assms
proof (cases rule: wire_inv_cases)
  case head
  then show ?thesis by (simp add: owed_def final_not_io [symmetric])
next
  case body
  then show ?thesis by (auto simp: owed_def final_not_io [symmetric])
next
  case finished
  then show ?thesis by (simp add: owed_def)
qed

lemma wire_step_advances:
  assumes inv: "wire_inv content w" and busy: "ws_dec w \<noteq> final_decision (ws_tx w)"
  shows "advances content io w (wire_step content io w)"
proof -
  consider (h) "ws_dec w = TX_SEND_HEADERS"
    | (f) "ws_dec w = TX_START_SENDFILE \<or> ws_dec w = TX_RESUME_SENDFILE"
    using wire_inv_cases [OF inv] busy by blast
  then show ?thesis
  proof cases
    case h
    then have "advances content io w (send_step io w)"
      using send_accepts [OF inv h] send_refuses [OF inv h] inv by (cases io) (auto simp: advances_def)
    then show ?thesis using h by (simp add: wire_step_def)
  next
    case f
    then have "advances content io w (file_step content io w)"
      using file_accepts [OF inv f] file_refuses [OF inv f] by (cases io) auto
    then show ?thesis using f by (auto simp: wire_step_def)
  qed
qed

lemma wire_step_done: "ws_dec w = final_decision (ws_tx w) \<Longrightarrow> wire_step content io w = w"
  by (simp add: wire_step_def)

abbreviation accepted :: "kernel list \<Rightarrow> nat" where
  "accepted ios \<equiv> length (filter (\<lambda>io. io \<noteq> Refuses) ios)"

lemma wire_run:
  "wire_inv content w \<Longrightarrow> w' = fold (wire_step content) ios w \<Longrightarrow>
     wire_inv content w' \<and> ws_wire w' @ owed content w' = ws_wire w @ owed content w \<and>
     final_decision (ws_tx w') = final_decision (ws_tx w) \<and>
     (ws_dec w' = final_decision (ws_tx w') \<or> length (ws_wire w) + accepted ios \<le> length (ws_wire w'))"
proof (induction ios arbitrary: w)
  case (Cons io ios)
  let ?w1 = "wire_step content io w"
  show ?case
  proof (cases "ws_dec w = final_decision (ws_tx w)")
    case True
    then have "fold (wire_step content) xs w = w" for xs
      by (induction xs) (simp_all add: wire_step_done)
    then show ?thesis using Cons.prems True by (metis append_self_conv)
  next
    case False
    from wire_step_advances [OF Cons.prems(1) False, of io]
    have a: "advances content io w ?w1" .
    then show ?thesis
      using Cons.IH [of ?w1] Cons.prems(2) by (auto simp: advances_def split: if_splits)
  qed
qed simp

text \<open>The file attached to a response: descriptor, offset and length, if any.\<close>

definition staged :: "resp_kind \<Rightarrow> string \<Rightarrow> bool \<Rightarrow> bool \<Rightarrow> (int \<times> nat \<times> nat) option \<Rightarrow> wire_state" where
  "staged rk buf ka drain src =
     (let tx1 = (case src of
                   None \<Rightarrow> tx_init
                 | Some (fd, off, len) \<Rightarrow> fst (snd (tx_attach_sendfile fd (int off) len tx_init)));
          (d, tx, out) = tx_begin_headers rk (Some buf) (length buf) ka drain tx1
      in \<lparr>ws_tx = tx, ws_dec = d, ws_out = out, ws_wire = []\<rparr>)"

fun body_of :: "string \<Rightarrow> (int \<times> nat \<times> nat) option \<Rightarrow> string" where
  "body_of content None = []"
| "body_of content (Some (fd, off, len)) = take len (drop off content)"

fun file_ok :: "string \<Rightarrow> (int \<times> nat \<times> nat) option \<Rightarrow> bool" where
  "file_ok content None \<longleftrightarrow> True"
| "file_ok content (Some (fd, off, len)) \<longleftrightarrow> 0 \<le> fd \<and> 0 < len \<and> off + len \<le> length content"

lemma staged_inv:
  fixes ka drain :: bool
  assumes "buf \<noteq> []" "rk \<noteq> RK_NONE" "file_ok content src"
  defines "w \<equiv> staged rk buf ka drain src"
  shows "wire_inv content w \<and>
    owed content w = buf @ (if drain then [] else body_of content src) \<and> ws_wire w = [] \<and>
    final_decision (ws_tx w) =
      (if drain then TX_SHUT_WR_AND_READ else if ka then TX_DONE_KEEPALIVE else TX_DONE_CLOSE)"
proof (cases src)
  case None
  then show ?thesis
    using assms by (simp add: staged_def tx_init_def tx_begin_headers_def wire_inv_def owed_def
        file_part_def tx_sendfile_is_active_def Let_def final_decision_def done_decision_def)
next
  case (Some f)
  then show ?thesis
    using assms by (cases f) (simp add: staged_def tx_init_def tx_attach_sendfile_def
        tx_close_attached_file_def tx_begin_headers_def wire_inv_def owed_def file_part_def
        tx_sendfile_is_active_def Let_def final_decision_def done_decision_def)
qed

text \<open>
  C6: a staged response is delivered exactly. Whatever the kernel accepts of each offer, with any
  number of refusals in between, the bytes on the wire are at all times a prefix of the head
  followed by the attached part of the file (the head alone when draining); the machine reports
  completion exactly when all of them are out, with the decision that was asked for; and it never
  stalls: it is done or at least one byte has left per accepted offer.
\<close>

theorem tx_delivers_exactly:
  fixes ka drain :: bool and ios :: "kernel list"
  assumes "buf \<noteq> []" "rk \<noteq> RK_NONE" "file_ok content src"
  defines "w \<equiv> fold (wire_step content) ios (staged rk buf ka drain src)"
    and "response \<equiv> buf @ (if drain then [] else body_of content src)"
    and "fin \<equiv> (if drain then TX_SHUT_WR_AND_READ else if ka then TX_DONE_KEEPALIVE else TX_DONE_CLOSE)"
  shows "(\<exists>rest. response = ws_wire w @ rest) \<and> (ws_dec w = fin \<longleftrightarrow> ws_wire w = response) \<and>
    (ws_dec w = fin \<or> accepted ios \<le> length (ws_wire w)) \<and>
    ws_dec w \<in> {TX_SEND_HEADERS, TX_START_SENDFILE, TX_RESUME_SENDFILE, fin}"
proof -
  note s = staged_inv [OF assms(1-3), where ka = ka and drain = drain]
  note r = wire_run [OF conjunct1 [OF s] w_def [THEN meta_eq_to_obj_eq]]
  have resp: "response = ws_wire w @ owed content w"
    using r s by (simp add: response_def)
  have fin: "final_decision (ws_tx w) = fin" using r s by (simp add: fin_def)
  have "owed content w = [] \<longleftrightarrow> ws_dec w = fin"
    using owed_Nil_iff [of content w] r fin by simp
  moreover have "ws_dec w \<in> {TX_SEND_HEADERS, TX_START_SENDFILE, TX_RESUME_SENDFILE, fin}"
    using wire_inv_cases [of content w] r fin by auto
  moreover have "ws_dec w = fin \<or> accepted ios \<le> length (ws_wire w)"
    using r s unfolding fin [symmetric] by fastforce
  ultimately show ?thesis unfolding resp by simp
qed

definition sample_run :: wire_state where
  "sample_run = fold (wire_step ''0123456789'')
     [Accepts 2, Refuses, Accepts 9, Accepts 1, Refuses, Accepts 7]
     (staged RK_206 ''head'' True False (Some (5, 3, 4)))"

theorem tx_delivers_exactly_witness:
  "(\<exists>rest. ''head3456'' = ws_wire sample_run @ rest) \<and>
   (ws_dec sample_run = TX_DONE_KEEPALIVE \<longleftrightarrow> ws_wire sample_run = ''head3456'')"
  using tx_delivers_exactly [of "''head''" RK_206 "''0123456789''" "Some (5, 3, 4)",
      where ka = True and drain = False and
        ios = "[Accepts 2, Refuses, Accepts 9, Accepts 1, Refuses, Accepts 7]",
      folded sample_run_def] by simp

section \<open>Ownership\<close>

text \<open>The releases a transmit state still owes: its buffer and its attached file.\<close>

definition owes :: "tx_state_t \<Rightarrow> eff multiset" where
  "owes tx =
     mset (free_dyn tx) + (if file_fd tx \<ge> 0 then {#Close_fd (file_fd tx)#} else {#})"

definition built :: "string option \<Rightarrow> nat option \<Rightarrow> eff multiset" where
  "built r mem = (if r = None then {#} else {#Free (the mem)#})"

lemma tx_build_headers_owes:
  assumes "tx_build_headers mem now st ct ecl cl body n ka drain extra tx g = (r, (tx', g'), es)"
  shows "owes tx' + mset es = owes tx + built r mem"
  using assms
  by (auto simp: tx_build_headers_def owes_def built_def free_dyn_def Let_def
      split: if_splits option.splits prod.splits)

lemma tx_attach_sendfile_owes:
  assumes "tx_attach_sendfile fd off len tx = (ok, tx', es)"
  shows "owes tx' + mset es = owes tx + (if ok then {#Close_fd fd#} else {#})"
  using assms
  by (auto simp: tx_attach_sendfile_def tx_close_attached_file_def owes_def free_dyn_def Let_def
      split: if_splits)

text \<open>
  C25: no response buffer and no file descriptor is leaked or released twice. Each operation that
  takes or releases one conserves the multiset of releases still owed plus those performed: a
  successful build takes over its new buffer and frees the previous one, attaching a file takes
  over its descriptor and closes the previous one, a failed call takes over nothing, discarding
  frees the buffer and keeps the file, and a reset performs exactly the releases owed and leaves
  none.
\<close>

theorem tx_resources_conserved:
  "(tx_build_headers mem now st ct ecl cl body n ka drain extra tx g = (r, (tb, g'), eb) \<longrightarrow>
      owes tb + mset eb = owes tx + built r mem) \<and>
   (tx_attach_sendfile fd off len tx = (ok, tf, ef) \<longrightarrow>
      owes tf + mset ef = owes tx + (if ok then {#Close_fd fd#} else {#})) \<and>
   owes (fst (tx_discard tx)) + mset (snd (tx_discard tx)) = owes tx \<and>
   owes (fst (tx_close_attached_file tx)) + mset (snd (tx_close_attached_file tx)) = owes tx \<and>
   owes (fst (tx_reset tx)) = {#} \<and> mset (snd (tx_reset tx)) = owes tx"
proof -
  have "owes (fst (tx_discard tx)) + mset (snd (tx_discard tx)) = owes tx"
    by (simp add: tx_discard_def owes_def free_dyn_def)
  moreover have "owes (fst (tx_close_attached_file tx)) + mset (snd (tx_close_attached_file tx)) = owes tx"
    by (simp add: tx_close_attached_file_def owes_def free_dyn_def)
  moreover have "owes (fst (tx_reset tx)) = {#}" "mset (snd (tx_reset tx)) = owes tx"
    by (simp_all add: tx_reset_def tx_close_attached_file_def owes_def free_dyn_def Let_def split_beta)
  ultimately show ?thesis
    by (intro conjI impI) (assumption | erule tx_build_headers_owes tx_attach_sendfile_owes)+
qed

theorem tx_resources_conserved_witness:
  "tx_attach_sendfile 9 0 100 (tx_init\<lparr>file_fd := 4, file_rem := 1, dyn_buf := Some 77\<rparr>) =
     (True, tx_init\<lparr>file_fd := 9, file_rem := 100, dyn_buf := Some 77\<rparr>, [Close_fd 4]) \<and>
   owes (tx_init\<lparr>file_fd := 9, file_rem := 100, dyn_buf := Some 77\<rparr>) + {#Close_fd 4#} =
     owes (tx_init\<lparr>file_fd := 4, file_rem := 1, dyn_buf := Some 77\<rparr>) + {#Close_fd 9#}"
proof -
  let ?tx = "tx_init\<lparr>file_fd := 4, file_rem := 1, dyn_buf := Some 77\<rparr>"
    and ?tx2 = "tx_init\<lparr>file_fd := 9, file_rem := 100, dyn_buf := Some 77\<rparr>"
  have eq: "tx_attach_sendfile 9 0 100 ?tx = (True, ?tx2, [Close_fd 4])"
    by (simp add: tx_attach_sendfile_def tx_close_attached_file_def tx_init_def)
  have "tx_attach_sendfile 9 0 100 ?tx = (True, ?tx2, [Close_fd 4]) \<longrightarrow>
    owes ?tx2 + mset [Close_fd 4] = owes ?tx + (if True then {#Close_fd 9#} else {#})"
    by (rule conjunct1 [OF conjunct2 [OF tx_resources_conserved]])
  with eq show ?thesis by simp
qed

end
