(* ===== verification/Response_Head.thy ===== *)
theory Response_Head
  imports Tx Rx_Stash
begin

text \<open>
  The response head that \<^verbatim>\<open>tx_build_headers\<close> prints, seen as a list of header lines: what the cached
  \<open>Date\<close> line is, which lines a response has, and where the head ends for whoever scans it.
\<close>

section \<open>The date cache\<close>

definition date_text :: "nat option \<Rightarrow> string option" where
  "date_text now = (case now of None \<Rightarrow> None | Some t \<Rightarrow> time_format_http_date 40 t)"

definition date_line :: "nat option \<Rightarrow> string" where
  "date_line now = (case date_text now of None \<Rightarrow> [] | Some v \<Rightarrow> ''Date: '' @ v @ CRLF)"

definition date_cache_ok :: "date_cache \<Rightarrow> bool" where
  "date_cache_ok g \<longleftrightarrow>
     (\<forall>t. cached_date_sec g = Some t \<longrightarrow> cached_date_line g \<noteq> [] \<longrightarrow> cached_date_line g = date_line (Some t))"

lemma time_format_length: "time_format_http_date cap t = Some v \<Longrightarrow> length v < cap"
  by (auto simp: time_format_http_date_def Let_def split: if_splits)

lemma cached_date_coherent:
  assumes "date_cache_ok g" "tx_cached_date_header_line now g = (line, g')"
  shows "line = date_line now" "date_cache_ok g'"
  using assms
  by (auto simp: tx_cached_date_header_line_def date_cache_ok_def date_cache_empty_def date_line_def
      date_text_def Let_def CRLF_def dest: time_format_length split: option.splits if_splits)

section \<open>Lines\<close>

definition clean_line :: "string \<Rightarrow> bool" where
  "clean_line l \<longleftrightarrow> l \<noteq> [] \<and> CR \<notin> set l \<and> LF \<notin> set l"

definition print_lines :: "string list \<Rightarrow> string" where
  "print_lines ls = concat (map (\<lambda>l. l @ CRLF) ls)"

lemma print_lines_simps [simp]:
  "print_lines [] = []" "print_lines (l # ls) = l @ CRLF @ print_lines ls"
  "print_lines (xs @ ys) = print_lines xs @ print_lines ys"
  by (simp_all add: print_lines_def)

lemma window_scan_run:
  "LF \<notin> set l \<Longrightarrow>
     window_scan w0 w1 w2 w3 i (l @ rest) =
     (let ws = [w0, w1, w2, w3] @ l; n = length l
      in window_scan (ws ! n) (ws ! (n + 1)) (ws ! (n + 2)) (ws ! (n + 3)) (i + n) rest)"
proof (induction l arbitrary: w0 w1 w2 w3 i)
  case (Cons c l)
  then have "c \<noteq> LF" by auto
  with Cons show ?case by (simp add: Let_def)
qed (simp add: numeral_eq_Suc)

lemma window_scan_line:
  assumes "clean_line l"
  obtains a where "window_scan w0 w1 w2 w3 i (l @ CRLF @ rest) =
    window_scan a (last l) CR LF (i + length l + 2) rest"
proof -
  let ?ws = "[w0, w1, w2, w3] @ l @ [CR]"
  let ?n = "length l"
  have len: "?n \<noteq> 0" using assms by (simp add: clean_line_def)
  have last: "?ws ! (?n + 3) = last l"
    using len by (cases l rule: rev_exhaust) (simp_all add: nth_append)
  have "?ws ! (?n + 4) = CR" by (simp add: nth_append)
  moreover have "LF \<notin> set (l @ [CR])" using assms by (simp add: clean_line_def)
  ultimately have "window_scan w0 w1 w2 w3 i ((l @ [CR]) @ LF # rest) =
    window_scan (?ws ! (?n + 1)) (?ws ! (?n + 2)) (last l) CR (i + ?n + 1) (LF # rest)"
    using last by (subst window_scan_run) (simp_all add: Let_def numeral_eq_Suc)
  moreover have "last l \<noteq> LF" using assms by (metis clean_line_def last_in_set)
  ultimately show thesis using that [of "?ws ! (?n + 2)"] by (simp add: CRLF_def)
qed

lemma window_scan_lines:
  "ls \<noteq> [] \<Longrightarrow> \<forall>l\<in>set ls. clean_line l \<Longrightarrow>
     window_scan w0 w1 w2 w3 i (print_lines ls @ CRLF @ body) = Some (i + length (print_lines ls) + 2)"
proof (induction ls arbitrary: w0 w1 w2 w3 i)
  case (Cons l ls)
  obtain a where a: "window_scan w0 w1 w2 w3 i (l @ CRLF @ print_lines ls @ CRLF @ body) =
    window_scan a (last l) CR LF (i + length l + 2) (print_lines ls @ CRLF @ body)"
    using window_scan_line [of l w0 w1 w2 w3 i "print_lines ls @ CRLF @ body"] Cons.prems
    by (metis list.set_intros(1))
  show ?case
  proof (cases "ls = []")
    case True
    then show ?thesis using a by (simp add: CRLF_def)
  next
    case False
    then show ?thesis
      using a Cons.IH [OF False, of a "last l" CR LF "i + length l + 2"] Cons.prems by (simp add: CRLF_def)
  qed
qed simp

lemma terminator_after_lines:
  assumes "ls \<noteq> []" "\<forall>l\<in>set ls. clean_line l"
  shows "http_find_header_terminator_end None (Some (print_lines ls @ CRLF @ body)) =
    Some (length (print_lines ls @ CRLF))"
  using window_scan_lines [OF assms, of NUL NUL NUL NUL 0 body] window_scan_start
  by (simp add: find_terminator_first ptr_bytes_def CRLF_def)

section \<open>The lines of a response\<close>

definition response_lines ::
    "string \<Rightarrow> string option \<Rightarrow> string option \<Rightarrow> bool \<Rightarrow> nat \<Rightarrow> bool \<Rightarrow> string list \<Rightarrow> string list" where
  "response_lines status date ct emit_cl cl ka extra =
     [''HTTP/1.1 '' @ status] @
     (case date of None \<Rightarrow> [] | Some v \<Rightarrow> [''Date: '' @ v]) @
     (case ct of None \<Rightarrow> [] | Some t \<Rightarrow> [''Content-Type: '' @ t]) @
     (if ct \<noteq> None \<or> emit_cl then [''Content-Length: '' @ show_nat cl] else []) @
     [''Connection: '' @ (if ka then ''keep-alive'' else ''close'')] @ extra"

lemma head_text_lines:
  assumes "content_lines ct emit_cl cl = Some lines"
  shows "head_text status (date_line now) lines ka (print_lines extra) =
    print_lines (response_lines status (date_text now) ct emit_cl cl ka extra) @ CRLF"
proof -
  have "lines = (case ct of None \<Rightarrow> if emit_cl then ''Content-Length: '' @ show_nat cl @ CRLF else []
    | Some t \<Rightarrow> ''Content-Type: '' @ t @ CRLF @ ''Content-Length: '' @ show_nat cl @ CRLF)"
    using assms by (auto simp: content_lines_def Let_def split: if_splits option.splits)
  then show ?thesis
    by (cases ct; cases "date_text now"; simp add: head_text_def response_lines_def date_line_def)
qed

lemma date_chars:
  assumes "time_format_http_date cap t = Some v"
  shows "CR \<notin> set v" "LF \<notin> set v"
proof -
  have v: "v = http_date_text (gmtime_r t)"
    using assms by (auto simp: time_format_http_date_def Let_def split: if_splits)
  have digits: "c \<in> set (pad0 w n) \<Longrightarrow> is_digit c" for c w n
    using show_nat_digits by (auto simp: pad0_def Let_def is_digit_def)
  have "\<not> is_digit CR" "\<not> is_digit LF" by (simp_all add: is_digit_def)
  then have pad: "CR \<notin> set (pad0 w n)" "LF \<notin> set (pad0 w n)" for w n
    using digits by blast+
  have "\<forall>d\<in>set [0..<7]. CR \<notin> set (day_names ! d) \<and> LF \<notin> set (day_names ! d)"
    "\<forall>m\<in>set [0..<12]. CR \<notin> set (month_names ! m) \<and> LF \<notin> set (month_names ! m)"
    by code_simp+
  then have names: "CR \<notin> set (day_names ! d)" "LF \<notin> set (day_names ! d)" "CR \<notin> set (month_names ! m)"
    "LF \<notin> set (month_names ! m)" if "d \<le> 6" "m \<le> 11" for d m
    using that by auto
  show "CR \<notin> set v" "LF \<notin> set v"
    using pad names [OF gmtime_r_fields(1,2) [of t]] by (simp_all add: v http_date_text_def)
qed

lemma show_nat_clean: "CR \<notin> set (show_nat n)" "LF \<notin> set (show_nat n)"
  using show_nat_digits [of CR n] show_nat_digits [of LF n] by (auto simp: is_digit_def)

lemma response_lines_clean:
  assumes "clean_line status" "\<forall>t. ct = Some t \<longrightarrow> clean_line t" "\<forall>l\<in>set extra. clean_line l"
  shows "\<forall>l\<in>set (response_lines status (date_text now) ct emit_cl cl ka extra). clean_line l"
  using assms date_chars show_nat_clean
  by (auto simp: response_lines_def clean_line_def date_text_def split: option.splits)

lemma response_lines_not_Nil: "response_lines status date ct emit_cl cl ka extra \<noteq> []"
  by (simp add: response_lines_def)

text \<open>
  C24: the head of a response ends where its bytes say. When the builder succeeds on a status,
  content type and extra header lines without line breaks, its output is the printed list of
  exactly the status, \<open>Date\<close>, \<open>Content-Type\<close>, \<open>Content-Length\<close>, \<open>Connection\<close> and extra lines, an
  empty line and the body; and the first header terminator in the output - found by the server's
  own boundary scan - is the end of that head, whatever the body contains.
\<close>

theorem response_head_framing:
  assumes "date_cache_ok g" "clean_line status" "\<forall>t. ct = Some t \<longrightarrow> clean_line t"
    "\<forall>l\<in>set extra. clean_line l"
    "tx_build_headers mem now status ct emit_cl cl body n ka drain (Some (print_lines extra)) tx g =
      (Some resp, (tx', g'), es)"
  defines "head \<equiv> print_lines (response_lines status (date_text now) ct emit_cl cl ka extra) @ CRLF"
  shows "resp = head @ take n (ptr_bytes body) \<and>
    http_find_header_terminator_end None (Some resp) = Some (length head) \<and> date_cache_ok g'"
proof -
  obtain line g1 where d: "tx_cached_date_header_line now g = (line, g1)" by (cases "tx_cached_date_header_line now g")
  note line = cached_date_coherent [OF assms(1) d]
  obtain lines where lines: "content_lines ct emit_cl cl = Some lines"
    using assms(5) d by (auto simp: tx_build_headers_def Let_def split: if_splits option.splits)
  have "resp = head_text status (date_line now) lines ka (print_lines extra) @ take n (ptr_bytes body)" "g' = g1"
    using assms(5) d lines line(1)
    by (auto simp: tx_build_headers_def Let_def ptr_bytes_def split: if_splits option.splits)
  then have resp: "resp = head @ take n (ptr_bytes body)" "date_cache_ok g'"
    using head_text_lines [OF lines] line(2) by (simp_all add: head_def)
  moreover have "http_find_header_terminator_end None (Some resp) = Some (length head)"
    unfolding resp head_def append_assoc
    by (rule terminator_after_lines [OF response_lines_not_Nil response_lines_clean [OF assms(2-4)]])
  ultimately show ?thesis by blast
qed

theorem response_head_framing_witness:
  "\<exists>resp tx' g' es.
     tx_build_headers (Some 7) None ''200 OK'' (Some ''text/plain'') True 5 (Some ''hello'') 5 True False
       (Some (print_lines [''X-A: b''])) tx_init date_cache_empty = (Some resp, (tx', g'), es) \<and>
     http_find_header_terminator_end None (Some resp) =
       Some (length (print_lines (response_lines ''200 OK'' None (Some ''text/plain'') True 5 True [''X-A: b'']) @ CRLF))"
proof -
  obtain resp tx' g' es where eq:
    "tx_build_headers (Some 7) None ''200 OK'' (Some ''text/plain'') True 5 (Some ''hello'') 5 True False
       (Some (print_lines [''X-A: b''])) tx_init date_cache_empty = (Some resp, (tx', g'), es)"
    by (simp add: tx_build_headers_def tx_cached_date_header_line_def content_lines_def head_text_def
        show_nat.simps Let_def CRLF_def)
  have "date_cache_ok date_cache_empty" by (simp add: date_cache_ok_def date_cache_empty_def)
  then have "http_find_header_terminator_end None (Some resp) =
    Some (length (print_lines (response_lines ''200 OK'' None (Some ''text/plain'') True 5 True [''X-A: b'']) @ CRLF))"
    using response_head_framing [OF _ _ _ _ eq] by (auto simp: clean_line_def date_text_def)
  with eq show ?thesis by blast
qed

end
