(* ===== verification/Http_Headers.thy ===== *)
theory Http_Headers
  imports Types
begin

unbundle bit_operations_syntax

text \<open>
  Request headers the server keeps: \<^verbatim>\<open>src/src/http_headers.c\<close>, \<^verbatim>\<open>src/include/http_headers.h\<close> and
  the captured entries of \<^verbatim>\<open>src/include/conn.h\<close>.
\<close>

section \<open>The model\<close>

datatype http_header_id =
    HDR_ID_HOST | HDR_ID_CONNECTION | HDR_ID_ACCEPT_ENCODING | HDR_ID_RANGE | HDR_ID_IF_RANGE
  | HDR_ID_IF_MODIFIED_SINCE | HDR_ID_IF_NONE_MATCH | HDR_ID_AUTHORIZATION | HDR_ID_COOKIE
  | HDR_ID_ORIGIN | HDR_ID_ACCESS_CONTROL_REQUEST_METHOD | HDR_ID_ACCESS_CONTROL_REQUEST_HEADERS

fun header_index :: "http_header_id \<Rightarrow> nat" where
  "header_index HDR_ID_HOST = 0"
| "header_index HDR_ID_CONNECTION = 1"
| "header_index HDR_ID_ACCEPT_ENCODING = 2"
| "header_index HDR_ID_RANGE = 3"
| "header_index HDR_ID_IF_RANGE = 4"
| "header_index HDR_ID_IF_MODIFIED_SINCE = 5"
| "header_index HDR_ID_IF_NONE_MATCH = 6"
| "header_index HDR_ID_AUTHORIZATION = 7"
| "header_index HDR_ID_COOKIE = 8"
| "header_index HDR_ID_ORIGIN = 9"
| "header_index HDR_ID_ACCESS_CONTROL_REQUEST_METHOD = 10"
| "header_index HDR_ID_ACCESS_CONTROL_REQUEST_HEADERS = 11"

definition http_header_bit :: "http_header_id \<Rightarrow> u64" where
  "http_header_bit hid = (if header_index hid < 64 then push_bit (header_index hid) 1 else 0)"

definition CFG_FEAT_STATIC :: u64 where "CFG_FEAT_STATIC = 1"
definition CFG_FEAT_RANGE :: u64 where "CFG_FEAT_RANGE = 2"
definition CFG_FEAT_CONDITIONAL :: u64 where "CFG_FEAT_CONDITIONAL = 4"
definition CFG_FEAT_COMPRESSION :: u64 where "CFG_FEAT_COMPRESSION = 8"
definition CFG_FEAT_AUTH :: u64 where "CFG_FEAT_AUTH = 16"
definition CFG_FEAT_CORS :: u64 where "CFG_FEAT_CORS = 32"

definition g_specs :: "(string \<times> http_header_id) list" where
  "g_specs =
     [(''host'', HDR_ID_HOST), (''connection'', HDR_ID_CONNECTION),
      (''accept-encoding'', HDR_ID_ACCEPT_ENCODING), (''range'', HDR_ID_RANGE),
      (''if-range'', HDR_ID_IF_RANGE), (''if-modified-since'', HDR_ID_IF_MODIFIED_SINCE),
      (''if-none-match'', HDR_ID_IF_NONE_MATCH), (''authorization'', HDR_ID_AUTHORIZATION),
      (''cookie'', HDR_ID_COOKIE), (''origin'', HDR_ID_ORIGIN),
      (''access-control-request-method'', HDR_ID_ACCESS_CONTROL_REQUEST_METHOD),
      (''access-control-request-headers'', HDR_ID_ACCESS_CONTROL_REQUEST_HEADERS)]"

definition http_headers_store_mask :: "u64 \<Rightarrow> u64" where
  "http_headers_store_mask f =
     (let m0 = http_header_bit HDR_ID_HOST OR http_header_bit HDR_ID_CONNECTION;
          m1 = (if f AND CFG_FEAT_COMPRESSION \<noteq> 0 then m0 OR http_header_bit HDR_ID_ACCEPT_ENCODING else m0);
          m2 = (if f AND CFG_FEAT_RANGE \<noteq> 0
                then m1 OR (http_header_bit HDR_ID_RANGE OR http_header_bit HDR_ID_IF_RANGE) else m1);
          m3 = (if f AND CFG_FEAT_CONDITIONAL \<noteq> 0
                then m2 OR (http_header_bit HDR_ID_IF_MODIFIED_SINCE OR http_header_bit HDR_ID_IF_NONE_MATCH)
                else m2);
          m4 = (if f AND CFG_FEAT_AUTH \<noteq> 0
                then m3 OR (http_header_bit HDR_ID_AUTHORIZATION OR http_header_bit HDR_ID_COOKIE) else m3);
          m5 = (if f AND CFG_FEAT_CORS \<noteq> 0
                then m4 OR (http_header_bit HDR_ID_ORIGIN OR
                  http_header_bit HDR_ID_ACCESS_CONTROL_REQUEST_METHOD OR
                  http_header_bit HDR_ID_ACCESS_CONTROL_REQUEST_HEADERS) else m4)
      in m5)"

definition http_header_lookup_lower :: "string \<Rightarrow> http_header_id option" where
  "http_header_lookup_lower name = (if name = [] then None else map_of g_specs name)"

text \<open>A captured header: the lowercased name, the identifier and the value as received.\<close>

record req_hdr_entry =
  e_name :: string
  e_id :: http_header_id
  e_truncated :: bool
  e_value :: string

definition http_header_find_value :: "req_hdr_entry list \<Rightarrow> http_header_id \<Rightarrow> string option" where
  "http_header_find_value hdrs hid = map_option e_value (find (\<lambda>e. e_id e = hid) hdrs)"

section \<open>Header bits\<close>

lemma header_index_less: "header_index hid < 12"
  by (cases hid) simp_all

lemma header_index_inj: "header_index a = header_index b \<longleftrightarrow> a = b"
  by (cases a; cases b) simp_all

lemma http_header_bit_def': "http_header_bit hid = push_bit (header_index hid) 1"
  using header_index_less [of hid] by (simp add: http_header_bit_def)

lemma bit_http_header_bit: "bit (http_header_bit hid) n \<longleftrightarrow> n = header_index hid"
  using header_index_less [of hid] by (auto simp: http_header_bit_def' bit_simps)

lemma word_zero_iff: "x = 0 \<longleftrightarrow> (\<forall>n. \<not> bit x n)" for x :: u64
  by (auto intro!: bit_eqI)

text \<open>The test \<open>mask & bit\<close> of the C code reads one bit of the mask.\<close>

lemma mask_test: "m AND http_header_bit hid \<noteq> 0 \<longleftrightarrow> bit m (header_index hid)"
proof -
  have "m AND http_header_bit hid = 0 \<longleftrightarrow> \<not> bit m (header_index hid)"
    by (auto simp: word_zero_iff bit_and_iff bit_http_header_bit)
  then show ?thesis by simp
qed

lemma feature_test: "f AND 2 ^ k \<noteq> 0 \<longleftrightarrow> bit f k" if "k < 64" for f :: u64
proof -
  have "f AND 2 ^ k = 0 \<longleftrightarrow> \<not> bit f k"
    using that by (auto simp: word_zero_iff bit_and_iff bit_exp_iff)
  then show ?thesis by simp
qed

lemma g_specs_distinct: "distinct (map fst g_specs)" "distinct (map snd g_specs)"
  by (simp_all add: g_specs_def)

lemma http_header_lookup_iff:
  "http_header_lookup_lower name = Some hid \<longleftrightarrow> (name, hid) \<in> set g_specs"
proof -
  have "([], i) \<notin> set g_specs" for i by (simp add: g_specs_def)
  then show ?thesis
    using map_of_eq_Some_iff [OF g_specs_distinct(1)]
    by (auto simp: http_header_lookup_lower_def)
qed

fun wanted_by :: "http_header_id \<Rightarrow> u64 \<Rightarrow> bool" where
  "wanted_by HDR_ID_HOST f \<longleftrightarrow> True"
| "wanted_by HDR_ID_CONNECTION f \<longleftrightarrow> True"
| "wanted_by HDR_ID_ACCEPT_ENCODING f \<longleftrightarrow> bit f 3"
| "wanted_by HDR_ID_RANGE f \<longleftrightarrow> bit f 1"
| "wanted_by HDR_ID_IF_RANGE f \<longleftrightarrow> bit f 1"
| "wanted_by HDR_ID_IF_MODIFIED_SINCE f \<longleftrightarrow> bit f 2"
| "wanted_by HDR_ID_IF_NONE_MATCH f \<longleftrightarrow> bit f 2"
| "wanted_by HDR_ID_AUTHORIZATION f \<longleftrightarrow> bit f 4"
| "wanted_by HDR_ID_COOKIE f \<longleftrightarrow> bit f 4"
| "wanted_by HDR_ID_ORIGIN f \<longleftrightarrow> bit f 5"
| "wanted_by HDR_ID_ACCESS_CONTROL_REQUEST_METHOD f \<longleftrightarrow> bit f 5"
| "wanted_by HDR_ID_ACCESS_CONTROL_REQUEST_HEADERS f \<longleftrightarrow> bit f 5"

lemma feature_bits:
  "f AND CFG_FEAT_COMPRESSION \<noteq> 0 \<longleftrightarrow> bit f 3" "f AND CFG_FEAT_RANGE \<noteq> 0 \<longleftrightarrow> bit f 1"
  "f AND CFG_FEAT_CONDITIONAL \<noteq> 0 \<longleftrightarrow> bit f 2" "f AND CFG_FEAT_AUTH \<noteq> 0 \<longleftrightarrow> bit f 4"
  "f AND CFG_FEAT_CORS \<noteq> 0 \<longleftrightarrow> bit f 5" "f AND CFG_FEAT_STATIC \<noteq> 0 \<longleftrightarrow> bit f 0"
  using feature_test [of 3 f] feature_test [of 1 f] feature_test [of 2 f] feature_test [of 4 f]
    feature_test [of 5 f] feature_test [of 0 f]
  by (simp_all add: CFG_FEAT_COMPRESSION_def CFG_FEAT_RANGE_def CFG_FEAT_CONDITIONAL_def
      CFG_FEAT_AUTH_def CFG_FEAT_CORS_def CFG_FEAT_STATIC_def)

lemma store_mask_bits: "bit (http_headers_store_mask f) (header_index hid) \<longleftrightarrow> wanted_by hid f"
  unfolding http_headers_store_mask_def Let_def feature_bits
  by (cases hid) (simp_all add: bit_or_iff bit_http_header_bit)

end
