(* ===== verification/Policy.thy ===== *)
theory Policy
  imports Types Decimal Url
begin

text \<open>
  Virtual-host configuration and the route, security-header and CORS policies:
  \<^verbatim>\<open>src/include/policy_types.h\<close>, \<^verbatim>\<open>route_policy_types.h\<close>, \<^verbatim>\<open>types.h\<close> and the shared logic of
  \<^verbatim>\<open>policy_headers_shared.h\<close>. Fixed \<open>char\<close> arrays are strings; the truncation of \<open>snprintf\<close> into
  them is written out. The functions take the request's normalised path, the only part of the
  connection they read (\<open>None\<close> for a \<open>NULL\<close> pointer).
\<close>

section \<open>Configuration types\<close>

record security_header_entry =
  sh_name :: string
  sh_value :: string

record security_headers_policy =
  sp_enabled :: bool
  sp_enabled_set :: bool
  sp_headers :: "security_header_entry list"

record cors_policy =
  co_enabled :: bool
  co_enabled_set :: bool
  co_allow_origin :: string
  co_allow_origin_set :: bool
  co_allow_methods :: string
  co_allow_methods_set :: bool
  co_allow_headers :: string
  co_allow_headers_set :: bool
  co_allow_credentials :: bool
  co_allow_credentials_set :: bool
  co_max_age_seconds :: nat
  co_max_age_seconds_set :: bool

datatype route_auth_mode = ROUTE_AUTH_INHERIT | ROUTE_AUTH_REQUIRE | ROUTE_AUTH_DISABLE

record route_policy_rule =
  path_prefix :: string
  auth_mode :: route_auth_mode
  rr_max_body_bytes :: u64
  max_body_bytes_set :: bool
  inherit_security_headers :: bool
  inherit_security_headers_set :: bool
  rr_security_headers :: security_headers_policy
  rr_cors :: cors_policy

text \<open>
  The credential store is a list of user names with their password hashes
  (\<^verbatim>\<open>struct auth_store\<close> of \<^verbatim>\<open>auth.c\<close>).
\<close>

type_synonym auth_store = "(string \<times> string) list"

record vhost_t =
  vh_name :: string
  vh_bind :: string
  vh_port :: nat
  docroot :: string
  docroot_fd :: int
  features :: u64
  max_header_fields :: nat
  vh_tls_enabled :: bool
  vh_tls_enabled_set :: bool
  vh_tls_cert_file :: string
  vh_tls_key_file :: string
  vh_tls_min_version :: string
  vh_tls_ciphers :: string
  vh_tls_ciphersuites :: string
  vh_tls_session_tickets :: bool
  vh_tls_session_tickets_set :: bool
  vh_tls_session_cache :: bool
  vh_tls_session_cache_set :: bool
  vh_tls_ctx_handle :: "nat option"
  vf_present :: u32
  comp_dynamic :: nat
  comp_dynamic_max_bytes :: nat
  comp_dynamic_min_bytes :: nat
  comp_dynamic_effort :: nat
  index_file :: string
  auth_basic_file :: string
  auth_realm :: string
  auth_enabled :: bool
  vh_auth_store :: "auth_store option"
  route_rules :: "route_policy_rule option list"
  vh_security_headers :: "security_headers_policy option"
  vh_cors :: "cors_policy option"
  custom_headers :: "string list"

text \<open>The zeroed structure, as the configuration starts from.\<close>

definition vhost_zero :: vhost_t where
  "vhost_zero =
     \<lparr>vh_name = [], vh_bind = [], vh_port = 0, docroot = [], docroot_fd = 0, features = 0,
      max_header_fields = 0, vh_tls_enabled = False, vh_tls_enabled_set = False, vh_tls_cert_file = [],
      vh_tls_key_file = [], vh_tls_min_version = [], vh_tls_ciphers = [], vh_tls_ciphersuites = [],
      vh_tls_session_tickets = False, vh_tls_session_tickets_set = False, vh_tls_session_cache = False,
      vh_tls_session_cache_set = False, vh_tls_ctx_handle = None, vf_present = 0, comp_dynamic = 0,
      comp_dynamic_max_bytes = 0, comp_dynamic_min_bytes = 0, comp_dynamic_effort = 0, index_file = [],
      auth_basic_file = [], auth_realm = [], auth_enabled = False, vh_auth_store = None, route_rules = [],
      vh_security_headers = None, vh_cors = None, custom_headers = []\<rparr>"

section \<open>Routes\<close>

definition policy_shared_path_prefix_matches :: "string \<Rightarrow> string \<Rightarrow> bool" where
  "policy_shared_path_prefix_matches path pre =
     (if pre = [] then False
      else if pre = ''/'' then path \<noteq> [] \<and> hd path = CHR ''/''
      else if take (length pre) path \<noteq> pre then False
      else if length path = length pre then True
      else if last pre = CHR ''/'' then True
      else path ! length pre = CHR ''/'')"

definition rule_matches :: "string \<Rightarrow> route_policy_rule option \<Rightarrow> bool" where
  "rule_matches path rr =
     (case rr of
        None \<Rightarrow> False
      | Some r \<Rightarrow> path_prefix r \<noteq> [] \<and> policy_shared_path_prefix_matches path (path_prefix r))"

fun first_rule :: "string \<Rightarrow> route_policy_rule option list \<Rightarrow> route_policy_rule option" where
  "first_rule path [] = None"
| "first_rule path (rr # rrs) = (if rule_matches path rr then rr else first_rule path rrs)"

definition policy_shared_resolve_route_rule ::
    "string option \<Rightarrow> vhost_t \<Rightarrow> route_policy_rule option" where
  "policy_shared_resolve_route_rule path vh =
     (case path of
        None \<Rightarrow> None
      | Some p \<Rightarrow> if p = [] then None else first_rule p (route_rules vh))"

section \<open>CORS\<close>

definition cors_zero :: cors_policy where
  "cors_zero =
     \<lparr>co_enabled = False, co_enabled_set = False, co_allow_origin = [], co_allow_origin_set = False,
      co_allow_methods = [], co_allow_methods_set = False, co_allow_headers = [],
      co_allow_headers_set = False, co_allow_credentials = False, co_allow_credentials_set = False,
      co_max_age_seconds = 0, co_max_age_seconds_set = False\<rparr>"

definition policy_shared_resolve_effective_cors_for_route ::
    "vhost_t \<Rightarrow> route_policy_rule option \<Rightarrow> cors_policy" where
  "policy_shared_resolve_effective_cors_for_route vh rr =
     (let out = (case vh_cors vh of None \<Rightarrow> cors_zero | Some c \<Rightarrow> c)
      in case rr of
           None \<Rightarrow> out
         | Some r \<Rightarrow>
             (let c = rr_cors r;
                  o1 = (if co_enabled_set c
                        then out\<lparr>co_enabled := co_enabled c, co_enabled_set := co_enabled_set c\<rparr> else out);
                  o2 = (if co_allow_origin_set c
                        then o1\<lparr>co_allow_origin := take 255 (co_allow_origin c), co_allow_origin_set := True\<rparr>
                        else o1);
                  o3 = (if co_allow_methods_set c
                        then o2\<lparr>co_allow_methods := take 127 (co_allow_methods c), co_allow_methods_set := True\<rparr>
                        else o2);
                  o4 = (if co_allow_headers_set c
                        then o3\<lparr>co_allow_headers := take 255 (co_allow_headers c), co_allow_headers_set := True\<rparr>
                        else o3);
                  o5 = (if co_allow_credentials_set c
                        then o4\<lparr>co_allow_credentials := co_allow_credentials c, co_allow_credentials_set := True\<rparr>
                        else o4);
                  o6 = (if co_max_age_seconds_set c
                        then o5\<lparr>co_max_age_seconds := co_max_age_seconds c, co_max_age_seconds_set := True\<rparr>
                        else o5)
              in o6))"

definition policy_shared_resolve_effective_cors :: "string option \<Rightarrow> vhost_t \<Rightarrow> cors_policy" where
  "policy_shared_resolve_effective_cors path vh =
     policy_shared_resolve_effective_cors_for_route vh (policy_shared_resolve_route_rule path vh)"

section \<open>Collecting response headers\<close>

definition POLICY_SHARED_HDR_MAX :: nat where "POLICY_SHARED_HDR_MAX = 64"
definition POLICY_SHARED_HDR_LINE_MAX :: nat where "POLICY_SHARED_HDR_LINE_MAX = 384"
definition POLICY_SHARED_HDR_NAME_MAX :: nat where "POLICY_SHARED_HDR_NAME_MAX = 64"

text \<open>\<open>count\<close> is the length of both lists.\<close>

record policy_shared_header_ctx =
  pc_lines :: "string list"
  pc_names :: "string list"
  pc_overflow :: bool

definition strcasecmp_eq :: "string \<Rightarrow> string \<Rightarrow> bool" where
  "strcasecmp_eq a b \<longleftrightarrow> map lower_ascii a = map lower_ascii b"

fun find_name :: "nat \<Rightarrow> string list \<Rightarrow> string \<Rightarrow> nat option" where
  "find_name i [] name = None"
| "find_name i (n # ns) name = (if strcasecmp_eq n name then Some i else find_name (i + 1) ns name)"

definition policy_shared_header_find :: "policy_shared_header_ctx \<Rightarrow> string \<Rightarrow> nat option" where
  "policy_shared_header_find ctx name = (if name = [] then None else find_name 0 (pc_names ctx) name)"

definition policy_shared_header_extract_name :: "string \<Rightarrow> string option" where
  "policy_shared_header_extract_name line =
     (let n = takeWhile (\<lambda>c. c \<noteq> CHR '':'') line
      in if length n = length line \<or> n = [] \<or> length n \<ge> POLICY_SHARED_HDR_NAME_MAX then None
         else Some n)"

definition header_line :: "string \<Rightarrow> string \<Rightarrow> string" where
  "header_line name v = name @ '': '' @ v @ CRLF"

definition policy_shared_header_upsert ::
    "string \<Rightarrow> string \<Rightarrow> policy_shared_header_ctx \<Rightarrow> policy_shared_header_ctx" where
  "policy_shared_header_upsert name v ctx =
     (if name = [] then ctx
      else
        (let line = header_line name v
         in case policy_shared_header_find ctx name of
              Some i \<Rightarrow>
                (if length line \<ge> POLICY_SHARED_HDR_LINE_MAX
                 then ctx\<lparr>pc_lines := (pc_lines ctx)[i := take (POLICY_SHARED_HDR_LINE_MAX - 1) line],
                          pc_overflow := True\<rparr>
                 else ctx\<lparr>pc_lines := (pc_lines ctx)[i := line]\<rparr>)
            | None \<Rightarrow>
                (if length (pc_names ctx) \<ge> POLICY_SHARED_HDR_MAX \<or> length line \<ge> POLICY_SHARED_HDR_LINE_MAX
                 then ctx\<lparr>pc_overflow := True\<rparr>
                 else
                   ctx\<lparr>pc_names := pc_names ctx @ [take (POLICY_SHARED_HDR_NAME_MAX - 1) name],
                       pc_lines := pc_lines ctx @ [line]\<rparr>)))"

definition policy_shared_append_custom_if_unique ::
    "string \<Rightarrow> policy_shared_header_ctx \<Rightarrow> policy_shared_header_ctx" where
  "policy_shared_append_custom_if_unique line ctx =
     (if line = [] then ctx
      else if length (pc_names ctx) \<ge> POLICY_SHARED_HDR_MAX then ctx\<lparr>pc_overflow := True\<rparr>
      else
        (case policy_shared_header_extract_name line of
           None \<Rightarrow> ctx
         | Some name \<Rightarrow>
             (if policy_shared_header_find ctx name \<noteq> None then ctx
              else
                ctx\<lparr>pc_names := pc_names ctx @ [take (POLICY_SHARED_HDR_NAME_MAX - 1) name],
                    pc_lines := pc_lines ctx @ [line]\<rparr>)))"

definition upsert_entry ::
    "security_header_entry \<Rightarrow> policy_shared_header_ctx \<Rightarrow> policy_shared_header_ctx" where
  "upsert_entry h ctx =
     (if sh_name h \<noteq> [] \<and> sh_value h \<noteq> [] then policy_shared_header_upsert (sh_name h) (sh_value h) ctx
      else ctx)"

definition collect_security ::
    "vhost_t \<Rightarrow> route_policy_rule option \<Rightarrow> policy_shared_header_ctx \<Rightarrow> policy_shared_header_ctx" where
  "collect_security vh rr ctx =
     (let inherit = (case rr of
                       None \<Rightarrow> True
                     | Some r \<Rightarrow> if inherit_security_headers_set r then inherit_security_headers r else True);
          ctx1 = (case vh_security_headers vh of
                    Some sp \<Rightarrow> if inherit \<and> sp_enabled sp then fold upsert_entry (sp_headers sp) ctx else ctx
                  | None \<Rightarrow> ctx)
      in case rr of
           None \<Rightarrow> ctx1
         | Some r \<Rightarrow>
             (let sp = rr_security_headers r
              in if sp_enabled_set sp \<and> \<not> sp_enabled sp then ctx1\<lparr>pc_names := [], pc_lines := []\<rparr>
                 else fold upsert_entry (sp_headers sp) ctx1))"

definition collect_cors :: "cors_policy \<Rightarrow> policy_shared_header_ctx \<Rightarrow> policy_shared_header_ctx" where
  "collect_cors cors ctx =
     (if \<not> co_enabled cors then ctx
      else
        (let up = (\<lambda>cond name v ctx. if cond then policy_shared_header_upsert name v ctx else ctx);
             origin = co_allow_origin cors;
             c1 = up (origin \<noteq> []) ''Access-Control-Allow-Origin'' origin ctx;
             c2 = up (origin \<noteq> [] \<and> origin \<noteq> ''*'') ''Vary'' ''Origin'' c1;
             c3 = up (co_allow_methods cors \<noteq> []) ''Access-Control-Allow-Methods'' (co_allow_methods cors) c2;
             c4 = up (co_allow_headers cors \<noteq> []) ''Access-Control-Allow-Headers'' (co_allow_headers cors) c3;
             c5 = up (co_allow_credentials cors) ''Access-Control-Allow-Credentials'' ''true'' c4
         in up (co_max_age_seconds_set cors \<and> co_max_age_seconds cors > 0) ''Access-Control-Max-Age''
              (show_nat (co_max_age_seconds cors)) c5))"

definition policy_shared_collect_headers :: "string option \<Rightarrow> vhost_t option \<Rightarrow> policy_shared_header_ctx" where
  "policy_shared_collect_headers path vhost =
     (let ctx0 = \<lparr>pc_lines = [], pc_names = [], pc_overflow = False\<rparr>
      in case vhost of
           None \<Rightarrow> ctx0
         | Some vh \<Rightarrow>
             (let rr = policy_shared_resolve_route_rule path vh;
                  ctx1 = collect_security vh rr ctx0;
                  ctx2 = collect_cors (policy_shared_resolve_effective_cors path vh) ctx1
              in fold policy_shared_append_custom_if_unique (custom_headers vh) ctx2))"

section \<open>A route rule covers exactly a subtree\<close>

lemma prefix_matches_iff:
  assumes "pre \<noteq> []"
  shows "policy_shared_path_prefix_matches path pre \<longleftrightarrow>
    (\<exists>rest. path = pre @ rest \<and> (rest = [] \<or> hd rest = CHR ''/'' \<or> last pre = CHR ''/''))"
proof (cases "take (length pre) path = pre")
  case True
  define rest where "rest = drop (length pre) path"
  have path: "path = pre @ rest" using True by (metis append_take_drop_id rest_def)
  show ?thesis
    using assms unfolding path policy_shared_path_prefix_matches_def
    by (cases rest) (auto simp: nth_append)
next
  case False
  then have "\<nexists>rest. path = pre @ rest" by auto
  moreover have "pre \<noteq> ''/'' \<or> path = [] \<or> hd path \<noteq> CHR ''/''"
    using False by (cases path) auto
  ultimately show ?thesis
    using False assms by (auto simp: policy_shared_path_prefix_matches_def)
qed

lemma path_segments_render_append:
  assumes "\<forall>s\<in>set ps. good_segment s" "ps \<noteq> []" "rest = [] \<or> hd rest = CHR ''/''"
  shows "path_segments (render_path ps @ rest) = ps @ path_segments rest"
  using assms
proof (induction ps)
  case (Cons s ps)
  let ?r = "concat (map (\<lambda>s. CHR ''/'' # s) ps) @ rest"
  have "path_segments (s @ ?r) = s # path_segments ?r"
    using Cons.prems by (intro path_segments_word) (cases ps; auto)+
  moreover have "path_segments ?r = ps @ path_segments rest"
    using Cons by (cases ps) (auto simp: render_path_def)
  ultimately show ?case by (simp add: render_path_def)
qed simp

lemma last_render:
  assumes "\<forall>s\<in>set ps. good_segment s" "ps \<noteq> []"
  shows "last (render_path ps) \<noteq> CHR ''/''"
proof -
  obtain qs s where ps: "ps = qs @ [s]" using assms(2) by (metis rev_exhaust)
  then have "s \<noteq> []" "CHR ''/'' \<notin> set s" using assms(1) by (auto simp: good_segment_def)
  then have "last s \<noteq> CHR ''/''" by (metis last_in_set)
  then show ?thesis using \<open>s \<noteq> []\<close> by (simp add: ps render_path_def)
qed

lemma prefix_matches_subtree:
  assumes ps: "\<forall>s\<in>set ps. good_segment s" and xs: "\<forall>s\<in>set xs. good_segment s"
  shows "policy_shared_path_prefix_matches (render_path xs) (render_path ps) \<longleftrightarrow>
    take (length ps) xs = ps"
proof (cases "ps = []")
  case True
  then show ?thesis by (cases xs) (auto simp: policy_shared_path_prefix_matches_def render_path_def)
next
  case False
  have ne: "render_path ps \<noteq> []" by (auto simp: render_path_def)
  note iff = prefix_matches_iff [OF ne, of "render_path xs"]
  show ?thesis
  proof
    assume "policy_shared_path_prefix_matches (render_path xs) (render_path ps)"
    then obtain rest where "render_path xs = render_path ps @ rest" "rest = [] \<or> hd rest = CHR ''/''"
      using iff last_render [OF ps False] by auto
    then have "xs = ps @ path_segments rest"
      using path_segments_render_append [OF ps False] path_segments_render [OF xs] by metis
    then show "take (length ps) xs = ps" by simp
  next
    assume "take (length ps) xs = ps"
    then obtain qs where "xs = ps @ qs" by (metis append_take_drop_id)
    then have "render_path xs = render_path ps @ concat (map (\<lambda>s. CHR ''/'' # s) qs)"
      using False by (simp add: render_path_def)
    then show "policy_shared_path_prefix_matches (render_path xs) (render_path ps)"
      unfolding iff by (cases qs) auto
  qed
qed

text \<open>
  The loader stores any prefix that starts with a slash. What such a prefix governs, by segments:
  without a slash at its end, the resource it names and everything below; with one, what is below
  only; and nothing at all if it has an empty segment in it.
\<close>

definition governs :: "string \<Rightarrow> string list \<Rightarrow> bool" where
  "governs pre xs =
     (let ps = path_segments pre
      in if pre = render_path ps then take (length ps) xs = ps
         else if ps \<noteq> [] \<and> pre = render_path ps @ ''/'' then take (length ps) xs = ps \<and> length ps < length xs
         else False)"

lemma prefix_of_segments:
  assumes "\<forall>s\<in>set xs. good_segment s" "p @ rest = concat (map (\<lambda>s. CHR ''/'' # s) xs)"
  shows "\<exists>ps. (\<forall>s\<in>set ps. good_segment s) \<and>
    (p = concat (map (\<lambda>s. CHR ''/'' # s) ps) \<or> p = concat (map (\<lambda>s. CHR ''/'' # s) ps) @ ''/'')"
  using assms
proof (induction xs arbitrary: p)
  case (Cons x xs)
  show ?case
  proof (cases p)
    case (Cons c q)
    with Cons.prems(2) have c: "c = CHR ''/''" and q: "q @ rest = x @ concat (map (\<lambda>s. CHR ''/'' # s) xs)" by auto
    then consider (inside) t where "x = q @ t" | (beyond) q' where "q = x @ q'" "q' @ rest = concat (map (\<lambda>s. CHR ''/'' # s) xs)"
      by (auto simp: append_eq_append_conv2)
    then show ?thesis
    proof cases
      case inside
      then have "q = [] \<or> good_segment q" using Cons.prems(1) by (auto simp: good_segment_def)
      then show ?thesis
      proof
        assume "q = []"
        then show ?thesis using Cons c by (intro exI [of _ "[]"]) simp
      next
        assume "good_segment q"
        then show ?thesis using Cons c by (intro exI [of _ "[q]"]) simp
      qed
    next
      case beyond
      obtain ps where ps: "\<forall>s\<in>set ps. good_segment s"
        "q' = concat (map (\<lambda>s. CHR ''/'' # s) ps) \<or> q' = concat (map (\<lambda>s. CHR ''/'' # s) ps) @ ''/''"
        using Cons.IH [OF _ beyond(2)] Cons.prems(1) by auto
      then show ?thesis using Cons c beyond(1) Cons.prems(1) by (intro exI [of _ "x # ps"]) auto
    qed
  qed (auto intro: exI [of _ "[]"])
qed simp

lemma prefix_of_render:
  assumes xs: "\<forall>s\<in>set xs. good_segment s" and p: "p \<noteq> []" "render_path xs = p @ rest"
  shows "p = render_path (path_segments p) \<or> path_segments p \<noteq> [] \<and> p = render_path (path_segments p) @ ''/''"
proof (cases "xs = []")
  case True
  then have "p = ''/''" using p by (cases p) (auto simp: render_path_def)
  then show ?thesis by (simp add: render_path_def path_segments_def)
next
  case False
  then have "p @ rest = concat (map (\<lambda>s. CHR ''/'' # s) xs)" using p(2) by (simp add: render_path_def)
  from prefix_of_segments [OF xs this] obtain ps where ps: "\<forall>s\<in>set ps. good_segment s"
    "p = concat (map (\<lambda>s. CHR ''/'' # s) ps) \<or> p = concat (map (\<lambda>s. CHR ''/'' # s) ps) @ ''/''" by blast
  show ?thesis
  proof (cases "ps = []")
    case True
    then show ?thesis using ps(2) p(1) by (auto simp: render_path_def path_segments_def)
  next
    case False
    then have r: "p = render_path ps \<or> p = render_path ps @ ''/''" using ps(2) by (simp add: render_path_def)
    have "path_segments ''/'' = []" by (simp add: path_segments_def)
    then have "path_segments p = ps"
      using r path_segments_render [OF ps(1)] path_segments_render_append [OF ps(1) False, of "''/''"] by auto
    then show ?thesis using r False by simp
  qed
qed

lemma prefix_matches_below:
  assumes ps: "\<forall>s\<in>set ps. good_segment s" "ps \<noteq> []" and xs: "\<forall>s\<in>set xs. good_segment s"
  shows "policy_shared_path_prefix_matches (render_path xs) (render_path ps @ ''/'') \<longleftrightarrow>
    take (length ps) xs = ps \<and> length ps < length xs"
proof -
  have ne: "render_path ps @ ''/'' \<noteq> []" by simp
  have iff: "policy_shared_path_prefix_matches (render_path xs) (render_path ps @ ''/'') \<longleftrightarrow>
      (\<exists>rest. render_path xs = render_path ps @ CHR ''/'' # rest)"
    unfolding prefix_matches_iff [OF ne] by simp
  show ?thesis unfolding iff
  proof
    assume "\<exists>rest. render_path xs = render_path ps @ CHR ''/'' # rest"
    then obtain rest where r: "render_path xs = render_path ps @ CHR ''/'' # rest" by blast
    then have "path_segments (render_path xs) = ps @ path_segments (CHR ''/'' # rest)"
      using path_segments_render_append [OF ps] by simp
    then have eq: "xs = ps @ path_segments (CHR ''/'' # rest)" by (simp only: path_segments_render [OF xs])
    moreover have "xs \<noteq> ps" using r by auto
    ultimately show "take (length ps) xs = ps \<and> length ps < length xs"
      by (metis append_eq_conv_conj append_Nil2 length_append less_add_same_cancel1 length_greater_0_conv)
  next
    assume "take (length ps) xs = ps \<and> length ps < length xs"
    then obtain q qs where "xs = ps @ q # qs" by (metis append_take_drop_id drop_eq_Nil neq_Nil_conv not_le)
    then show "\<exists>rest. render_path xs = render_path ps @ CHR ''/'' # rest"
      using ps(2) by (simp add: render_path_def)
  qed
qed

lemma prefix_matches_governs:
  assumes pre: "pre \<noteq> []" and xs: "\<forall>s\<in>set xs. good_segment s"
  shows "policy_shared_path_prefix_matches (render_path xs) pre \<longleftrightarrow> governs pre xs"
proof -
  let ?ps = "path_segments pre"
  have good: "\<forall>s\<in>set ?ps. good_segment s" using set_path_segments by blast
  consider (plain) "pre = render_path ?ps" | (slash) "pre \<noteq> render_path ?ps" "?ps \<noteq> []" "pre = render_path ?ps @ ''/''"
    | (other) "pre \<noteq> render_path ?ps" "\<not> (?ps \<noteq> [] \<and> pre = render_path ?ps @ ''/'')" by blast
  then show ?thesis
  proof cases
    case plain
    then show ?thesis using prefix_matches_subtree [OF good xs] by (simp add: governs_def Let_def)
  next
    case slash
    then show ?thesis using prefix_matches_below [OF good slash(2) xs] by (simp add: governs_def Let_def)
  next
    case other
    then have "\<not> (\<exists>rest. render_path xs = pre @ rest)" using prefix_of_render [OF xs pre] by blast
    then show ?thesis using other prefix_matches_iff [OF pre] by (auto simp: governs_def Let_def)
  qed
qed

lemma first_rule_find:
  assumes "\<forall>r\<in>set rs. path_prefix r \<noteq> []" "\<forall>s\<in>set xs. good_segment s"
  shows "first_rule (render_path xs) (map Some rs) = find (\<lambda>r. governs (path_prefix r) xs) rs"
  using assms(1)
proof (induction rs)
  case (Cons r rs)
  then have "rule_matches (render_path xs) (Some r) \<longleftrightarrow> governs (path_prefix r) xs"
    using prefix_matches_governs [OF _ assms(2), of "path_prefix r"] by (simp add: rule_matches_def)
  then show ?case using Cons by simp
qed simp

text \<open>
  C26: the rule applied to a request is the first configured one whose prefix governs the
  requested path, segment by segment, for any prefixes that start with a slash, which is what the
  loader accepts. A prefix without a slash at its end governs the resource it names and everything
  below it: \<open>/admin\<close> governs \<open>/admin\<close> and \<open>/admin/x\<close> and never \<open>/administrator\<close>. With a slash
  at its end it governs what is below only - \<open>/admin/\<close> governs \<open>/admin/x\<close> but not \<open>/admin\<close>, which
  is also what a request for \<open>/admin/\<close> is normalised to. A prefix with an empty segment governs
  nothing.
\<close>

theorem route_rule_subtree:
  assumes "route_rules vh = map Some rs" "\<forall>r\<in>set rs. path_prefix r \<noteq> [] \<and> hd (path_prefix r) = CHR ''/''"
    "\<forall>s\<in>set xs. good_segment s"
  shows "policy_shared_resolve_route_rule (Some (render_path xs)) vh = find (\<lambda>r. governs (path_prefix r) xs) rs"
proof -
  have "render_path xs \<noteq> []" by (auto simp: render_path_def)
  then show ?thesis
    using first_rule_find [OF _ assms(3), of rs] assms(1,2) by (simp add: policy_shared_resolve_route_rule_def)
qed

definition sample_rule :: "string \<Rightarrow> route_policy_rule" where
  "sample_rule pre =
     \<lparr>path_prefix = pre, auth_mode = ROUTE_AUTH_REQUIRE, rr_max_body_bytes = 0, max_body_bytes_set = False,
      inherit_security_headers = True, inherit_security_headers_set = False,
      rr_security_headers = \<lparr>sp_enabled = False, sp_enabled_set = False, sp_headers = []\<rparr>,
      rr_cors = cors_zero\<rparr>"

definition sample_vhost :: "route_policy_rule list \<Rightarrow> vhost_t" where
  "sample_vhost rs =
     vhost_zero\<lparr>docroot := ''/srv'', docroot_fd := 3, max_header_fields := 100, index_file := ''index.html'',
       auth_realm := ''r'', route_rules := map Some rs\<rparr>"

theorem route_rule_subtree_witness:
  "policy_shared_resolve_route_rule (Some ''/admin/x'') (sample_vhost [sample_rule ''/adm'', sample_rule ''/admin'']) =
     Some (sample_rule ''/admin'') \<and>
   policy_shared_resolve_route_rule (Some ''/admin/x'') (sample_vhost [sample_rule ''/admin/'']) =
     Some (sample_rule ''/admin/'') \<and>
   policy_shared_resolve_route_rule (Some ''/admin'') (sample_vhost [sample_rule ''/admin/'']) = None"
proof -
  have "policy_shared_resolve_route_rule (Some (render_path [''admin'', ''x'']))
      (sample_vhost [sample_rule ''/adm'', sample_rule ''/admin'']) = Some (sample_rule ''/admin'')"
    by (subst route_rule_subtree [where rs = "[sample_rule ''/adm'', sample_rule ''/admin'']"])
      (simp_all add: sample_vhost_def vhost_zero_def good_segment_def sample_rule_def path_segments_def governs_def render_path_def)
  moreover have "policy_shared_resolve_route_rule (Some (render_path xs)) (sample_vhost [sample_rule ''/admin/'']) =
      (if governs ''/admin/'' xs then Some (sample_rule ''/admin/'') else None)" if "\<forall>s\<in>set xs. good_segment s" for xs
    by (subst route_rule_subtree [where rs = "[sample_rule ''/admin/'']"])
      (simp_all add: that sample_vhost_def vhost_zero_def sample_rule_def)
  from this [of "[''admin'', ''x'']"] this [of "[''admin'']"]
  have "policy_shared_resolve_route_rule (Some (render_path [''admin'', ''x''])) (sample_vhost [sample_rule ''/admin/'']) =
      Some (sample_rule ''/admin/'')"
    "policy_shared_resolve_route_rule (Some (render_path [''admin''])) (sample_vhost [sample_rule ''/admin/'']) = None"
    by (simp_all add: good_segment_def governs_def path_segments_def render_path_def)
  ultimately show ?thesis by (simp add: render_path_def)
qed

section \<open>Collected headers have distinct names\<close>

abbreviation lower :: "string \<Rightarrow> string" where
  "lower \<equiv> map lower_ascii"

definition token_name :: "string \<Rightarrow> bool" where
  "token_name n \<longleftrightarrow> n \<noteq> [] \<and> CHR '':'' \<notin> set n \<and> length n < POLICY_SHARED_HDR_NAME_MAX"

definition line_named :: "string \<Rightarrow> string \<Rightarrow> bool" where
  "line_named l n \<longleftrightarrow> (\<exists>m. policy_shared_header_extract_name l = Some m \<and> lower m = lower n)"

definition ctx_inv :: "policy_shared_header_ctx \<Rightarrow> bool" where
  "ctx_inv ctx \<longleftrightarrow>
     length (pc_names ctx) \<le> POLICY_SHARED_HDR_MAX \<and> distinct (map lower (pc_names ctx)) \<and>
     list_all2 line_named (pc_lines ctx) (pc_names ctx)"

lemma find_name_None: "find_name i ns name = None \<longleftrightarrow> lower name \<notin> lower ` set ns"
  by (induction ns arbitrary: i) (auto simp: strcasecmp_eq_def)

lemma find_name_Some:
  "find_name i ns name = Some j \<Longrightarrow> i \<le> j \<and> j < i + length ns \<and> lower (ns ! (j - i)) = lower name"
proof (induction ns arbitrary: i)
  case (Cons n ns)
  then show ?case
    by (cases "strcasecmp_eq n name") (auto simp: strcasecmp_eq_def nth_Cons' dest!: Cons.IH)
qed simp

lemma extract_name_of_line:
  assumes "token_name n"
  shows "policy_shared_header_extract_name (n @ CHR '':'' # rest) = Some n"
proof -
  have "takeWhile (\<lambda>c. c \<noteq> CHR '':'') (n @ CHR '':'' # rest) = n"
    using assms by (subst takeWhile_append2) (auto simp: token_name_def)
  then show ?thesis using assms by (simp add: policy_shared_header_extract_name_def token_name_def Let_def)
qed

lemma header_line_named:
  assumes "token_name n" "lower n = lower m"
  shows "line_named (header_line n v) m"
    "line_named (take (POLICY_SHARED_HDR_LINE_MAX - 1) (header_line n v)) m"
proof -
  have "take (POLICY_SHARED_HDR_LINE_MAX - 1) (header_line n v) =
    n @ CHR '':'' # take (POLICY_SHARED_HDR_LINE_MAX - 2 - length n) (CHR '' '' # v @ CRLF)"
    using assms(1)
    by (simp add: header_line_def token_name_def POLICY_SHARED_HDR_LINE_MAX_def POLICY_SHARED_HDR_NAME_MAX_def
        take_Cons')
  then show "line_named (take (POLICY_SHARED_HDR_LINE_MAX - 1) (header_line n v)) m"
    using extract_name_of_line [OF assms(1)] assms(2) by (auto simp: line_named_def)
  show "line_named (header_line n v) m"
    using extract_name_of_line [OF assms(1)] assms(2) by (auto simp: line_named_def header_line_def)
qed

lemma ctx_inv_append:
  assumes "ctx_inv ctx" "length (pc_names ctx) < POLICY_SHARED_HDR_MAX"
    "lower n \<notin> lower ` set (pc_names ctx)" "line_named l n"
  shows "ctx_inv (ctx\<lparr>pc_names := pc_names ctx @ [n], pc_lines := pc_lines ctx @ [l]\<rparr>)"
  using assms by (auto simp: ctx_inv_def list_all2_appendI)

lemma ctx_inv_replace:
  assumes "ctx_inv ctx" "i < length (pc_names ctx)" "line_named l (pc_names ctx ! i)"
  shows "ctx_inv (ctx\<lparr>pc_lines := (pc_lines ctx)[i := l]\<rparr>)"
    "ctx_inv (ctx\<lparr>pc_lines := (pc_lines ctx)[i := l], pc_overflow := b\<rparr>)"
  using assms list_all2_update_cong [of line_named "pc_lines ctx" "pc_names ctx" l "pc_names ctx ! i" i]
  by (simp_all add: ctx_inv_def)

lemma ctx_inv_overflow: "ctx_inv (ctx\<lparr>pc_overflow := b\<rparr>) = ctx_inv ctx"
  by (simp add: ctx_inv_def)

lemma upsert_inv:
  assumes inv: "ctx_inv ctx" and n: "token_name name"
  shows "ctx_inv (policy_shared_header_upsert name v ctx)"
proof (cases "policy_shared_header_find ctx name")
  case None
  then have "lower name \<notin> lower ` set (pc_names ctx)"
    using n by (simp add: policy_shared_header_find_def find_name_None token_name_def)
  moreover have "take (POLICY_SHARED_HDR_NAME_MAX - 1) name = name" using n by (auto simp: token_name_def)
  ultimately show ?thesis
    using inv n None header_line_named(1) [OF n refl, of v]
    by (simp add: policy_shared_header_upsert_def Let_def ctx_inv_append ctx_inv_overflow)
next
  case (Some i)
  then have "i < length (pc_names ctx)" "lower name = lower (pc_names ctx ! i)"
    using n find_name_Some [of 0 "pc_names ctx" name i]
    by (auto simp: policy_shared_header_find_def split: if_splits)
  then show ?thesis
    using inv n Some header_line_named [OF n, of "pc_names ctx ! i" v]
    by (simp add: policy_shared_header_upsert_def Let_def ctx_inv_replace token_name_def)
qed

lemma append_custom_inv:
  assumes inv: "ctx_inv ctx"
  shows "ctx_inv (policy_shared_append_custom_if_unique line ctx)"
proof (cases "policy_shared_header_extract_name line")
  case None
  then show ?thesis using inv by (simp add: policy_shared_append_custom_if_unique_def ctx_inv_overflow)
next
  case (Some n)
  then have "n \<noteq> []" "length n < POLICY_SHARED_HDR_NAME_MAX"
    by (auto simp: policy_shared_header_extract_name_def Let_def split: if_splits)
  moreover have "line_named line n" using Some by (simp add: line_named_def)
  ultimately show ?thesis
    using inv Some ctx_inv_append [of ctx n line]
    by (auto simp: policy_shared_append_custom_if_unique_def ctx_inv_overflow policy_shared_header_find_def
        find_name_None)
qed

lemma fold_upsert_inv:
  "ctx_inv ctx \<Longrightarrow> \<forall>h\<in>set hs. sh_name h \<noteq> [] \<longrightarrow> token_name (sh_name h) \<Longrightarrow> ctx_inv (fold upsert_entry hs ctx)"
  by (induction hs arbitrary: ctx) (auto simp: upsert_entry_def upsert_inv)

lemma fold_custom_inv: "ctx_inv ctx \<Longrightarrow> ctx_inv (fold policy_shared_append_custom_if_unique ls ctx)"
  by (induction ls arbitrary: ctx) (auto simp: append_custom_inv)

lemma collect_cors_inv: "ctx_inv ctx \<Longrightarrow> ctx_inv (collect_cors cors ctx)"
proof -
  have "token_name ''Access-Control-Allow-Origin''" "token_name ''Vary''"
    "token_name ''Access-Control-Allow-Methods''" "token_name ''Access-Control-Allow-Headers''"
    "token_name ''Access-Control-Allow-Credentials''" "token_name ''Access-Control-Max-Age''"
    by (simp_all add: token_name_def POLICY_SHARED_HDR_NAME_MAX_def)
  then show "ctx_inv ctx \<Longrightarrow> ctx_inv (collect_cors cors ctx)"
    by (simp add: collect_cors_def Let_def upsert_inv)
qed

definition headers_named :: "security_headers_policy \<Rightarrow> bool" where
  "headers_named sp \<longleftrightarrow> (\<forall>h\<in>set (sp_headers sp). sh_name h \<noteq> [] \<longrightarrow> token_name (sh_name h))"

lemma collect_security_inv:
  assumes "ctx_inv ctx" "\<forall>sp. vh_security_headers vh = Some sp \<longrightarrow> headers_named sp"
    "\<forall>r. rr = Some r \<longrightarrow> headers_named (rr_security_headers r)"
  shows "ctx_inv (collect_security vh rr ctx)"
proof -
  have "ctx_inv (case vh_security_headers vh of
      Some sp \<Rightarrow> if b \<and> sp_enabled sp then fold upsert_entry (sp_headers sp) ctx else ctx | None \<Rightarrow> ctx)" for b
    using assms(1,2) fold_upsert_inv by (auto simp: headers_named_def split: option.splits)
  moreover have "ctx_inv (c\<lparr>pc_names := [], pc_lines := []\<rparr>)" for c by (simp add: ctx_inv_def)
  ultimately show ?thesis
    using assms(3) fold_upsert_inv unfolding collect_security_def Let_def headers_named_def
    by (auto split: option.splits)
qed

lemma first_rule_in: "first_rule path rrs = Some r \<Longrightarrow> Some r \<in> set rrs"
  by (induction rrs) (auto split: if_splits)

text \<open>
  C27: the policy headers of a response never repeat a field. Whatever mixture of virtual-host
  security headers, route overrides, CORS settings and custom lines applies to the request, at
  most 64 lines are collected, each is a header line, and no two of them have the same name up
  to case.
\<close>

theorem policy_headers_distinct:
  fixes path :: "string option"
  assumes "\<forall>sp. vh_security_headers vh = Some sp \<longrightarrow> headers_named sp"
    "\<forall>r. Some r \<in> set (route_rules vh) \<longrightarrow> headers_named (rr_security_headers r)"
  defines "ls \<equiv> pc_lines (policy_shared_collect_headers path (Some vh))"
  shows "length ls \<le> 64 \<and> (\<forall>l\<in>set ls. policy_shared_header_extract_name l \<noteq> None) \<and>
    distinct (map (\<lambda>l. lower (the (policy_shared_header_extract_name l))) ls)"
proof -
  let ?ctx = "policy_shared_collect_headers path (Some vh)"
  have "\<forall>r. policy_shared_resolve_route_rule path vh = Some r \<longrightarrow> headers_named (rr_security_headers r)"
    using assms(2) first_rule_in by (auto simp: policy_shared_resolve_route_rule_def split: option.splits if_splits)
  then have "ctx_inv ?ctx"
    unfolding policy_shared_collect_headers_def Let_def option.case
    by (intro fold_custom_inv collect_cors_inv collect_security_inv assms(1)) (simp add: ctx_inv_def)+
  then have inv: "list_all2 line_named ls (pc_names ?ctx)" "distinct (map lower (pc_names ?ctx))"
    "length (pc_names ?ctx) \<le> 64"
    by (auto simp: ctx_inv_def ls_def POLICY_SHARED_HDR_MAX_def)
  have "map (\<lambda>l. lower (the (policy_shared_header_extract_name l))) ls = map lower (pc_names ?ctx)"
    using inv(1) by (induction rule: list_all2_induct) (auto simp: line_named_def)
  moreover have "\<forall>l\<in>set ls. policy_shared_header_extract_name l \<noteq> None"
    using inv(1) by (induction rule: list_all2_induct) (auto simp: line_named_def)
  ultimately show ?thesis using inv list_all2_lengthD [OF inv(1)] by simp
qed

definition sample_policy_vhost :: vhost_t where
  "sample_policy_vhost = (sample_vhost [])
     \<lparr>vh_security_headers := Some \<lparr>sp_enabled = True, sp_enabled_set = True,
        sp_headers = [\<lparr>sh_name = ''X-A'', sh_value = ''1''\<rparr>, \<lparr>sh_name = ''x-a'', sh_value = ''2''\<rparr>]\<rparr>,
      custom_headers := [''X-a: 3'', ''X-B: 4'']\<rparr>"

theorem policy_headers_distinct_witness:
  "pc_lines (policy_shared_collect_headers None (Some sample_policy_vhost)) = [''x-a: 2'' @ CRLF, ''X-B: 4''] \<and>
   distinct (map (\<lambda>l. lower (the (policy_shared_header_extract_name l)))
     (pc_lines (policy_shared_collect_headers None (Some sample_policy_vhost))))"
proof
  show "pc_lines (policy_shared_collect_headers None (Some sample_policy_vhost)) = [''x-a: 2'' @ CRLF, ''X-B: 4'']"
    by code_simp
  have "\<forall>sp. vh_security_headers sample_policy_vhost = Some sp \<longrightarrow> headers_named sp"
    "\<forall>r. Some r \<in> set (route_rules sample_policy_vhost) \<longrightarrow> headers_named (rr_security_headers r)"
    by (simp_all add: sample_policy_vhost_def sample_vhost_def vhost_zero_def headers_named_def token_name_def
        POLICY_SHARED_HDR_NAME_MAX_def)
  from policy_headers_distinct [OF this]
  show "distinct (map (\<lambda>l. lower (the (policy_shared_header_extract_name l)))
     (pc_lines (policy_shared_collect_headers None (Some sample_policy_vhost))))" by blast
qed

end
