(* ===== verification/Http1_Parser.thy ===== *)
theory Http1_Parser
  imports Http_Headers Policy Req_Arena
begin

unbundle bit_operations_syntax

text \<open>
  The HTTP/1 request state (\<^verbatim>\<open>struct http1_state\<close> of \<^verbatim>\<open>src/include/conn.h\<close>), the callbacks of
  \<^verbatim>\<open>src/src/http_parser.c\<close> and the field limit of \<^verbatim>\<open>src/src/http1_limits.c\<close>. The byte-level
  parser, llhttp, is a vendored library: it appears through the events it raises, in any order
  and with any fragmentation.

  The accumulators \<open>hdr_name\<close>, \<open>hdr_val\<close> and \<open>hdr_val_raw\<close> are the strings they hold, their
  lengths being the C length fields. Text copied into the arena is kept as a string next to the
  arena that was asked for the room. Beside each pointer to a block of the arena that the code
  writes through (\<open>target\<close>, \<open>path_dec\<close>, \<open>path_norm\<close>, \<open>req_hdrs\<close>) the state records the size the
  block was allocated with, in a field \<open>_room\<close> that the C structure does not have: 0 while the
  pointer is \<open>NULL\<close>. Every write through such a pointer is checked against it. \<open>mallocs\<close> is the
  sequence of outcomes of the calls of \<open>malloc\<close> to come. A result \<open>None\<close> is an access outside
  allocated memory.
\<close>

section \<open>State\<close>

datatype llhttp_method = HTTP_GET | HTTP_HEAD | HTTP_POST | HTTP_OPTIONS | HTTP_OTHER nat

record http1_state =
  req_hdr_store_mask :: u64
  req_hdr_seen_mask :: u64
  h1_method :: llhttp_method
  method_set :: bool
  target :: "string option"
  target_cap :: nat
  target_room :: nat
  target_too_long :: bool
  path_len :: nat
  query_off :: nat
  query_len :: nat
  path_dec :: "string option"
  path_dec_cap :: nat
  path_dec_room :: nat
  path_dec_len :: nat
  path_norm :: "string option"
  path_norm_cap :: nat
  path_norm_room :: nat
  path_norm_len :: nat
  path_bad :: bool
  path_ends_with_slash :: bool
  method_not_allowed :: bool
  headers_done :: bool
  message_done :: bool
  parse_error :: bool
  internal_error :: bool
  header_too_big :: bool
  header_fields_too_many :: bool
  unsupported_te :: bool
  want_keepalive :: bool
  parser_bytes :: nat
  max_header_bytes :: nat
  body_remaining :: u64
  body_bytes :: u64
  max_body_bytes :: u64
  body_too_big :: bool
  pending_line_error :: bool
  hdr_state :: nat
  hdr_interest :: nat
  hdr_name :: string
  hdr_val :: string
  hdr_val_raw :: string
  hdr_val_raw_truncated :: bool
  req_hdrs :: "req_hdr_entry list"
  req_hdr_cap :: nat
  req_hdrs_room :: nat
  hdr_fields_count :: nat
  hdr_fields_max :: nat
  arena :: req_arena
  h1_mallocs :: "nat option list"
  cl_count :: nat
  te_count :: nat
  expect_count :: nat
  cl_invalid :: bool
  te_chunked :: bool
  te_other :: bool
  expect_100_continue :: bool
  expect_unsupported :: bool
  cl_value :: u64
  parser_paused :: bool

definition REQ_TARGET_MAX :: nat where "REQ_TARGET_MAX = 2048"
definition REQ_PATH_MAX :: nat where "REQ_PATH_MAX = 2048"
definition REQ_HDRS_MAX :: nat where "REQ_HDRS_MAX = 32"
definition REQ_HDR_NAME_MAX :: nat where "REQ_HDR_NAME_MAX = 32"
definition REQ_HDR_VALUE_MAX :: nat where "REQ_HDR_VALUE_MAX = 128"
definition HDR_VAL_CAP :: nat where "HDR_VAL_CAP = 64"
definition DEFAULT_MAX_BODY_BYTES :: u64 where "DEFAULT_MAX_BODY_BYTES = 1048576"

text \<open>\<open>sizeof\<close> and alignment of a captured entry: four bytes, padding, two pointers.\<close>

definition SIZEOF_HDR_ENTRY :: nat where "SIZEOF_HDR_ENTRY = 24"

section \<open>Allocation from the request arena\<close>

definition next_malloc :: "http1_state \<Rightarrow> nat option" where
  "next_malloc h = (case h1_mallocs h of [] \<Rightarrow> None | m # ms \<Rightarrow> m)"

text \<open>The block obtained is known by its size, \<open>None\<close> being the null pointer.\<close>

definition h1_alloc :: "nat \<Rightarrow> u64 \<Rightarrow> http1_state \<Rightarrow> (nat option \<times> http1_state) option" where
  "h1_alloc n align h = do {
     (p, a) \<leftarrow> req_arena_alloc (next_malloc h) (of_nat n) align (arena h);
     Some (map_option (\<lambda>_. n) p, h\<lparr>arena := a, h1_mallocs := tl (h1_mallocs h)\<rparr>)
   }"

text \<open>The effect of writing up to byte \<open>k\<close> of a block of \<open>room\<close> bytes.\<close>

definition in_block :: "nat \<Rightarrow> nat \<Rightarrow> 'a \<Rightarrow> 'a option" where
  "in_block k room x = (if k \<le> room then Some x else None)"

lemma in_block_Some [simp]: "in_block k room x = Some y \<longleftrightarrow> k \<le> room \<and> y = x"
  by (auto simp: in_block_def)

definition h1_strndup :: "string \<Rightarrow> http1_state \<Rightarrow> (bool \<times> http1_state) option" where
  "h1_strndup s h = do {
     (p, a) \<leftarrow> req_arena_strndup (next_malloc h) (Some s) (arena h);
     Some (p \<noteq> None, h\<lparr>arena := a, h1_mallocs := tl (h1_mallocs h)\<rparr>)
   }"

section \<open>Limits\<close>

definition h1_current_max_body_bytes :: "http1_state \<Rightarrow> u64" where
  "h1_current_max_body_bytes h =
     (if max_body_bytes h > 0 then max_body_bytes h else DEFAULT_MAX_BODY_BYTES)"

text \<open>The normalised path as the policy functions see it.\<close>

definition h1_path :: "http1_state \<Rightarrow> string option" where
  "h1_path h = (if path_norm_len h = 0 then None else path_norm h)"

definition h1_resolve_max_body_bytes :: "vhost_t option \<Rightarrow> http1_state \<Rightarrow> u64" where
  "h1_resolve_max_body_bytes vhost h =
     (let limit = h1_current_max_body_bytes h
      in case vhost of
           None \<Rightarrow> limit
         | Some vh \<Rightarrow>
             (case policy_shared_resolve_route_rule (h1_path h) vh of
                None \<Rightarrow> limit
              | Some rr \<Rightarrow> if max_body_bytes_set rr then rr_max_body_bytes rr else limit))"

definition http1_header_field_seen :: "http1_state \<Rightarrow> http1_state" where
  "http1_header_field_seen h =
     (if header_too_big h then h
      else if hdr_name h = [] then h
      else
        (let h1 = (if hdr_fields_count h \<noteq> 65535 then h\<lparr>hdr_fields_count := hdr_fields_count h + 1\<rparr> else h)
         in if hdr_fields_max h1 \<noteq> 0 \<and> hdr_fields_count h1 > hdr_fields_max h1
            then h1\<lparr>header_too_big := True, header_fields_too_many := True, want_keepalive := False,
                    parser_paused := True\<rparr>
            else h1))"

section \<open>Request target\<close>

text \<open>The doubling loop of \<open>on_url\<close>; the fuel bounds the number of doublings.\<close>

fun grow_target :: "nat \<Rightarrow> nat \<Rightarrow> nat \<Rightarrow> nat" where
  "grow_target 0 need cap = cap"
| "grow_target (Suc fuel) need cap = (if cap < need then grow_target fuel need (cap * 2) else cap)"

definition target_new_cap :: "nat \<Rightarrow> nat \<Rightarrow> nat" where
  "target_new_cap cap need =
     (let c0 = (if cap = 0 then 64 else cap);
          c1 = grow_target need need c0;
          c2 = (if c1 > REQ_TARGET_MAX then REQ_TARGET_MAX else c1)
      in if c2 < need then need else c2)"

abbreviation cur_target :: "http1_state \<Rightarrow> string" where
  "cur_target h \<equiv> (case target h of None \<Rightarrow> [] | Some t \<Rightarrow> t)"

text \<open>A larger block takes over what the target holds and its terminating zero.\<close>

definition target_grow :: "nat \<Rightarrow> http1_state \<Rightarrow> (bool \<times> http1_state) option" where
  "target_grow need h = do {
     let new_cap = target_new_cap (target_cap h) need;
     (buf, h1) \<leftarrow> h1_alloc (new_cap + 1) 1 h;
     (case buf of
        None \<Rightarrow> Some (False, h1\<lparr>internal_error := True, want_keepalive := False\<rparr>)
      | Some room \<Rightarrow>
          in_block (length (cur_target h) + 1) room
            (True, h1\<lparr>target := Some (cur_target h), target_cap := u16_of new_cap, target_room := room\<rparr>))
   }"

definition target_append :: "string \<Rightarrow> http1_state \<Rightarrow> http1_state option" where
  "target_append at h =
     in_block (length (cur_target h) + length at + 1) (target_room h) (h\<lparr>target := Some (cur_target h @ at)\<rparr>)"

definition on_url :: "string \<Rightarrow> http1_state \<Rightarrow> http1_state option" where
  "on_url at h =
     (if at = [] then Some h
      else if target_too_long h \<or> internal_error h then Some h
      else
        (let need = length (cur_target h) + length at
         in if need > REQ_TARGET_MAX
            then Some (h\<lparr>target_too_long := True, parse_error := True, want_keepalive := False\<rparr>)
            else do {
              (ok, h1) \<leftarrow> (if target h = None \<or> need > target_cap h then target_grow need h else Some (True, h));
              if ok then target_append at h1 else Some h1
            }))"

section \<open>Header accumulation\<close>

definition http_parser_reset_header_state :: "http1_state \<Rightarrow> http1_state" where
  "http_parser_reset_header_state h =
     h\<lparr>hdr_state := 0, hdr_interest := 0, hdr_name := [], hdr_val := [], hdr_val_raw := [],
       hdr_val_raw_truncated := False\<rparr>"

definition h1_hdr_append_raw :: "nat \<Rightarrow> string \<Rightarrow> string \<Rightarrow> string \<times> bool" where
  "h1_hdr_append_raw cap dst src =
     (let room = cap - 1 - length dst in (dst @ take room src, length src > room))"

definition h1_hdr_append_lower :: "nat \<Rightarrow> string \<Rightarrow> string \<Rightarrow> string" where
  "h1_hdr_append_lower cap dst src = dst @ map lower_ascii (take (cap - 1 - length dst) src)"

fun cl_digits :: "string \<Rightarrow> u64 \<Rightarrow> nat \<Rightarrow> (u64 \<times> nat \<times> string) option" where
  "cl_digits [] v n = Some (v, n, [])"
| "cl_digits (c # cs) v n =
     (if is_digit c then
        (let d = of_nat (digit_val c)
         in if v > (UINT64_MAX - d) div 10 then None else cl_digits cs (v * 10 + d) (n + 1))
      else Some (v, n, c # cs))"

definition h1_parse_u64_ows_decimal :: "string \<Rightarrow> u64 option" where
  "h1_parse_u64_ows_decimal s =
     (let s1 = dropWhile is_ows s
      in if s1 = [] then None
         else
           (case cl_digits s1 0 0 of
              None \<Rightarrow> None
            | Some (v, n, rest) \<Rightarrow>
                if n = 0 then None else if dropWhile is_ows rest \<noteq> [] then None else Some v))"

definition is_sep :: "char \<Rightarrow> bool" where
  "is_sep c \<longleftrightarrow> c = CHR '' '' \<or> c = HT \<or> c = CHR '',''"

text \<open>The token loop shared by the \<open>Expect\<close> and \<open>Transfer-Encoding\<close> readers.\<close>

function expect_loop :: "string \<Rightarrow> bool \<Rightarrow> bool" where
  "expect_loop s saw =
     (let p = dropWhile is_sep s
      in if p = [] then saw
         else
           (let tok = takeWhile (\<lambda>c. \<not> is_sep c) p; rest = dropWhile (\<lambda>c. \<not> is_sep c) p
            in if tok = ''100-continue'' then expect_loop rest True else False))"
  by auto
termination
  by (relation "measure (\<lambda>(s, saw). length s)") (auto simp: length_dropWhile_twice_less)

declare expect_loop.simps [simp del]

definition h1_expect_value_supported :: "string \<Rightarrow> bool" where
  "h1_expect_value_supported s = expect_loop s False"

function te_loop :: "string \<Rightarrow> bool \<times> bool \<Rightarrow> bool \<times> bool" where
  "te_loop s (chunked, other) =
     (let p = dropWhile is_sep s
      in if p = [] then (chunked, other)
         else
           (let tok = takeWhile (\<lambda>c. \<not> is_sep c) p; rest = dropWhile (\<lambda>c. \<not> is_sep c) p
            in te_loop rest (if tok = ''chunked'' then (True, other) else (chunked, True))))"
  by auto
termination
  by (relation "measure (\<lambda>(s, f). length s)") (auto simp: length_dropWhile_twice_less)

declare te_loop.simps [simp del]

section \<open>Finishing a header\<close>

text \<open>The boolean of a result says that the function did not bail out with an internal error.\<close>

definition hdrs_new_cap :: "nat \<Rightarrow> nat \<Rightarrow> nat" where
  "hdrs_new_cap cap need =
     (let c0 = (if cap \<noteq> 0 then u8_of (cap * 2) else 8);
          c1 = (if c0 < need then need else c0)
      in if c1 > REQ_HDRS_MAX then REQ_HDRS_MAX else c1)"

definition h1_hdrs_ensure_cap :: "nat \<Rightarrow> http1_state \<Rightarrow> (bool \<times> http1_state) option" where
  "h1_hdrs_ensure_cap need h =
     (if req_hdr_cap h \<ge> need then Some (True, h)
      else do {
        let new_cap = hdrs_new_cap (req_hdr_cap h) need;
        (arr, h1) \<leftarrow> h1_alloc (new_cap * SIZEOF_HDR_ENTRY) 8 h;
        (case arr of
           None \<Rightarrow> Some (False, h1)
         | Some room \<Rightarrow>
             in_block (length (req_hdrs h1) * SIZEOF_HDR_ENTRY) room
               (True, h1\<lparr>req_hdr_cap := new_cap, req_hdrs_room := room\<rparr>))
      })"

definition h1_oom :: "http1_state \<Rightarrow> http1_state" where
  "h1_oom h = h\<lparr>internal_error := True, want_keepalive := False\<rparr>"

definition h1_store_header :: "http_header_id \<Rightarrow> http1_state \<Rightarrow> (bool \<times> http1_state) option" where
  "h1_store_header hid h = do {
     (ok, h1) \<leftarrow> h1_hdrs_ensure_cap (length (req_hdrs h) + 1) h;
     if \<not> ok then Some (False, h1_oom h1)
     else do {
       let nm = take (REQ_HDR_NAME_MAX - 1) (hdr_name h1);
       let vv = take (REQ_HDR_VALUE_MAX - 1) (hdr_val_raw h1);
       (okn, h2) \<leftarrow> h1_strndup nm h1;
       (okv, h3) \<leftarrow> h1_strndup vv h2;
       if \<not> okn \<or> \<not> okv then Some (False, h1_oom h3)
       else
         in_block ((length (req_hdrs h3) + 1) * SIZEOF_HDR_ENTRY) (req_hdrs_room h3)
           (True, h3\<lparr>req_hdrs := req_hdrs h3 @
             [\<lparr>e_name = nm, e_id = hid, e_truncated = hdr_val_raw_truncated h3, e_value = vv\<rparr>]\<rparr>)
     }
   }"

definition h1_capture_header :: "http1_state \<Rightarrow> (bool \<times> http1_state) option" where
  "h1_capture_header h =
     (if hdr_name h = [] \<or> req_hdr_store_mask h = 0 then Some (True, h)
      else
        (case http_header_lookup_lower (hdr_name h) of
           None \<Rightarrow> Some (True, h)
         | Some hid \<Rightarrow>
             (let b = http_header_bit hid
              in if req_hdr_store_mask h AND b \<noteq> 0 \<and> req_hdr_seen_mask h AND b = 0 then
                   (let h1 = h\<lparr>req_hdr_seen_mask := req_hdr_seen_mask h OR b\<rparr>
                    in if length (req_hdrs h1) < REQ_HDRS_MAX then h1_store_header hid h1
                       else Some (True, h1))
                 else Some (True, h))))"

definition h1_account_header :: "http1_state \<Rightarrow> http1_state" where
  "h1_account_header h =
     (if hdr_interest h = 1 then
        (let n = u8_of (cl_count h + 1);
             h1 = h\<lparr>cl_count := n, cl_invalid := (if n > 1 then True else cl_invalid h)\<rparr>
         in case h1_parse_u64_ows_decimal (hdr_val h1) of
              None \<Rightarrow> h1\<lparr>cl_invalid := True\<rparr>
            | Some v \<Rightarrow>
                (if cl_count h1 = 1 then h1\<lparr>cl_value := v\<rparr>
                 else if cl_value h1 \<noteq> v then h1\<lparr>cl_invalid := True\<rparr> else h1))
      else if hdr_interest h = 2 then
        (let (chunked, other) = te_loop (hdr_val h) (te_chunked h, te_other h)
         in h\<lparr>te_count := u8_of (te_count h + 1), te_chunked := chunked, te_other := other\<rparr>)
      else if hdr_interest h = 3 then
        (let h1 = h\<lparr>expect_count := u8_of (expect_count h + 1)\<rparr>
         in if h1_expect_value_supported (hdr_val h1) then h1\<lparr>expect_100_continue := True\<rparr>
            else h1\<lparr>expect_unsupported := True\<rparr>)
      else h)"

definition h1_finalize_interested_header :: "http1_state \<Rightarrow> http1_state option" where
  "h1_finalize_interested_header h =
     (if internal_error h then Some h
      else
        (let h1 = http1_header_field_seen h
         in if header_too_big h1 then Some h1
            else do {
              (ok, h2) \<leftarrow> h1_capture_header h1;
              Some (if ok then h1_account_header h2 else h2)
            }))"

section \<open>Callbacks\<close>

definition on_header_field :: "string \<Rightarrow> http1_state \<Rightarrow> http1_state option" where
  "on_header_field at h =
     (if at = [] then Some h
      else if header_too_big h then Some h
      else do {
        h1 \<leftarrow> (if hdr_state h = 2 then do {
                 h' \<leftarrow> h1_finalize_interested_header h;
                 Some (http_parser_reset_header_state h')
               } else Some h);
        Some (h1\<lparr>hdr_state := 1, hdr_name := h1_hdr_append_lower REQ_HDR_NAME_MAX (hdr_name h1) at\<rparr>)
      })"

definition header_interest :: "string \<Rightarrow> nat" where
  "header_interest name =
     (if name = ''content-length'' then 1
      else if name = ''transfer-encoding'' then 2
      else if name = ''expect'' then 3
      else 0)"

definition on_header_value :: "string \<Rightarrow> http1_state \<Rightarrow> http1_state option" where
  "on_header_value at h =
     (if at = [] then Some h
      else if header_too_big h then Some h
      else
        (let h1 = (if hdr_state h \<noteq> 2
                   then h\<lparr>hdr_interest := header_interest (hdr_name h), hdr_state := 2, hdr_val := [],
                          hdr_val_raw := [], hdr_val_raw_truncated := False\<rparr>
                   else h);
             (raw, tr) = h1_hdr_append_raw REQ_HDR_VALUE_MAX (hdr_val_raw h1) at;
             h2 = h1\<lparr>hdr_val_raw := raw, hdr_val_raw_truncated := hdr_val_raw_truncated h1 \<or> tr\<rparr>
         in Some (if hdr_interest h2 \<noteq> 0
                  then h2\<lparr>hdr_val := h1_hdr_append_lower HDR_VAL_CAP (hdr_val h2) at\<rparr>
                  else h2)))"

text \<open>The boolean is the callback's return value: \<open>True\<close> makes llhttp stop with an error.\<close>

definition on_body :: "nat \<Rightarrow> http1_state \<Rightarrow> bool \<times> http1_state" where
  "on_body len h =
     (if len = 0 then (False, h)
      else
        (let add = of_nat len :: u64
         in if body_bytes h > UINT64_MAX - add
            then (True, h\<lparr>body_too_big := True, want_keepalive := False\<rparr>)
            else
              (let h1 = h\<lparr>body_bytes := body_bytes h + add\<rparr>
               in if body_bytes h1 > h1_current_max_body_bytes h1
                  then (True, h1\<lparr>body_too_big := True, want_keepalive := False\<rparr>)
                  else (False, h1))))"

definition h1_bad :: "http1_state \<Rightarrow> http1_state" where
  "h1_bad h = h\<lparr>parse_error := True, want_keepalive := False\<rparr>"

definition h1_bad_done :: "http1_state \<Rightarrow> http1_state" where
  "h1_bad_done h = h\<lparr>parse_error := True, want_keepalive := False, message_done := True\<rparr>"

text \<open>The framing decisions of \<open>on_headers_complete\<close>; \<open>True\<close> to go on with the target.\<close>

definition hc_framing :: "http1_state \<Rightarrow> bool \<times> http1_state" where
  "hc_framing h =
     (if cl_invalid h \<or> cl_count h > 1 then (False, h1_bad h)
      else if expect_unsupported h then (False, h1_bad h)
      else if te_count h > 0 \<and> cl_count h > 0 then (False, h1_bad h)
      else if te_count h > 0 then
        (if te_chunked h \<and> \<not> te_other h then (True, h\<lparr>message_done := False, body_remaining := 0\<rparr>)
         else (False, h\<lparr>unsupported_te := True, want_keepalive := False\<rparr>))
      else (True, h))"

definition hc_oom :: "http1_state \<Rightarrow> http1_state" where
  "hc_oom h = h\<lparr>internal_error := True, want_keepalive := False, message_done := True\<rparr>"

definition hc_dec_buffer :: "nat \<Rightarrow> http1_state \<Rightarrow> (bool \<times> http1_state) option" where
  "hc_dec_buffer cap h =
     (if path_dec h \<noteq> None then Some (True, h)
      else do {
        (buf, h') \<leftarrow> h1_alloc (cap + 1) 1 h;
        (case buf of
           None \<Rightarrow> Some (False, hc_oom h')
         | Some room \<Rightarrow>
             in_block 1 room (True, h'\<lparr>path_dec := Some [], path_dec_cap := u16_of cap, path_dec_room := room\<rparr>))
      })"

definition hc_norm_buffer :: "nat \<Rightarrow> http1_state \<Rightarrow> (bool \<times> http1_state) option" where
  "hc_norm_buffer cap h =
     (if path_norm h \<noteq> None then Some (True, h)
      else do {
        (buf, h') \<leftarrow> h1_alloc (cap + 1) 1 h;
        (case buf of
           None \<Rightarrow> Some (False, hc_oom h')
         | Some room \<Rightarrow>
             in_block 1 room (True, h'\<lparr>path_norm := Some [], path_norm_cap := u16_of cap, path_norm_room := room\<rparr>))
      })"

definition hc_path_buffers :: "nat \<Rightarrow> http1_state \<Rightarrow> (bool \<times> http1_state) option" where
  "hc_path_buffers cap h = do {
     (ok, h1) \<leftarrow> hc_dec_buffer cap h;
     if \<not> ok then Some (False, h1) else hc_norm_buffer cap h1
   }"

text \<open>
  The decoder and the normaliser may fill their output up to the capacity they are given; the
  caller then writes a zero behind what they report, if that is within the capacity.
\<close>

definition path_out :: "nat \<Rightarrow> nat \<Rightarrow> nat \<Rightarrow> 'a \<Rightarrow> 'a option" where
  "path_out n cap room x = (if n \<le> cap then in_block (n + 1) room x else Some x)"

lemma path_out_Some: "path_out n cap room x = Some y \<Longrightarrow> y = x"
  by (simp add: path_out_def split: if_splits)

definition hc_normalize :: "string \<Rightarrow> http1_state \<Rightarrow> (bool \<times> http1_state) option" where
  "hc_normalize path h = do {
     d \<leftarrow> in_block (path_dec_cap h) (path_dec_room h) (url_percent_decode_strict (Some path) (path_dec_cap h) True);
     (case d of
        Inl e \<Rightarrow> Some (False, h1_bad_done h)
      | Inr dec \<Rightarrow> do {
          h1 \<leftarrow> path_out (length dec) (path_dec_cap h) (path_dec_room h)
                 (h\<lparr>path_dec_len := u16_of (length dec), path_dec := Some dec\<rparr>);
          out0 \<leftarrow> in_block (path_norm_cap h1) (path_norm_room h1) (replicate (path_norm_cap h1) NUL);
          r \<leftarrow> url_path_normalize_absolute (Some dec) out0;
          (case r of
             Inl e \<Rightarrow> Some (False, h1_bad_done h1)
           | Inr (out, n, ends) \<Rightarrow>
               path_out n (path_norm_cap h1) (path_norm_room h1)
                 (True, h1\<lparr>path_norm_len := u16_of n, path_norm := Some (take n out),
                           path_ends_with_slash := ends\<rparr>))
        })
   }"

definition hc_body :: "vhost_t option \<Rightarrow> http1_state \<Rightarrow> http1_state" where
  "hc_body vhost h =
     (let h1 = h\<lparr>max_body_bytes := h1_resolve_max_body_bytes vhost h\<rparr>
      in if cl_count h1 = 1 then
           (if cl_value h1 > max_body_bytes h1 then h1\<lparr>body_too_big := True, want_keepalive := False\<rparr>
            else h1\<lparr>body_remaining := cl_value h1, message_done := (cl_value h1 = 0)\<rparr>)
         else if te_count h1 = 0 then h1\<lparr>body_remaining := 0, message_done := True\<rparr>
         else h1)"

definition hc_target :: "vhost_t option \<Rightarrow> http1_state \<Rightarrow> http1_state option" where
  "hc_target vhost h0 =
     (let t = (case target h0 of None \<Rightarrow> [] | Some t \<Rightarrow> t);
          h = h0\<lparr>path_bad := False, method_not_allowed := False, path_len := 0, query_off := length t,
                 query_len := 0, path_dec_len := 0, path_norm_len := 0, path_ends_with_slash := False\<rparr>
      in if h1_method h \<noteq> HTTP_GET \<and> h1_method h \<noteq> HTTP_HEAD
         then Some (h\<lparr>method_not_allowed := True, want_keepalive := False, message_done := True,
                      body_remaining := 0\<rparr>)
         else if internal_error h then Some (h\<lparr>want_keepalive := False, message_done := True\<rparr>)
         else if t = [] \<or> target_too_long h \<or> target h = None then Some (h1_bad_done h)
         else
           (case url_split_path_query (target h) of
              Inl e \<Rightarrow> Some (h1_bad_done h)
            | Inr (plen, qoff, qlen) \<Rightarrow>
                (if plen = 0 \<or> hd t \<noteq> CHR ''/'' then Some (h1_bad_done h)
                 else
                   (let h1 = h\<lparr>path_len := u16_of plen, query_off := u16_of qoff, query_len := u16_of qlen\<rparr>
                    in if plen > REQ_PATH_MAX then Some (h1_bad_done h1)
                       else do {
                         (ok, h2) \<leftarrow> hc_path_buffers plen h1;
                         if \<not> ok then Some h2
                         else do {
                           (ok', h3) \<leftarrow> hc_normalize (take plen t) h2;
                           Some (if ok' then hc_body vhost h3 else h3)
                         }
                       }))))"

text \<open>\<open>keep\<close> is \<open>llhttp_should_keep_alive\<close>, \<open>meth\<close> the method llhttp has read.\<close>

definition on_headers_complete ::
    "vhost_t option \<Rightarrow> bool \<Rightarrow> llhttp_method \<Rightarrow> http1_state \<Rightarrow> http1_state option" where
  "on_headers_complete vhost keep meth h0 = do {
     let h1 = h0\<lparr>headers_done := True, want_keepalive := keep, h1_method := meth, method_set := True\<rparr>;
     h2 \<leftarrow> (if hdr_state h1 = 2 then h1_finalize_interested_header h1 else Some h1);
     let h3 = h2\<lparr>unsupported_te := False, body_remaining := 0, body_bytes := 0,
                 max_body_bytes := h1_current_max_body_bytes h2, body_too_big := False,
                 message_done := False\<rparr>;
     let (go, h4) = hc_framing h3;
     if go then hc_target vhost h4 else Some h4
   }"

definition on_message_complete :: "http1_state \<Rightarrow> http1_state" where
  "on_message_complete h = h\<lparr>message_done := True\<rparr>"

datatype h1_event =
    Ev_url string | Ev_header_field string | Ev_header_value string
  | Ev_headers_complete bool llhttp_method | Ev_body nat | Ev_message_complete

fun h1_dispatch :: "vhost_t option \<Rightarrow> h1_event \<Rightarrow> http1_state \<Rightarrow> http1_state option" where
  "h1_dispatch vh (Ev_url at) h = on_url at h"
| "h1_dispatch vh (Ev_header_field at) h = on_header_field at h"
| "h1_dispatch vh (Ev_header_value at) h = on_header_value at h"
| "h1_dispatch vh (Ev_headers_complete keep meth) h = on_headers_complete vh keep meth h"
| "h1_dispatch vh (Ev_body n) h = Some (snd (on_body n h))"
| "h1_dispatch vh Ev_message_complete h = Some (on_message_complete h)"

fun h1_run :: "vhost_t option \<Rightarrow> h1_event list \<Rightarrow> http1_state \<Rightarrow> http1_state option" where
  "h1_run vh [] h = Some h"
| "h1_run vh (e # es) h = do { h1 \<leftarrow> h1_dispatch vh e h; h1_run vh es h1 }"

section \<open>Start of a connection and of the next request\<close>

text \<open>
  \<open>h1_zero\<close> is the zeroed structure of a fresh connection; method 0 is \<open>HTTP_DELETE\<close>.
  \<open>conn_init_h1\<close> and \<open>conn_reset_h1\<close> are what \<open>conn_init\<close> and \<open>conn_reset_request\<close> do to
  the request state. \<open>mhb\<close> and \<open>mbb\<close> are the limits the worker's configuration gives.
\<close>

definition h1_zero :: http1_state where
  "h1_zero =
     \<lparr>req_hdr_store_mask = 0, req_hdr_seen_mask = 0, h1_method = HTTP_OTHER 0, method_set = False,
      target = None, target_cap = 0, target_room = 0, target_too_long = False, path_len = 0, query_off = 0, query_len = 0,
      path_dec = None, path_dec_cap = 0, path_dec_room = 0, path_dec_len = 0,
      path_norm = None, path_norm_cap = 0, path_norm_room = 0, path_norm_len = 0,
      path_bad = False, path_ends_with_slash = False, method_not_allowed = False,
      headers_done = False, message_done = False, parse_error = False, internal_error = False,
      header_too_big = False, header_fields_too_many = False, unsupported_te = False,
      want_keepalive = False, parser_bytes = 0, max_header_bytes = 0,
      body_remaining = 0, body_bytes = 0, max_body_bytes = 0, body_too_big = False,
      pending_line_error = False, hdr_state = 0, hdr_interest = 0, hdr_name = [], hdr_val = [],
      hdr_val_raw = [], hdr_val_raw_truncated = False, req_hdrs = [], req_hdr_cap = 0, req_hdrs_room = 0,
      hdr_fields_count = 0, hdr_fields_max = 0, arena = empty_arena, h1_mallocs = [],
      cl_count = 0, te_count = 0, expect_count = 0, cl_invalid = False, te_chunked = False,
      te_other = False, expect_100_continue = False, expect_unsupported = False, cl_value = 0,
      parser_paused = False\<rparr>"

definition conn_init_h1 ::
    "vhost_t option \<Rightarrow> nat \<Rightarrow> u64 \<Rightarrow> req_arena \<Rightarrow> nat option list \<Rightarrow> http1_state" where
  "conn_init_h1 vhost mhb mbb a ms =
     (let feats = (case vhost of None \<Rightarrow> 0 | Some vh \<Rightarrow> features vh);
          mhf = (case vhost of None \<Rightarrow> 100 | Some vh \<Rightarrow> max_header_fields vh)
      in h1_zero\<lparr>arena := req_arena_init a, h1_mallocs := ms,
           req_hdr_store_mask := http_headers_store_mask feats, hdr_fields_max := mhf,
           max_header_bytes := mhb, max_body_bytes := mbb\<rparr>)"

definition conn_reset_h1 :: "nat \<Rightarrow> u64 \<Rightarrow> http1_state \<Rightarrow> http1_state" where
  "conn_reset_h1 mhb mbb h0 =
     (let h1 = h0\<lparr>headers_done := False, message_done := False, parse_error := False,
                  internal_error := False, header_too_big := False, header_fields_too_many := False,
                  unsupported_te := False, want_keepalive := False\<rparr>;
          h2 = http_parser_reset_header_state h1;
          h3 = h2\<lparr>cl_count := 0, te_count := 0, expect_count := 0, cl_invalid := False,
                  te_chunked := False, te_other := False, expect_100_continue := False,
                  expect_unsupported := False, cl_value := 0, h1_method := HTTP_OTHER 0,
                  method_set := False, target_too_long := False, path_len := 0, query_off := 0,
                  query_len := 0, path_dec_len := 0, path_norm_len := 0, path_bad := False,
                  path_ends_with_slash := False, method_not_allowed := False\<rparr>
      in h3\<lparr>arena := req_arena_reset (arena h3), target := None, target_cap := 0, target_room := 0,
            path_dec := None, path_dec_cap := 0, path_dec_room := 0, path_norm := None,
            path_norm_cap := 0, path_norm_room := 0, req_hdrs := [], req_hdr_cap := 0, req_hdrs_room := 0, req_hdr_seen_mask := 0, hdr_fields_count := 0,
            parser_paused := False, parser_bytes := 0, max_header_bytes := mhb,
            body_remaining := 0, body_bytes := 0, max_body_bytes := mbb, body_too_big := False,
            pending_line_error := False\<rparr>)"

text \<open>A connection's life: requests, each a sequence of events, separated by resets.\<close>

datatype h1_input = Event h1_event | Next_request

fun h1_session :: "vhost_t option \<Rightarrow> nat \<Rightarrow> u64 \<Rightarrow> h1_input list \<Rightarrow> http1_state \<Rightarrow> http1_state option" where
  "h1_session vh mhb mbb [] h = Some h"
| "h1_session vh mhb mbb (Event e # es) h =
     do { h1 \<leftarrow> h1_dispatch vh e h; h1_session vh mhb mbb es h1 }"
| "h1_session vh mhb mbb (Next_request # es) h = h1_session vh mhb mbb es (conn_reset_h1 mhb mbb h)"

end
