(* ===== verification/Http1_Safety.thy ===== *)
theory Http1_Safety
  imports Http1_Parser
begin

text \<open>
  The request-parser callbacks of \<^verbatim>\<open>src/src/http_parser.c\<close> stay inside their buffers for every
  sequence of parser events: an invariant on the arena, the accumulators, the captured headers
  and the path buffers that every callback preserves.
\<close>

section \<open>Memory safety and buffer bounds\<close>

definition mem_ok :: "req_arena \<Rightarrow> nat option list \<Rightarrow> bool" where
  "mem_ok a ms \<longleftrightarrow>
     arena_inv a \<and> distinct (concat (map (\<lambda>m. case m of None \<Rightarrow> [] | Some p \<Rightarrow> [p]) ms)) \<and>
     (\<forall>p. Some p \<in> set ms \<longrightarrow> p \<notin> set (live_addrs a))"

definition hdrs_ok :: "http1_state \<Rightarrow> bool" where
  "hdrs_ok h \<longleftrightarrow>
     length (req_hdrs h) \<le> req_hdr_cap h \<and> req_hdr_cap h \<le> REQ_HDRS_MAX \<and>
     req_hdr_cap h * SIZEOF_HDR_ENTRY \<le> req_hdrs_room h \<and>
     distinct (map e_id (req_hdrs h)) \<and>
     (\<forall>e\<in>set (req_hdrs h). bit (req_hdr_store_mask h) (header_index (e_id e)) \<and>
        bit (req_hdr_seen_mask h) (header_index (e_id e)) \<and>
        length (e_name e) < REQ_HDR_NAME_MAX \<and> length (e_value e) < REQ_HDR_VALUE_MAX)"

definition acc_ok :: "http1_state \<Rightarrow> bool" where
  "acc_ok h \<longleftrightarrow>
     length (hdr_name h) < REQ_HDR_NAME_MAX \<and> length (hdr_val h) < HDR_VAL_CAP \<and>
     length (hdr_val_raw h) < REQ_HDR_VALUE_MAX"

text \<open>A text fits the capacity its buffer is said to have, and the buffer has room for one byte more.\<close>

definition buf_fits :: "string option \<Rightarrow> nat \<Rightarrow> nat \<Rightarrow> bool" where
  "buf_fits b cap room \<longleftrightarrow> (\<forall>t. b = Some t \<longrightarrow> length t \<le> cap \<and> cap + 1 \<le> room)"

definition bufs_ok :: "http1_state \<Rightarrow> bool" where
  "bufs_ok h \<longleftrightarrow>
     buf_fits (target h) (target_cap h) (target_room h) \<and> target_cap h \<le> REQ_TARGET_MAX \<and>
     buf_fits (path_dec h) (path_dec_cap h) (path_dec_room h) \<and> path_dec_cap h \<le> REQ_PATH_MAX \<and>
     buf_fits (path_norm h) (path_norm_cap h) (path_norm_room h) \<and> path_norm_cap h \<le> REQ_PATH_MAX"

definition h1_inv :: "http1_state \<Rightarrow> bool" where
  "h1_inv h \<longleftrightarrow> mem_ok (arena h) (h1_mallocs h) \<and> hdrs_ok h \<and> acc_ok h \<and> bufs_ok h"

lemmas h1_inv_simps = h1_inv_def bufs_ok_def buf_fits_def hdrs_ok_def acc_ok_def

lemmas h1_caps = REQ_TARGET_MAX_def REQ_PATH_MAX_def REQ_HDRS_MAX_def REQ_HDR_NAME_MAX_def
  REQ_HDR_VALUE_MAX_def HDR_VAL_CAP_def SIZEOF_HDR_ENTRY_def

lemma mem_ok_fresh:
  assumes "mem_ok a (h1_mallocs h)"
  shows "fresh_mem (next_malloc h) a"
  using assms by (cases "h1_mallocs h") (auto simp: mem_ok_def fresh_mem_def next_malloc_def)

lemma mem_ok_step:
  assumes "mem_ok a (h1_mallocs h)" "step_post (next_malloc h) r a res a'"
  shows "mem_ok a' (tl (h1_mallocs h))"
proof (cases "h1_mallocs h")
  case Nil
  then show ?thesis using assms by (simp add: mem_ok_def step_post_def)
next
  case (Cons m ms)
  then have live: "set (live_addrs a') \<subseteq> set_option m \<union> set (live_addrs a)" "arena_inv a'"
    using assms(2) by (auto simp: step_post_def next_malloc_def)
  have "p \<notin> set_option m" if "Some p \<in> set ms" for p
    using assms(1) Cons that by (cases m) (fastforce simp: mem_ok_def)+
  then show ?thesis using assms(1) Cons live by (auto simp: mem_ok_def)
qed

lemma h1_alloc_ok:
  assumes "mem_ok (arena h) (h1_mallocs h)" "n < 65536" "align \<in> {1, 2, 4, 8, 16}"
  obtains b a where "h1_alloc n align h = Some (b, h\<lparr>arena := a, h1_mallocs := tl (h1_mallocs h)\<rparr>)"
    "b = None \<or> b = Some n" "mem_ok a (tl (h1_mallocs h))"
proof -
  have "unat (of_nat n :: u64) = n"
    using assms(2) unsigned_of_nat [of n, where 'b = 64 and 'a = nat] by (simp add: take_bit_nat_eq_self)
  then have "size_ok (of_nat n) align" using assms(2,3) by (intro size_ok_pow2) simp_all
  then obtain res a where al: "req_arena_alloc (next_malloc h) (of_nat n) align (arena h) = Some (res, a)"
    "step_post (next_malloc h) (Alloc (of_nat n) align) (arena h) res a"
    using alloc_step_post mem_ok_fresh [OF assms(1)] assms(1) by (metis mem_ok_def)
  show thesis
  proof (rule that)
    show "h1_alloc n align h = Some (map_option (\<lambda>_. n) res, h\<lparr>arena := a, h1_mallocs := tl (h1_mallocs h)\<rparr>)"
      by (simp add: h1_alloc_def al(1))
    show "map_option (\<lambda>_. n) res = None \<or> map_option (\<lambda>_. n) res = Some n" by (cases res) simp_all
    show "mem_ok a (tl (h1_mallocs h))" by (rule mem_ok_step [OF assms(1) al(2)])
  qed
qed

lemma h1_strndup_ok:
  assumes "mem_ok (arena h) (h1_mallocs h)" "length s < 65536"
  obtains ok a where "h1_strndup s h = Some (ok, h\<lparr>arena := a, h1_mallocs := tl (h1_mallocs h)\<rparr>)"
    "mem_ok a (tl (h1_mallocs h))"
proof -
  have "length s + 65 < 2 ^ 64" using assms(2) by simp
  then obtain res a where "req_arena_strndup (next_malloc h) (Some s) (arena h) = Some (res, a)"
    "step_post (next_malloc h) (Dup s) (arena h) res a"
    using strndup_step_post mem_ok_fresh [OF assms(1)] assms(1) by (metis mem_ok_def)
  then show thesis
    using that mem_ok_step [OF assms(1)] by (simp add: h1_strndup_def)
qed

lemma field_seen_same [simp]:
  "arena (http1_header_field_seen h) = arena h" "h1_mallocs (http1_header_field_seen h) = h1_mallocs h"
  "hdrs_ok (http1_header_field_seen h) = hdrs_ok h" "acc_ok (http1_header_field_seen h) = acc_ok h"
  "bufs_ok (http1_header_field_seen h) = bufs_ok h"
  by (simp_all add: http1_header_field_seen_def hdrs_ok_def acc_ok_def bufs_ok_def Let_def)

lemma account_same [simp]:
  "arena (h1_account_header h) = arena h" "h1_mallocs (h1_account_header h) = h1_mallocs h"
  "hdrs_ok (h1_account_header h) = hdrs_ok h" "acc_ok (h1_account_header h) = acc_ok h"
  "bufs_ok (h1_account_header h) = bufs_ok h"
  by (simp_all add: h1_account_header_def hdrs_ok_def acc_ok_def bufs_ok_def Let_def split: option.splits prod.splits)

lemma mem_update_same [simp]:
  "hdrs_ok (h\<lparr>arena := a, h1_mallocs := ms\<rparr>) = hdrs_ok h"
  "acc_ok (h\<lparr>arena := a, h1_mallocs := ms\<rparr>) = acc_ok h"
  "bufs_ok (h\<lparr>arena := a, h1_mallocs := ms\<rparr>) = bufs_ok h"
  by (simp_all add: hdrs_ok_def acc_ok_def bufs_ok_def)

lemma oom_same [simp]:
  "h1_inv (h1_oom h) = h1_inv h" "h1_inv (hc_oom h) = h1_inv h" "h1_inv (h1_bad h) = h1_inv h"
  "h1_inv (h1_bad_done h) = h1_inv h"
  by (simp_all add: h1_inv_def h1_oom_def hc_oom_def h1_bad_def h1_bad_done_def hdrs_ok_def acc_ok_def bufs_ok_def)

lemma ensure_cap_ok:
  assumes inv: "h1_inv h" and need: "need = length (req_hdrs h) + 1" "need \<le> REQ_HDRS_MAX"
  obtains ok h' where "h1_hdrs_ensure_cap need h = Some (ok, h')" "h1_inv h'"
    "req_hdrs h' = req_hdrs h" "req_hdr_seen_mask h' = req_hdr_seen_mask h"
    "req_hdr_store_mask h' = req_hdr_store_mask h" "hdr_name h' = hdr_name h"
    "ok \<Longrightarrow> need \<le> req_hdr_cap h'"
proof (cases "req_hdr_cap h \<ge> need")
  case True
  then show thesis using that [of True h] inv by (simp add: h1_hdrs_ensure_cap_def)
next
  case False
  define c2 where "c2 = hdrs_new_cap (req_hdr_cap h) need"
  have c2: "need \<le> c2" "c2 \<le> REQ_HDRS_MAX" using need by (auto simp: c2_def hdrs_new_cap_def Let_def)
  then have m: "mem_ok (arena h) (h1_mallocs h)" "c2 * SIZEOF_HDR_ENTRY < 65536"
    using inv by (simp_all add: h1_inv_def h1_caps)
  obtain b a where al: "h1_alloc (c2 * SIZEOF_HDR_ENTRY) 8 h =
      Some (b, h\<lparr>arena := a, h1_mallocs := tl (h1_mallocs h)\<rparr>)" "b = None \<or> b = Some (c2 * SIZEOF_HDR_ENTRY)"
      "mem_ok a (tl (h1_mallocs h))"
    by (rule h1_alloc_ok [OF m, of 8]) (simp, iprover)
  let ?h1 = "h\<lparr>arena := a, h1_mallocs := tl (h1_mallocs h)\<rparr>"
  let ?h2 = "?h1\<lparr>req_hdr_cap := c2, req_hdrs_room := c2 * SIZEOF_HDR_ENTRY\<rparr>"
  from al(2) show thesis
  proof
    assume "b = None"
    then have "h1_hdrs_ensure_cap need h = Some (False, ?h1)"
      using False al(1) by (simp add: h1_hdrs_ensure_cap_def flip: c2_def)
    then show thesis by (rule that) (use inv al(3) in \<open>auto simp: h1_inv_def\<close>)
  next
    assume "b = Some (c2 * SIZEOF_HDR_ENTRY)"
    moreover have "length (req_hdrs h) * SIZEOF_HDR_ENTRY \<le> c2 * SIZEOF_HDR_ENTRY"
      using c2(1) need(1) by (intro mult_le_mono1) simp
    ultimately have "h1_hdrs_ensure_cap need h = Some (True, ?h2)"
      using False al(1) by (simp add: h1_hdrs_ensure_cap_def in_block_def flip: c2_def)
    then show thesis by (rule that) (use inv al(3) c2 need in \<open>auto simp: h1_inv_simps\<close>)
  qed
qed

lemma store_header_ok:
  assumes inv: "h1_inv h" and room: "length (req_hdrs h) < REQ_HDRS_MAX"
    and bits: "bit (req_hdr_store_mask h) (header_index hid)" "bit (req_hdr_seen_mask h) (header_index hid)"
    and new: "hid \<notin> e_id ` set (req_hdrs h)"
  shows "\<exists>ok h'. h1_store_header hid h = Some (ok, h') \<and> h1_inv h'"
proof -
  obtain ok h1 where h1: "h1_hdrs_ensure_cap (length (req_hdrs h) + 1) h = Some (ok, h1)" "h1_inv h1"
    "req_hdrs h1 = req_hdrs h" "req_hdr_seen_mask h1 = req_hdr_seen_mask h"
    "req_hdr_store_mask h1 = req_hdr_store_mask h" "ok \<Longrightarrow> length (req_hdrs h) + 1 \<le> req_hdr_cap h1"
    using room by (auto intro: ensure_cap_ok [OF inv refl])
  show ?thesis
  proof (cases ok)
    case False
    then show ?thesis using h1 by (auto simp: h1_store_header_def)
  next
    case True
    let ?nm = "take (REQ_HDR_NAME_MAX - 1) (hdr_name h1)"
      and ?vv = "take (REQ_HDR_VALUE_MAX - 1) (hdr_val_raw h1)"
    obtain okn a2 where h2: "h1_strndup ?nm h1 = Some (okn, h1\<lparr>arena := a2, h1_mallocs := tl (h1_mallocs h1)\<rparr>)"
      "mem_ok a2 (tl (h1_mallocs h1))"
      using h1(2) by (auto simp: h1_inv_def h1_caps elim: h1_strndup_ok [of h1 ?nm])
    let ?h2 = "h1\<lparr>arena := a2, h1_mallocs := tl (h1_mallocs h1)\<rparr>"
    have m2: "mem_ok (arena ?h2) (h1_mallocs ?h2)" "length ?vv < 65536" using h2(2) by (simp_all add: h1_caps)
    obtain okv a3 where h3: "h1_strndup ?vv ?h2 = Some (okv, ?h2\<lparr>arena := a3, h1_mallocs := tl (h1_mallocs ?h2)\<rparr>)"
      "mem_ok a3 (tl (h1_mallocs ?h2))"
      by (rule h1_strndup_ok [OF m2])
    let ?h3 = "?h2\<lparr>arena := a3, h1_mallocs := tl (h1_mallocs ?h2)\<rparr>"
    let ?e = "\<lparr>e_name = ?nm, e_id = hid, e_truncated = hdr_val_raw_truncated ?h3, e_value = ?vv\<rparr>"
    have inv3: "h1_inv ?h3" using h1(2) h3(2) by (simp add: h1_inv_simps)
    have "h1_inv (?h3\<lparr>req_hdrs := req_hdrs ?h3 @ [?e]\<rparr>)"
      using inv3 h1 True bits new by (auto simp: h1_inv_simps h1_caps)
    moreover have "(length (req_hdrs ?h3) + 1) * SIZEOF_HDR_ENTRY \<le> req_hdrs_room ?h3"
      using h1 True by (auto simp: h1_inv_def hdrs_ok_def SIZEOF_HDR_ENTRY_def)
    moreover have "h1_store_header hid h =
      (if \<not> okn \<or> \<not> okv then Some (False, h1_oom ?h3)
       else Some (True, ?h3\<lparr>req_hdrs := req_hdrs ?h3 @ [?e]\<rparr>))"
      using h1(1) True h2(1) h3(1) calculation(2) by (simp add: h1_store_header_def in_block_def Let_def)
    ultimately show ?thesis using inv3 by (cases "\<not> okn \<or> \<not> okv") auto
  qed
qed

lemma capture_ok:
  assumes inv: "h1_inv h"
  shows "\<exists>ok h'. h1_capture_header h = Some (ok, h') \<and> h1_inv h'"
proof -
  have "\<exists>ok h'. h1_capture_header h = Some (ok, h') \<and> h1_inv h'"
    if hid: "http_header_lookup_lower (hdr_name h) = Some hid" "hdr_name h \<noteq> []" "req_hdr_store_mask h \<noteq> 0"
      and want: "bit (req_hdr_store_mask h) (header_index hid)" "\<not> bit (req_hdr_seen_mask h) (header_index hid)"
    for hid
  proof -
    let ?h = "h\<lparr>req_hdr_seen_mask := req_hdr_seen_mask h OR http_header_bit hid\<rparr>"
    have eq: "h1_capture_header h =
      (if length (req_hdrs h) < REQ_HDRS_MAX then h1_store_header hid ?h else Some (True, ?h))"
      using hid want mask_test [of "req_hdr_store_mask h" hid] mask_test [of "req_hdr_seen_mask h" hid]
      by (simp add: h1_capture_header_def Let_def)
    have inv': "h1_inv ?h"
      using inv by (auto simp: h1_inv_simps bit_or_iff)
    have new: "hid \<notin> e_id ` set (req_hdrs ?h)"
      using inv want(2) by (auto simp: h1_inv_def hdrs_ok_def)
    have "bit (req_hdr_seen_mask ?h) (header_index hid)" by (simp add: bit_or_iff bit_http_header_bit)
    from store_header_ok [OF inv' _ _ this new] show ?thesis
      using eq inv' want(1) by (cases "length (req_hdrs h) < REQ_HDRS_MAX") auto
  qed
  moreover have "m AND http_header_bit hid = 0 \<longleftrightarrow> \<not> bit m (header_index hid)" for m hid
    using mask_test by blast
  ultimately show ?thesis
    using inv by (cases "http_header_lookup_lower (hdr_name h)") (auto simp: h1_capture_header_def Let_def)
qed

lemma finalize_ok:
  assumes "h1_inv h"
  shows "\<exists>h'. h1_finalize_interested_header h = Some h' \<and> h1_inv h'"
proof -
  have "h1_inv (http1_header_field_seen h)" using assms by (simp add: h1_inv_def)
  from capture_ok [OF this] obtain ok h2
    where "h1_capture_header (http1_header_field_seen h) = Some (ok, h2)" "h1_inv h2" by blast
  moreover have "h1_inv (h1_account_header h2)" using \<open>h1_inv h2\<close> by (simp add: h1_inv_def)
  ultimately show ?thesis
    using assms \<open>h1_inv (http1_header_field_seen h)\<close> by (simp add: h1_finalize_interested_header_def Let_def)
qed

text \<open>The doubling loop reaches its goal within the fuel it is given.\<close>

lemma grow_target_reaches:
  assumes "cap > 0"
  shows "need \<le> grow_target need need cap"
proof -
  have "need \<le> cap * 2 ^ fuel \<Longrightarrow> need \<le> grow_target fuel need cap" for fuel
    by (induction fuel need cap rule: grow_target.induct) (auto simp: mult.assoc)
  moreover have "need \<le> cap * 2 ^ need"
    using assms less_exp [of need] by (metis One_nat_def Suc_leI less_imp_le mult_le_mono nat_mult_1)
  ultimately show ?thesis by blast
qed

lemma target_new_cap_bounds:
  assumes "need \<le> REQ_TARGET_MAX"
  shows "need \<le> target_new_cap cap need" "target_new_cap cap need \<le> REQ_TARGET_MAX"
  using assms by (auto simp: target_new_cap_def Let_def)

lemma target_grow_ok:
  assumes inv: "h1_inv h" and need: "need \<le> REQ_TARGET_MAX" "length (cur_target h) \<le> need"
  obtains ok g where "target_grow need h = Some (ok, g)" "h1_inv g"
    "ok \<Longrightarrow> cur_target g = cur_target h \<and> target_cap g < target_room g \<and> need \<le> target_cap g"
proof -
  let ?cap = "target_new_cap (target_cap h) need"
  have bound: "need \<le> ?cap" "?cap \<le> REQ_TARGET_MAX" using target_new_cap_bounds [OF need(1)] by auto
  then have m: "mem_ok (arena h) (h1_mallocs h)" "?cap + 1 < 65536" and u: "u16_of ?cap = ?cap"
    using inv by (simp_all add: h1_inv_def h1_caps u16_of_def)
  obtain b a where al: "h1_alloc (?cap + 1) 1 h = Some (b, h\<lparr>arena := a, h1_mallocs := tl (h1_mallocs h)\<rparr>)"
      "b = None \<or> b = Some (?cap + 1)" "mem_ok a (tl (h1_mallocs h))"
    by (rule h1_alloc_ok [OF m, of 1]) (simp, iprover)
  from al(2) show thesis
  proof
    assume "b = None"
    with al(1) show thesis
      by (intro that [of False "h\<lparr>arena := a, h1_mallocs := tl (h1_mallocs h), internal_error := True,
            want_keepalive := False\<rparr>"])
        (use inv al(3) in \<open>simp_all add: target_grow_def h1_inv_simps Let_def\<close>)
  next
    assume "b = Some (?cap + 1)"
    with al(1) show thesis
      by (intro that [of True "h\<lparr>arena := a, h1_mallocs := tl (h1_mallocs h), target := Some (cur_target h),
            target_cap := ?cap, target_room := ?cap + 1\<rparr>"])
        (use inv al(3) bound need u in \<open>simp_all add: target_grow_def in_block_def h1_inv_simps Let_def\<close>)
  qed
qed

lemma target_append_ok:
  assumes "h1_inv h" "target_cap h < target_room h"
    "length (cur_target h) + length at \<le> target_cap h"
  shows "\<exists>g. target_append at h = Some g \<and> h1_inv g"
  using assms by (auto simp: target_append_def in_block_def h1_inv_simps)

lemma on_url_ok:
  assumes inv: "h1_inv h"
  shows "\<exists>h'. on_url at h = Some h' \<and> h1_inv h'"
proof -
  let ?need = "length (cur_target h) + length at"
  consider (skip) "at = [] \<or> target_too_long h \<or> internal_error h \<or> ?need > REQ_TARGET_MAX"
    | (grow) "at \<noteq> []" "\<not> target_too_long h" "\<not> internal_error h" "?need \<le> REQ_TARGET_MAX"
        "target h = None \<or> ?need > target_cap h"
    | (fits) t where "at \<noteq> []" "\<not> target_too_long h" "\<not> internal_error h" "?need \<le> REQ_TARGET_MAX"
        "target h = Some t" "?need \<le> target_cap h"
    by (cases "target h") fastforce+
  then show ?thesis
  proof cases
    case skip
    then show ?thesis using inv by (auto simp: on_url_def h1_inv_simps Let_def)
  next
    case grow
    obtain ok g where g: "target_grow ?need h = Some (ok, g)" "h1_inv g"
      "ok \<Longrightarrow> cur_target g = cur_target h \<and> target_cap g < target_room g \<and> ?need \<le> target_cap g"
      using target_grow_ok [OF inv grow(4)] by auto
    show ?thesis
    proof (cases ok)
      case True
      then show ?thesis using grow g target_append_ok [OF g(2), of at] by (simp add: on_url_def)
    next
      case False
      then show ?thesis using grow g by (simp add: on_url_def)
    qed
  next
    case fits
    then have "target_cap h < target_room h" using inv by (simp add: h1_inv_simps)
    then show ?thesis using fits target_append_ok [OF inv, of at] by (simp add: on_url_def)
  qed
qed

lemma append_lower_less:
  "length dst < cap \<Longrightarrow> length (h1_hdr_append_lower cap dst src) < cap"
  by (simp add: h1_hdr_append_lower_def)

lemma append_raw_less:
  "length dst < cap \<Longrightarrow> length (fst (h1_hdr_append_raw cap dst src)) < cap"
  by (simp add: h1_hdr_append_raw_def Let_def)

lemma on_header_field_ok:
  assumes inv: "h1_inv h"
  shows "\<exists>h'. on_header_field at h = Some h' \<and> h1_inv h'"
proof -
  have app: "h1_inv (g\<lparr>hdr_state := 1, hdr_name := h1_hdr_append_lower REQ_HDR_NAME_MAX (hdr_name g) at\<rparr>)"
    if "h1_inv g" for g
    using that append_lower_less [of "hdr_name g" REQ_HDR_NAME_MAX at]
    by (simp add: h1_inv_simps)
  obtain g where g: "h1_finalize_interested_header h = Some g" "h1_inv g" using finalize_ok [OF inv] by blast
  have "h1_inv (http_parser_reset_header_state g)"
    using g(2) by (simp add: http_parser_reset_header_state_def h1_inv_simps h1_caps)
  then show ?thesis
    using inv g app by (cases "hdr_state h = 2") (auto simp: on_header_field_def Let_def)
qed

lemma on_header_value_ok:
  assumes inv: "h1_inv h"
  shows "\<exists>h'. on_header_value at h = Some h' \<and> h1_inv h'"
proof -
  define g where "g = (if hdr_state h \<noteq> 2
    then h\<lparr>hdr_interest := header_interest (hdr_name h), hdr_state := 2, hdr_val := [],
           hdr_val_raw := [], hdr_val_raw_truncated := False\<rparr> else h)"
  have g: "h1_inv g" using inv by (simp add: g_def h1_inv_simps h1_caps)
  have len: "length (hdr_val g) < HDR_VAL_CAP" "length (hdr_val_raw g) < REQ_HDR_VALUE_MAX"
    using g by (simp_all add: h1_inv_def acc_ok_def)
  obtain raw tr where raw: "h1_hdr_append_raw REQ_HDR_VALUE_MAX (hdr_val_raw g) at = (raw, tr)" by fastforce
  have "length raw < REQ_HDR_VALUE_MAX" using append_raw_less [OF len(2), of at] raw by simp
  then show ?thesis
    using inv g append_lower_less [OF len(1), of at] raw
    by (auto simp: on_header_value_def h1_inv_simps Let_def simp flip: g_def)
qed

lemma on_body_ok: "h1_inv h \<Longrightarrow> h1_inv (snd (on_body n h))"
  by (auto simp: on_body_def h1_inv_simps Let_def)

lemma path_alloc_ok:
  assumes inv: "h1_inv h" and cap: "cap \<le> REQ_PATH_MAX"
  obtains (null) a where "h1_alloc (cap + 1) 1 h = Some (None, h\<lparr>arena := a, h1_mallocs := tl (h1_mallocs h)\<rparr>)"
      "mem_ok a (tl (h1_mallocs h))"
  | (block) a where "h1_alloc (cap + 1) 1 h = Some (Some (cap + 1), h\<lparr>arena := a, h1_mallocs := tl (h1_mallocs h)\<rparr>)"
      "mem_ok a (tl (h1_mallocs h))"
proof -
  have m: "mem_ok (arena h) (h1_mallocs h)" "cap + 1 < 65536" using inv cap by (simp_all add: h1_inv_def h1_caps)
  show thesis by (rule h1_alloc_ok [OF m, of 1]) (auto intro: null block)
qed

lemma u16_path: "cap \<le> REQ_PATH_MAX \<Longrightarrow> u16_of cap = cap"
  by (simp add: u16_of_def h1_caps)

lemma dec_buffer_ok:
  assumes inv: "h1_inv h" and cap: "cap \<le> REQ_PATH_MAX"
  shows "\<exists>ok h'. hc_dec_buffer cap h = Some (ok, h') \<and> h1_inv h' \<and> (ok \<longrightarrow> path_dec h' \<noteq> None)"
proof (cases "path_dec h")
  case None
  from path_alloc_ok [OF inv cap] show ?thesis
    by cases (use None inv cap u16_path [OF cap] in
        \<open>auto simp: hc_dec_buffer_def hc_oom_def in_block_def h1_inv_simps\<close>)
qed (use inv in \<open>auto simp: hc_dec_buffer_def\<close>)

lemma norm_buffer_ok:
  assumes inv: "h1_inv h" and cap: "cap \<le> REQ_PATH_MAX"
  shows "\<exists>ok h'. hc_norm_buffer cap h = Some (ok, h') \<and> h1_inv h' \<and> path_dec h' = path_dec h \<and>
    (ok \<longrightarrow> path_norm h' \<noteq> None)"
proof (cases "path_norm h")
  case None
  from path_alloc_ok [OF inv cap] show ?thesis
    by cases (use None inv cap u16_path [OF cap] in
        \<open>auto simp: hc_norm_buffer_def hc_oom_def in_block_def h1_inv_simps\<close>)
qed (use inv in \<open>auto simp: hc_norm_buffer_def\<close>)

lemma path_buffers_ok:
  assumes "h1_inv h" "cap \<le> REQ_PATH_MAX"
  shows "\<exists>ok h'. hc_path_buffers cap h = Some (ok, h') \<and> h1_inv h' \<and>
    (ok \<longrightarrow> path_dec h' \<noteq> None \<and> path_norm h' \<noteq> None)"
proof -
  obtain ok g where g: "hc_dec_buffer cap h = Some (ok, g)" "h1_inv g" "ok \<longrightarrow> path_dec g \<noteq> None"
    using dec_buffer_ok [OF assms] by blast
  obtain ok' g' where "hc_norm_buffer cap g = Some (ok', g')" "h1_inv g'" "path_dec g' = path_dec g"
      "ok' \<longrightarrow> path_norm g' \<noteq> None"
    using norm_buffer_ok [OF g(2) assms(2)] by blast
  then show ?thesis using g by (cases ok) (auto simp: hc_path_buffers_def)
qed

lemma normalize_total:
  obtains (err) e where "url_path_normalize_absolute (Some p) out = Some (Inl e)"
  | (ok) out1 n ends where "url_path_normalize_absolute (Some p) out = Some (Inr (out1, n, ends))"
      "length out1 = length out" "take n out1 = render_path (canonical_segments p)"
proof (cases "out = [] \<or> p = [] \<or> hd p \<noteq> CHR ''/''")
  case True
  then show thesis by (intro err [of URL_INVALID]) (auto simp: url_path_normalize_absolute_def)
next
  case False
  with url_path_normalize_cases [of out p] err ok show thesis by blast
qed

lemma decode_bound: "url_percent_decode_strict (Some s) cap True = Inr d \<Longrightarrow> length d \<le> cap"
  using percent_decode_loop_shape [of cap s "[]" d]
  by (auto simp: url_percent_decode_strict_def split: if_splits)

lemma h1_bad_done_ok: "h1_inv h \<Longrightarrow> h1_inv (h1_bad_done h)"
  by (simp add: h1_bad_done_def h1_inv_simps)

lemma normalize_ok:
  assumes inv: "h1_inv h" and bufs: "path_dec h \<noteq> None" "path_norm h \<noteq> None"
  shows "\<exists>ok h'. hc_normalize path h = Some (ok, h') \<and> h1_inv h'"
proof -
  have room: "path_dec_cap h < path_dec_room h" "path_norm_cap h < path_norm_room h"
    using inv bufs by (auto simp: h1_inv_simps)
  show ?thesis
  proof (cases "url_percent_decode_strict (Some path) (path_dec_cap h) True")
    case (Inl e)
    then show ?thesis using h1_bad_done_ok [OF inv] room by (auto simp: hc_normalize_def in_block_def)
  next
    case (Inr dec)
    let ?h = "h\<lparr>path_dec_len := u16_of (length dec), path_dec := Some dec\<rparr>"
    have len: "length dec \<le> path_dec_cap h" by (rule decode_bound [OF Inr])
    then have inv': "h1_inv ?h"
      using inv room by (simp add: h1_inv_simps)
    show ?thesis
    proof (cases rule: normalize_total [of dec "replicate (path_norm_cap ?h) NUL"])
      case (err e)
      then show ?thesis using Inr h1_bad_done_ok [OF inv'] room len
        by (auto simp: hc_normalize_def in_block_def path_out_def)
    next
      case (ok out1 n ends)
      have "length (take n out1) \<le> path_norm_cap h" using ok(2) by simp
      then show ?thesis using Inr inv' ok room len
        by (auto simp: hc_normalize_def in_block_def path_out_def h1_inv_simps)
    qed
  qed
qed

lemma hc_body_ok: "h1_inv h \<Longrightarrow> h1_inv (hc_body vh h)"
  by (simp add: hc_body_def Let_def h1_inv_simps)

lemma hc_target_ok:
  assumes inv: "h1_inv h0"
  shows "\<exists>h'. hc_target vh h0 = Some h' \<and> h1_inv h'"
proof -
  define h where "h = h0\<lparr>path_bad := False, method_not_allowed := False, path_len := 0,
    query_off := length (case target h0 of None \<Rightarrow> [] | Some t \<Rightarrow> t), query_len := 0, path_dec_len := 0,
    path_norm_len := 0, path_ends_with_slash := False\<rparr>"
  have h: "h1_inv h" using inv by (simp add: h_def h1_inv_simps)
  have step: "\<exists>h'. do { (ok, h2) \<leftarrow> hc_path_buffers plen g;
         if \<not> ok then Some h2
         else do { (ok', h3) \<leftarrow> hc_normalize s h2; Some (if ok' then hc_body vh h3 else h3) } } = Some h'
      \<and> h1_inv h'" if pre: "h1_inv g" "plen \<le> REQ_PATH_MAX" for plen g s
  proof -
    obtain ok g1 where g1: "hc_path_buffers plen g = Some (ok, g1)" "h1_inv g1"
        "ok \<longrightarrow> path_dec g1 \<noteq> None \<and> path_norm g1 \<noteq> None"
      using path_buffers_ok [OF pre] by blast
    then have "ok \<Longrightarrow> \<exists>ok' g2. hc_normalize s g1 = Some (ok', g2) \<and> h1_inv g2"
      by (intro normalize_ok) auto
    then show ?thesis using g1 hc_body_ok by (cases ok) auto
  qed
  have upd: "h1_inv (h\<lparr>path_len := a, query_off := b, query_len := c\<rparr>)"
    "h1_inv (h\<lparr>method_not_allowed := True, want_keepalive := False, message_done := True, body_remaining := 0\<rparr>)"
    "h1_inv (h\<lparr>want_keepalive := False, message_done := True\<rparr>)" for a b c
    using h by (simp_all add: h1_inv_simps)
  show ?thesis
    unfolding hc_target_def Let_def h_def [symmetric]
    using step [OF upd(1)] upd h h1_bad_done_ok
    by (auto split: sum.splits prod.splits simp: not_less)
qed

lemma on_headers_complete_ok:
  assumes inv: "h1_inv h"
  shows "\<exists>h'. on_headers_complete vh keep meth h = Some h' \<and> h1_inv h'"
proof -
  let ?h1 = "h\<lparr>headers_done := True, want_keepalive := keep, h1_method := meth, method_set := True\<rparr>"
  have 1: "h1_inv ?h1" using inv by (simp add: h1_inv_simps)
  obtain g where g: "(if hdr_state ?h1 = 2 then h1_finalize_interested_header ?h1 else Some ?h1) = Some g"
    "h1_inv g" using finalize_ok [OF 1] 1 by (cases "hdr_state ?h1 = 2") auto
  let ?g = "g\<lparr>unsupported_te := False, body_remaining := 0, body_bytes := 0,
                 max_body_bytes := h1_current_max_body_bytes g, body_too_big := False,
                 message_done := False\<rparr>"
  have 2: "h1_inv (snd (hc_framing ?g))"
    using g(2) by (simp add: hc_framing_def h1_bad_def h1_inv_simps)
  obtain go g' where g': "hc_framing ?g = (go, g')" by fastforce
  from hc_target_ok [OF 2] show ?thesis
    using 2 g by (auto simp: on_headers_complete_def Let_def g')
qed

lemma dispatch_ok:
  assumes "h1_inv h"
  shows "\<exists>h'. h1_dispatch vh e h = Some h' \<and> h1_inv h'"
proof (cases e)
  case Ev_message_complete
  then show ?thesis using assms by (simp add: on_message_complete_def h1_inv_simps)
qed (simp_all add: on_url_ok on_header_field_ok on_header_value_ok on_headers_complete_ok on_body_ok assms)

text \<open>Starting the next request: nothing of the previous one is left.\<close>

lemma reset_h1_eq:
  "conn_reset_h1 mhb mbb h =
     h1_zero\<lparr>arena := req_arena_reset (arena h), h1_mallocs := h1_mallocs h,
       req_hdr_store_mask := req_hdr_store_mask h, hdr_fields_max := hdr_fields_max h,
       max_header_bytes := mhb, max_body_bytes := mbb\<rparr>"
  by (rule http1_state.equality)
    (simp_all add: conn_reset_h1_def h1_zero_def http_parser_reset_header_state_def Let_def)

lemma fold_release_cache:
  "ch_addr ` set (ar_cache (fold req_arena_release_chunk cs a)) \<subseteq>
     ch_addr ` set cs \<union> ch_addr ` set (ar_cache a)"
proof (induction cs arbitrary: a)
  case (Cons c cs)
  have "ch_addr ` set (ar_cache (req_arena_release_chunk c a)) \<subseteq> insert (ch_addr c) (ch_addr ` set (ar_cache a))"
    by (auto simp: req_arena_release_chunk_def)
  with Cons.IH [of "req_arena_release_chunk c a"] show ?case
    by (simp only: fold_Cons o_apply list.set image_insert) blast
qed simp

lemma reset_live:
  assumes "arena_inv a"
  shows "arena_inv (req_arena_reset a)" "set (live_addrs (req_arena_reset a)) \<subseteq> set (live_addrs a)"
proof -
  show inv: "arena_inv (req_arena_reset a)"
    using reset_moved(1) [OF assms] assms by (cases "ar_chunks a") (auto simp: req_arena_reset_def)
  show "set (live_addrs (req_arena_reset a)) \<subseteq> set (live_addrs a)"
    using fold_release_cache
    by (fastforce simp: req_arena_reset_def live_addrs_def req_arena_release_chunk_def Let_def
        split: list.splits if_splits)
qed

lemma zero_inv: "mem_ok a ms \<Longrightarrow> h1_inv (h1_zero\<lparr>arena := a, h1_mallocs := ms, req_hdr_store_mask := m,
    hdr_fields_max := f, max_header_bytes := b, max_body_bytes := c\<rparr>)"
  by (simp add: h1_inv_simps h1_zero_def h1_caps)

lemma reset_h1_ok: "h1_inv h \<Longrightarrow> h1_inv (conn_reset_h1 mhb mbb h)"
  unfolding reset_h1_eq
  by (intro zero_inv) (use reset_live in \<open>auto simp: h1_inv_def mem_ok_def\<close>)

lemma session_ok: "h1_inv h \<Longrightarrow> \<exists>h'. h1_session vh mhb mbb es h = Some h' \<and> h1_inv h'"
proof (induction es arbitrary: h)
  case (Cons e es)
  show ?case
  proof (cases e)
    case (Event ev)
    with dispatch_ok [OF Cons.prems, of vh ev] Cons.IH show ?thesis by auto
  next
    case Next_request
    with reset_h1_ok [OF Cons.prems] Cons.IH show ?thesis by simp
  qed
qed simp

text \<open>
  C9: for every sequence of parser events, in any order and fragmentation, over any number of
  keep-alive requests and for every pattern of allocation failures, the request callbacks never
  touch memory outside the arena - every write to the target, the path buffers and the array of
  captured headers, terminating zeros included, stays within the block that was allocated for it -
  and keep the request state within its bounds: every accumulator, captured header, target and
  path fits its buffer, no header is captured twice or outside the interest mask, and the arena
  stays well formed.
\<close>

theorem h1_session_memory_safe:
  assumes "mem_ok (req_arena_init a) ms"
  shows "\<exists>h. h1_session vh mhb mbb es (conn_init_h1 vh mhb mbb a ms) = Some h \<and>
    mem_ok (arena h) (h1_mallocs h) \<and> hdrs_ok h \<and> acc_ok h \<and> bufs_ok h"
proof -
  have "h1_inv (conn_init_h1 vh mhb mbb a ms)"
    using zero_inv [OF assms] by (simp add: conn_init_h1_def Let_def)
  from session_ok [OF this] show ?thesis by (auto simp: h1_inv_def)
qed

theorem h1_session_memory_safe_witness:
  "\<exists>h. h1_session None 8192 0
        [Event (Ev_url ''/a''), Event (Ev_header_field ''Host''), Event (Ev_header_value ''x''),
         Event (Ev_headers_complete True HTTP_GET), Next_request, Event (Ev_url ''/b'')]
        (conn_init_h1 None 8192 0 empty_arena [Some 1, None]) = Some h \<and> bufs_ok h"
proof -
  have "mem_ok (req_arena_init empty_arena) [Some 1, None]"
    by (auto simp: mem_ok_def empty_arena_def req_arena_init_def arena_inv_def live_addrs_def)
  from h1_session_memory_safe [OF this] show ?thesis by blast
qed

text \<open>
  C28: a keep-alive connection starts every request from scratch. Whatever the previous request
  did, the state after the reset is that of a new connection except for the connection's settings
  (interest mask, field limit), the configured limits and the arena, of which at most one empty
  chunk of bounded size is kept.
\<close>

theorem conn_reset_isolates:
  "(let h' = conn_reset_h1 mhb mbb h
    in h' = h1_zero\<lparr>arena := arena h', h1_mallocs := h1_mallocs h, req_hdr_store_mask := req_hdr_store_mask h,
              hdr_fields_max := hdr_fields_max h, max_header_bytes := mhb, max_body_bytes := mbb\<rparr> \<and>
       length (ar_chunks (arena h')) \<le> 1 \<and>
       (\<forall>c \<in> set (ar_chunks (arena h')). ch_off c = 0 \<and> ch_cap c \<le> REQ_ARENA_RETAIN_MAX))"
  using reset_chunks [of "arena h"] by (simp add: reset_h1_eq)

theorem conn_reset_isolates_witness:
  "arena (conn_reset_h1 1 2 (h1_zero\<lparr>arena := busy_arena, target := Some ''x''\<rparr>)) = req_arena_reset busy_arena \<and>
   ch_off (hd (ar_chunks (req_arena_reset busy_arena))) = 0 \<and>
   conn_reset_h1 1 2 (h1_zero\<lparr>arena := busy_arena, target := Some ''x''\<rparr>) =
   h1_zero\<lparr>arena := req_arena_reset busy_arena, max_header_bytes := 1, max_body_bytes := 2\<rparr>"
proof -
  let ?h = "h1_zero\<lparr>arena := busy_arena, target := Some ''x''\<rparr>"
  have ar: "arena (conn_reset_h1 1 2 ?h) = req_arena_reset busy_arena" by (simp add: reset_h1_eq)
  have ne: "ar_chunks (req_arena_reset busy_arena) \<noteq> []"
    by (simp add: req_arena_reset_def busy_arena_def REQ_ARENA_RETAIN_MAX_def Let_def)
  show ?thesis
    using conn_reset_isolates [of 1 2 ?h] ar hd_in_set [OF ne] by (simp add: Let_def h1_zero_def)
qed

end
