(* ===== verification/Tokens.thy ===== *)
theory Tokens
  imports Decimal
begin

text \<open>
  Splitting text at separators, the specification of the hand-written token loops of the parsers:
  \<open>words p s\<close> are the maximal runs of characters of \<open>s\<close> that do not satisfy \<open>p\<close>.
\<close>

fun split_on :: "('a \<Rightarrow> bool) \<Rightarrow> 'a list \<Rightarrow> 'a list list" where
  "split_on p [] = [[]]"
| "split_on p (c # cs) =
     (if p c then [] # split_on p cs else (c # hd (split_on p cs)) # tl (split_on p cs))"

definition words :: "('a \<Rightarrow> bool) \<Rightarrow> 'a list \<Rightarrow> 'a list list" where
  "words p s = filter (\<lambda>w. w \<noteq> []) (split_on p s)"

lemma split_on_not_Nil [simp]: "split_on p s \<noteq> []"
  by (cases s) auto

lemma words_Nil [simp]: "words p [] = []"
  by (simp add: words_def)

lemma words_sep [simp]: "p c \<Longrightarrow> words p (c # cs) = words p cs"
  by (simp add: words_def)

lemma words_dropWhile [simp]: "words p (dropWhile p s) = words p s"
  by (induction s) auto

lemma split_on_word:
  "\<forall>c\<in>set w. \<not> p c \<Longrightarrow> r = [] \<or> p (hd r) \<Longrightarrow>
   split_on p (w @ r) = (if r = [] then [w] else w # split_on p (tl r))"
  by (induction w) (cases r; auto)+

lemma words_word:
  assumes "\<forall>c\<in>set w. \<not> p c" "w \<noteq> []" "r = [] \<or> p (hd r)"
  shows "words p (w @ r) = w # words p r"
  using assms split_on_word [OF assms(1,3)] by (cases r) (auto simp: words_def)

lemma words_unfold:
  assumes "dropWhile p s \<noteq> []"
  shows "words p s = takeWhile (\<lambda>c. \<not> p c) (dropWhile p s) # words p (dropWhile (\<lambda>c. \<not> p c) (dropWhile p s))"
proof -
  let ?q = "dropWhile p s"
  have "words p (takeWhile (\<lambda>c. \<not> p c) ?q @ dropWhile (\<lambda>c. \<not> p c) ?q) =
      takeWhile (\<lambda>c. \<not> p c) ?q # words p (dropWhile (\<lambda>c. \<not> p c) ?q)"
  proof (rule words_word)
    show "\<forall>c\<in>set (takeWhile (\<lambda>c. \<not> p c) ?q). \<not> p c" by (auto dest: set_takeWhileD)
    show "takeWhile (\<lambda>c. \<not> p c) ?q \<noteq> []" using assms by (rule takeWhile_dropWhile_not_Nil)
    show "dropWhile (\<lambda>c. \<not> p c) ?q = [] \<or> p (hd (dropWhile (\<lambda>c. \<not> p c) ?q))"
      using hd_dropWhile [of "\<lambda>c. \<not> p c" ?q] by auto
  qed
  then show ?thesis by simp
qed

lemma words_all_sep: "dropWhile p s = [] \<Longrightarrow> words p s = []"
  by (metis words_Nil words_dropWhile)

lemma words_eq_Nil: "words p s = [] \<longleftrightarrow> dropWhile p s = []"
  using words_unfold words_all_sep by (metis list.distinct(1))

text \<open>The number of a string of digits surrounded by optional whitespace.\<close>

definition ows_number :: "string \<Rightarrow> nat option" where
  "ows_number s =
     (case words is_ows s of
        [w] \<Rightarrow> if \<forall>c\<in>set w. is_digit c then Some (dec_value w) else None
      | _ \<Rightarrow> None)"

lemma ows_number_eq:
  "ows_number s =
     (let t = dropWhile is_ows s; ds = takeWhile is_digit t
      in if ds \<noteq> [] \<and> dropWhile is_ows (dropWhile is_digit t) = [] then Some (dec_value ds) else None)"
proof -
  define t where "t = dropWhile is_ows s"
  define ds where "ds = takeWhile is_digit t"
  define r where "r = dropWhile is_digit t"
  have t: "t = ds @ r" by (simp add: ds_def r_def)
  have digit: "\<not> is_ows c" if "is_digit c" for c using that by (auto simp: is_digit_def is_ows_def)
  have ds: "\<forall>c\<in>set ds. is_digit c" by (auto simp: ds_def dest: set_takeWhileD)
  have ws: "words is_ows s = words is_ows t" by (simp add: t_def)
  show ?thesis
  proof (cases "ds \<noteq> [] \<and> dropWhile is_ows r = []")
    case True
    then have "r = [] \<or> is_ows (hd r)" by (cases r) (auto split: if_splits)
    then have "words is_ows t = ds # words is_ows r"
      using words_word [of ds is_ows r] ds digit True t by auto
    then show ?thesis using True ds ws words_all_sep [of is_ows r]
      by (simp add: ows_number_def Let_def flip: t_def ds_def r_def)
  next
    case False
    have "\<not> (\<forall>c\<in>set w. is_digit c)" if w: "words is_ows s = [w]" for w
    proof
      assume all: "\<forall>c\<in>set w. is_digit c"
      have ne: "t \<noteq> []" using w words_eq_Nil [of is_ows s] by (auto simp: t_def)
      define q where "q = dropWhile (\<lambda>c. \<not> is_ows c) t"
      have w_eq: "w = takeWhile (\<lambda>c. \<not> is_ows c) t" "words is_ows q = []"
        using words_unfold [of is_ows s] ne w by (simp_all add: q_def flip: t_def)
      have tw: "t = w @ q" unfolding w_eq(1) q_def by (rule takeWhile_dropWhile_id [symmetric])
      have r0: "dropWhile is_ows q = []" using w_eq(2) words_eq_Nil by blast
      have nd: "q = [] \<or> \<not> is_digit (hd q)"
        using hd_dropWhile [of "\<lambda>c. \<not> is_ows c" t] digit by (auto simp: q_def)
      have "takeWhile is_digit t = w" "dropWhile is_digit t = q"
        unfolding tw using all nd by (cases q; auto simp: takeWhile_append2 dropWhile_append2)+
      moreover have "w \<noteq> []"
        using w_eq(1) ne takeWhile_dropWhile_not_Nil [of is_ows s] by (simp add: t_def)
      ultimately show False using False r0 by (simp add: ds_def r_def)
    qed
    then show ?thesis using False
      by (auto simp: ows_number_def Let_def split: list.splits simp flip: t_def ds_def r_def)
  qed
qed

end
