(* ===== verification/Http1_Framing.thy ===== *)
theory Http1_Framing
  imports Http1_Safety Tokens Http_Range
begin

text \<open>
  What the callbacks of \<^verbatim>\<open>src/src/http_parser.c\<close> make of a request, against a specification on
  the list of its header fields: message framing (\<open>Content-Length\<close>, \<open>Transfer-Encoding\<close>,
  \<open>Expect\<close>), independence from the fragmentation the byte parser chooses, the canonical path,
  and the body limit.
\<close>

section \<open>Fragments\<close>

lemma take_take_room: "take (r - min (length a) r) b = take (r - length a) b" for r :: nat
  by (simp add: min_def)

lemma append_lower_append:
  "h1_hdr_append_lower cap (h1_hdr_append_lower cap d a) b = h1_hdr_append_lower cap d (a @ b)"
  using take_take_room [of "cap - 1 - length d" a b] by (simp add: h1_hdr_append_lower_def diff_diff_left)

lemma append_raw_append:
  "fst (h1_hdr_append_raw cap (fst (h1_hdr_append_raw cap d a)) b) = fst (h1_hdr_append_raw cap d (a @ b))"
  "snd (h1_hdr_append_raw cap d a) \<or> snd (h1_hdr_append_raw cap (fst (h1_hdr_append_raw cap d a)) b) \<longleftrightarrow>
   snd (h1_hdr_append_raw cap d (a @ b))"
  using take_take_room [of "cap - 1 - length d" a b]
  by (auto simp: h1_hdr_append_raw_def Let_def diff_diff_left min_def)

definition put_name :: "string \<Rightarrow> http1_state \<Rightarrow> http1_state" where
  "put_name a h = h\<lparr>hdr_state := 1, hdr_name := h1_hdr_append_lower REQ_HDR_NAME_MAX (hdr_name h) a\<rparr>"

lemma put_name_append: "put_name b (put_name a h) = put_name (a @ b) h"
  by (simp add: put_name_def append_lower_append)

lemma put_name_fields [simp]:
  "hdr_state (put_name a h) = 1" "header_too_big (put_name a h) = header_too_big h"
  by (simp_all add: put_name_def)

lemma on_header_field_eq:
  "on_header_field a h =
     (if a = [] \<or> header_too_big h then Some h
      else if hdr_state h = 2
      then map_option (\<lambda>f. put_name a (http_parser_reset_header_state f)) (h1_finalize_interested_header h)
      else Some (put_name a h))"
  by (cases "h1_finalize_interested_header h") (auto simp: on_header_field_def put_name_def)

lemma header_field_append:
  assumes "on_header_field a h = Some g" "\<not> header_too_big g"
  shows "on_header_field (a @ b) h = on_header_field b g"
  using assms by (auto simp: on_header_field_eq put_name_append split: if_splits)

lemma on_header_value_too_big: "on_header_value v h = Some g \<Longrightarrow> header_too_big g = header_too_big h"
  by (auto simp: on_header_value_def Let_def split: prod.splits if_splits)

definition put_value :: "string \<Rightarrow> http1_state \<Rightarrow> http1_state" where
  "put_value a h =
     h\<lparr>hdr_val_raw := fst (h1_hdr_append_raw REQ_HDR_VALUE_MAX (hdr_val_raw h) a),
       hdr_val_raw_truncated := hdr_val_raw_truncated h \<or> snd (h1_hdr_append_raw REQ_HDR_VALUE_MAX (hdr_val_raw h) a),
       hdr_val := (if hdr_interest h \<noteq> 0 then h1_hdr_append_lower HDR_VAL_CAP (hdr_val h) a else hdr_val h)\<rparr>"

definition start_value :: "http1_state \<Rightarrow> http1_state" where
  "start_value h =
     (if hdr_state h \<noteq> 2
      then h\<lparr>hdr_interest := header_interest (hdr_name h), hdr_state := 2, hdr_val := [],
             hdr_val_raw := [], hdr_val_raw_truncated := False\<rparr>
      else h)"

lemma put_value_append: "put_value b (put_value a h) = put_value (a @ b) h"
  by (simp add: put_value_def append_lower_append append_raw_append flip: append_raw_append(2))

lemma put_value_fields [simp]:
  "hdr_state (put_value a h) = hdr_state h" "header_too_big (put_value a h) = header_too_big h"
  by (simp_all add: put_value_def)

lemma start_value_fields [simp]:
  "hdr_state (start_value h) = 2" "header_too_big (start_value h) = header_too_big h"
  by (simp_all add: start_value_def)

lemma on_header_value_eq:
  "on_header_value a h = Some (if a = [] \<or> header_too_big h then h else put_value a (start_value h))"
  by (simp add: on_header_value_def put_value_def start_value_def Let_def split_beta)

lemma header_value_append:
  "on_header_value (a @ b) h = do { g \<leftarrow> on_header_value a h; on_header_value b g }"
proof -
  have "start_value (put_value a (start_value h)) = put_value a (start_value h)"
    by (subst start_value_def) simp
  then show ?thesis by (simp add: on_header_value_eq put_value_append)
qed

section \<open>Accounting of framing headers\<close>

record acct =
  a_cl :: nat
  a_cl_bad :: bool
  a_cl_value :: u64
  a_te :: nat
  a_chunked :: bool
  a_other :: bool
  a_unsup :: bool

definition acct_of :: "http1_state \<Rightarrow> acct" where
  "acct_of h = \<lparr>a_cl = cl_count h, a_cl_bad = cl_invalid h, a_cl_value = cl_value h, a_te = te_count h,
     a_chunked = te_chunked h, a_other = te_other h, a_unsup = expect_unsupported h\<rparr>"

definition account :: "nat \<Rightarrow> string \<Rightarrow> acct \<Rightarrow> acct" where
  "account i v a =
     (if i = 1 then
        (let n = u8_of (a_cl a + 1)
         in case h1_parse_u64_ows_decimal v of
              None \<Rightarrow> a\<lparr>a_cl := n, a_cl_bad := True\<rparr>
            | Some x \<Rightarrow> a\<lparr>a_cl := n, a_cl_bad := (a_cl_bad a \<or> n > 1 \<or> (n \<noteq> 1 \<and> a_cl_value a \<noteq> x)),
                           a_cl_value := (if n = 1 then x else a_cl_value a)\<rparr>)
      else if i = 2 then
        (let (c, t) = te_loop v (a_chunked a, a_other a)
         in a\<lparr>a_te := u8_of (a_te a + 1), a_chunked := c, a_other := t\<rparr>)
      else if i = 3 then a\<lparr>a_unsup := (a_unsup a \<or> \<not> h1_expect_value_supported v)\<rparr>
      else a)"

lemma acct_of_account: "acct_of (h1_account_header h) = account (hdr_interest h) (hdr_val h) (acct_of h)"
  by (auto simp: h1_account_header_def account_def acct_of_def Let_def split: option.splits prod.splits)

text \<open>The part of the state that header fields leave alone.\<close>

definition view :: "http1_state \<Rightarrow> _" where
  "view h = (target h, target_too_long h, parse_error h, path_dec h, path_norm h, path_norm_len h,
     max_body_bytes h)"

definition quiet :: "http1_state \<Rightarrow> http1_state \<Rightarrow> bool" where
  "quiet h h' \<longleftrightarrow>
     acct_of h' = acct_of h \<and> view h' = view h \<and> hdr_state h' = hdr_state h \<and>
     hdr_interest h' = hdr_interest h \<and> hdr_name h' = hdr_name h \<and> hdr_val h' = hdr_val h \<and>
     (header_too_big h \<longrightarrow> header_too_big h') \<and> (internal_error h \<longrightarrow> internal_error h')"

lemma quiet_refl [simp]: "quiet h h"
  by (simp add: quiet_def)

lemma quiet_trans [trans]: "quiet h g \<Longrightarrow> quiet g f \<Longrightarrow> quiet h f"
  by (auto simp: quiet_def)

lemma quiet_updates [simp]:
  "quiet h (h\<lparr>arena := a, h1_mallocs := ms\<rparr>)" "quiet h (h\<lparr>req_hdr_cap := c, req_hdrs_room := d\<rparr>)"
  "quiet h (h\<lparr>req_hdrs := r\<rparr>)" "quiet h (h\<lparr>req_hdr_seen_mask := m\<rparr>)" "quiet h (h1_oom h)"
  by (simp_all add: quiet_def acct_of_def view_def h1_oom_def)

lemma oom_internal_error [simp]: "internal_error (h1_oom h)"
  by (simp add: h1_oom_def)

lemma h1_alloc_quiet: "h1_alloc n al h = Some (ok, h') \<Longrightarrow> quiet h h'"
  by (auto simp: h1_alloc_def split: Option.bind_splits)

lemma h1_strndup_quiet: "h1_strndup s h = Some (ok, h') \<Longrightarrow> quiet h h'"
  by (auto simp: h1_strndup_def split: Option.bind_splits)

lemma ensure_cap_quiet: "h1_hdrs_ensure_cap n h = Some (ok, h') \<Longrightarrow> quiet h h'"
  by (auto simp: h1_hdrs_ensure_cap_def Let_def split: Option.bind_splits if_splits option.splits
      dest!: h1_alloc_quiet elim!: quiet_trans)

lemma store_header_quiet:
  assumes "h1_store_header hid h = Some (ok, h')"
  shows "quiet h h' \<and> (\<not> ok \<longrightarrow> internal_error h')"
proof -
  obtain b h1 where h1: "h1_hdrs_ensure_cap (length (req_hdrs h) + 1) h = Some (b, h1)"
    using assms by (auto simp: h1_store_header_def split: Option.bind_splits)
  note q1 = ensure_cap_quiet [OF h1]
  show ?thesis
  proof (cases b)
    case False
    then have "ok = False" "h' = h1_oom h1" using assms h1 by (auto simp: h1_store_header_def)
    then show ?thesis using quiet_trans [OF q1 quiet_updates(5)] by simp
  next
    case True
    then obtain okn h2 okv h3 where h2: "h1_strndup (take (REQ_HDR_NAME_MAX - 1) (hdr_name h1)) h1 = Some (okn, h2)"
      and h3: "h1_strndup (take (REQ_HDR_VALUE_MAX - 1) (hdr_val_raw h1)) h2 = Some (okv, h3)"
      using assms h1 by (auto simp: h1_store_header_def Let_def split: Option.bind_splits prod.splits)
    have q3: "quiet h h3" using q1 h1_strndup_quiet [OF h2] h1_strndup_quiet [OF h3] by (blast intro: quiet_trans)
    from assms h1 True h2 h3
    have "(ok, h') = (False, h1_oom h3) \<or> (\<exists>r. (ok, h') = (True, h3\<lparr>req_hdrs := r\<rparr>))"
      by (auto simp: h1_store_header_def Let_def split: if_splits)
    then show ?thesis using quiet_trans [OF q3] by auto
  qed
qed

lemma capture_quiet:
  assumes "h1_capture_header h = Some (ok, h')"
  shows "quiet h h' \<and> (\<not> ok \<longrightarrow> internal_error h')"
proof -
  have "quiet h h' \<and> (\<not> ok \<longrightarrow> internal_error h')"
    if "h1_store_header hid (h\<lparr>req_hdr_seen_mask := m\<rparr>) = Some (ok, h')" for hid m
    using store_header_quiet [OF that] quiet_trans [of h "h\<lparr>req_hdr_seen_mask := m\<rparr>" h'] by simp
  then show ?thesis
    using assms by (auto simp: h1_capture_header_def Let_def split: if_splits option.splits)
qed

lemma field_seen_quiet: "quiet h (http1_header_field_seen h)"
  by (auto simp: http1_header_field_seen_def quiet_def acct_of_def view_def Let_def)

lemma account_frame:
  "view (h1_account_header h) = view h" "internal_error (h1_account_header h) = internal_error h"
  "header_too_big (h1_account_header h) = header_too_big h" "hdr_state (h1_account_header h) = hdr_state h"
  by (auto simp: h1_account_header_def view_def Let_def split: option.splits prod.splits)

lemma finalize_view:
  assumes "h1_finalize_interested_header h = Some h'"
  shows "view h' = view h"
proof -
  have "h1_capture_header k = Some (ok, k') \<Longrightarrow> view k' = view k" for k ok k'
    using capture_quiet by (auto simp: quiet_def)
  moreover have "view (http1_header_field_seen h) = view h" using field_seen_quiet by (simp add: quiet_def)
  ultimately show ?thesis
    using assms by (auto simp: h1_finalize_interested_header_def Let_def account_frame
        split: if_splits Option.bind_splits)
qed

text \<open>A header that is finished without running into a limit is accounted exactly once.\<close>

lemma finalize_effect:
  assumes "h1_finalize_interested_header h = Some h'" "\<not> internal_error h'" "\<not> header_too_big h'"
  shows "acct_of h' = account (hdr_interest h) (hdr_val h) (acct_of h)" "view h' = view h"
    "\<not> internal_error h" "\<not> header_too_big h"
proof -
  have ie: "\<not> internal_error h" using assms by (auto simp: h1_finalize_interested_header_def)
  let ?h1 = "http1_header_field_seen h"
  have q1: "quiet h ?h1" by (rule field_seen_quiet)
  have tb: "\<not> header_too_big ?h1"
    using assms ie by (auto simp: h1_finalize_interested_header_def Let_def)
  obtain ok h2 where c: "h1_capture_header ?h1 = Some (ok, h2)" "h' = (if ok then h1_account_header h2 else h2)"
    using assms(1) ie tb by (auto simp: h1_finalize_interested_header_def Let_def split: Option.bind_splits)
  have q2: "quiet h h2" "\<not> ok \<longrightarrow> internal_error h2"
    using capture_quiet [OF c(1)] quiet_trans [OF q1] by auto
  then have ok: "h' = h1_account_header h2" using c(2) assms(2) by (auto split: if_splits)
  show "acct_of h' = account (hdr_interest h) (hdr_val h) (acct_of h)" "view h' = view h" "\<not> internal_error h"
    using q2(1) ie unfolding ok by (simp_all add: acct_of_account account_frame quiet_def)
  show "\<not> header_too_big h" using q1 tb by (auto simp: quiet_def)
qed

section \<open>Header blocks\<close>

text \<open>The account with the header under construction included.\<close>

definition settled :: "http1_state \<Rightarrow> acct" where
  "settled h = (if hdr_state h = 2 then account (hdr_interest h) (hdr_val h) (acct_of h) else acct_of h)"

definition ready :: "http1_state \<Rightarrow> bool" where
  "ready h \<longleftrightarrow> hdr_state h = 2 \<or> hdr_state h = 0 \<and> hdr_name h = []"

definition lname :: "string \<Rightarrow> string" where
  "lname n = map lower_ascii (take (REQ_HDR_NAME_MAX - 1) n)"

definition lval :: "string \<Rightarrow> string" where
  "lval v = map lower_ascii (take (HDR_VAL_CAP - 1) v)"

lemma one_header:
  assumes run: "do { g \<leftarrow> on_header_field n h; on_header_value v g } = Some h'"
    and ok: "\<not> internal_error h'" "\<not> header_too_big h'" and ready: "ready h" and ne: "n \<noteq> []" "v \<noteq> []"
  shows "settled h' = account (header_interest (lname n)) (lval v) (settled h)" "view h' = view h"
    "ready h'" "\<not> internal_error h" "\<not> header_too_big h"
proof -
  obtain g where g: "on_header_field n h = Some g" and v: "on_header_value v g = Some h'"
    using run by (auto split: Option.bind_splits)
  have tb: "\<not> header_too_big g" using ok(2) on_header_value_too_big [OF v] by simp
  then have h': "h' = put_value v (start_value g)" using v ne by (simp add: on_header_value_eq)
  have nb: "\<not> header_too_big h" using g tb by (auto simp: on_header_field_eq split: if_splits)
  have ieg: "\<not> internal_error g" using ok(1) h' by (simp add: put_value_def start_value_def split: if_splits)
  have G: "acct_of g = settled h \<and> view g = view h \<and> hdr_state g = 1 \<and> hdr_name g = lname n \<and> \<not> internal_error h"
  proof (cases "hdr_state h = 2")
    case True
    then obtain f where f: "h1_finalize_interested_header h = Some f" "g = put_name n (http_parser_reset_header_state f)"
      using g nb ne by (auto simp: on_header_field_eq)
    then have "\<not> internal_error f" "\<not> header_too_big f"
      using ieg tb by (simp_all add: put_name_def http_parser_reset_header_state_def)
    from finalize_effect [OF f(1) this] f(2) True show ?thesis
      by (simp add: settled_def put_name_def http_parser_reset_header_state_def acct_of_def view_def
          h1_hdr_append_lower_def lname_def)
  next
    case False
    then have "g = put_name n h" "hdr_name h = []" using g nb ne ready by (auto simp: on_header_field_eq ready_def)
    then show ?thesis using False ieg
      by (simp add: settled_def put_name_def acct_of_def view_def h1_hdr_append_lower_def lname_def)
  qed
  then have s: "hdr_interest (start_value g) = header_interest (lname n)" "hdr_val (start_value g) = []"
    "acct_of (start_value g) = settled h" "view (start_value g) = view h"
    by (simp_all add: start_value_def acct_of_def view_def)
  have "account 0 x a = a" for x a by (simp add: account_def)
  then show "settled h' = account (header_interest (lname n)) (lval v) (settled h)"
    using s by (auto simp: h' settled_def put_value_def acct_of_def h1_hdr_append_lower_def lval_def)
  show "view h' = view h" "ready h'" using s by (simp_all add: h' put_value_def view_def ready_def)
  show "\<not> internal_error h" "\<not> header_too_big h" using G nb by auto
qed

section \<open>Header blocks in fragments\<close>

text \<open>
  One header is a list of name fragments and a list of value fragments, as the byte parser
  delivers them.
\<close>

type_synonym hdr_frags = "string list \<times> string list"

definition hdr_events :: "hdr_frags \<Rightarrow> h1_event list" where
  "hdr_events f = map Ev_header_field (fst f) @ map Ev_header_value (snd f)"

definition whole :: "hdr_frags \<Rightarrow> string \<times> string" where
  "whole f = (concat (fst f), concat (snd f))"

lemma h1_run_append: "h1_run vh (a @ b) h = do { g \<leftarrow> h1_run vh a h; h1_run vh b g }"
proof (induction a arbitrary: h)
  case (Cons e es)
  then show ?case by (cases "h1_dispatch vh e h") auto
qed simp

lemma field_too_big: "on_header_field a h = Some g \<Longrightarrow> header_too_big h \<Longrightarrow> header_too_big g"
  by (auto simp: on_header_field_eq)

lemma field_internal_error:
  "on_header_field a h = Some g \<Longrightarrow> internal_error h \<Longrightarrow> internal_error g"
  by (auto simp: on_header_field_eq h1_finalize_interested_header_def http_parser_reset_header_state_def
      put_name_def split: if_splits)

lemma value_internal_error:
  "on_header_value a h = Some g \<Longrightarrow> internal_error g = internal_error h"
  by (auto simp: on_header_value_eq put_value_def start_value_def split: if_splits)

lemma run_fields:
  "h1_run vh (map Ev_header_field fs) h = Some g \<Longrightarrow> \<not> header_too_big g \<Longrightarrow> on_header_field (concat fs) h = Some g"
proof (induction fs arbitrary: h)
  case Nil
  then show ?case by (simp add: on_header_field_eq)
next
  case (Cons f fs)
  obtain k where k: "on_header_field f h = Some k" "h1_run vh (map Ev_header_field fs) k = Some g"
    using Cons.prems by (auto split: Option.bind_splits)
  have g: "on_header_field (concat fs) k = Some g" using Cons.IH [OF k(2) Cons.prems(2)] .
  have "\<not> header_too_big k" using field_too_big [OF g] Cons.prems(2) by blast
  from header_field_append [OF k(1) this, of "concat fs"] g show ?case by simp
qed

lemma run_values: "h1_run vh (map Ev_header_value vs) h = on_header_value (concat vs) h"
proof (induction vs arbitrary: h)
  case (Cons v vs)
  then show ?case by (cases "on_header_value v h") (auto simp: header_value_append)
qed (simp add: on_header_value_eq)

lemma run_header:
  assumes "h1_run vh (hdr_events f) h = Some g" "\<not> header_too_big g"
  shows "do { k \<leftarrow> on_header_field (fst (whole f)) h; on_header_value (snd (whole f)) k } = Some g"
proof -
  obtain k where k: "h1_run vh (map Ev_header_field (fst f)) h = Some k" "on_header_value (concat (snd f)) k = Some g"
    using assms(1) by (auto simp: hdr_events_def h1_run_append run_values split: Option.bind_splits)
  have "\<not> header_too_big k" using on_header_value_too_big [OF k(2)] assms(2) by simp
  from run_fields [OF k(1) this] k(2) show ?thesis by (simp add: whole_def)
qed

definition account_header :: "string \<times> string \<Rightarrow> acct \<Rightarrow> acct" where
  "account_header nv = account (header_interest (lname (fst nv))) (lval (snd nv))"

lemma run_block_mono:
  "h1_run vh (concat (map hdr_events fs)) h = Some h' \<Longrightarrow>
     (internal_error h \<longrightarrow> internal_error h') \<and> (header_too_big h \<longrightarrow> header_too_big h')"
proof -
  have "(internal_error h \<longrightarrow> internal_error h') \<and> (header_too_big h \<longrightarrow> header_too_big h')"
    if "h1_run vh es h = Some h'" "\<forall>e\<in>set es. \<exists>a. e = Ev_header_field a \<or> e = Ev_header_value a" for es h
    using that
  proof (induction es arbitrary: h)
    case (Cons e es)
    then obtain k where k: "h1_dispatch vh e h = Some k" "h1_run vh es k = Some h'"
      by (auto split: Option.bind_splits)
    have "(internal_error h \<longrightarrow> internal_error k) \<and> (header_too_big h \<longrightarrow> header_too_big k)"
      using Cons.prems(2) k(1) field_internal_error field_too_big value_internal_error on_header_value_too_big
      by fastforce
    then show ?case using Cons.IH [OF k(2)] Cons.prems(2) by auto
  qed simp
  then show "h1_run vh (concat (map hdr_events fs)) h = Some h' \<Longrightarrow> ?thesis" by (force simp: hdr_events_def)
qed

lemma run_block:
  assumes "h1_run vh (concat (map hdr_events fs)) h = Some h'" "\<not> internal_error h'" "\<not> header_too_big h'"
    "ready h" "\<forall>f\<in>set fs. fst (whole f) \<noteq> [] \<and> snd (whole f) \<noteq> []"
  shows "settled h' = fold account_header (map whole fs) (settled h) \<and> view h' = view h \<and> ready h'"
  using assms
proof (induction fs arbitrary: h)
  case (Cons f fs)
  obtain k where k: "h1_run vh (hdr_events f) h = Some k" "h1_run vh (concat (map hdr_events fs)) k = Some h'"
    using Cons.prems(1) by (auto simp: h1_run_append split: Option.bind_splits)
  have ok: "\<not> internal_error k" "\<not> header_too_big k" using run_block_mono [OF k(2)] Cons.prems(2,3) by auto
  note one = one_header [OF run_header [OF k(1) ok(2)] ok Cons.prems(4)]
  show ?case
    using Cons.IH [OF k(2) Cons.prems(2,3)] one Cons.prems(5) by (simp add: account_header_def)
qed simp

section \<open>The framing of a request\<close>

text \<open>
  The specification looks at the whole header list: the values of the fields of a given name
  (case-insensitive), the tokens of a list value, the number of a \<open>Content-Length\<close>.
\<close>

definition field_values :: "string \<Rightarrow> (string \<times> string) list \<Rightarrow> string list" where
  "field_values name hs = map (map lower_ascii \<circ> snd) (filter (\<lambda>h. map lower_ascii (fst h) = name) hs)"

definition content_length :: "string \<Rightarrow> nat option" where
  "content_length v = (case ows_number v of None \<Rightarrow> None | Some n \<Rightarrow> if n < 2 ^ 64 then Some n else None)"

definition framing_ok :: "(string \<times> string) list \<Rightarrow> bool" where
  "framing_ok hs \<longleftrightarrow>
     (let cl = field_values ''content-length'' hs;
          te = concat (map (words is_sep) (field_values ''transfer-encoding'' hs))
      in length cl \<le> 1 \<and> (\<forall>v\<in>set cl. content_length v \<noteq> None) \<and>
         (\<forall>v\<in>set (field_values ''expect'' hs). set (words is_sep v) = {''100-continue''}) \<and>
         (field_values ''transfer-encoding'' hs \<noteq> [] \<longrightarrow> cl = [] \<and> set te = {''chunked''}))"

lemma te_loop_words:
  "te_loop s (c, t) =
     (c \<or> ''chunked'' \<in> set (words is_sep s), t \<or> (\<exists>w\<in>set (words is_sep s). w \<noteq> ''chunked''))"
proof (induction s "(c, t)" arbitrary: c t rule: te_loop.induct)
  case (1 s c t)
  show ?case
  proof (cases "dropWhile is_sep s = []")
    case True
    then show ?thesis by (subst te_loop.simps) (simp add: words_all_sep Let_def)
  next
    case False
    let ?w = "takeWhile (\<lambda>c. \<not> is_sep c) (dropWhile is_sep s)"
    have "te_loop s (c, t) = te_loop (dropWhile (\<lambda>c. \<not> is_sep c) (dropWhile is_sep s))
        (if ?w = ''chunked'' then (True, t) else (c, True))"
      using False by (subst te_loop.simps) (simp add: Let_def del: dropWhile_eq_Nil_conv)
    then show ?thesis
      using 1 [OF refl False refl refl] words_unfold [OF False] by (cases "?w = ''chunked''") auto
  qed
qed

lemma expect_loop_words:
  "expect_loop s saw \<longleftrightarrow> (\<forall>w\<in>set (words is_sep s). w = ''100-continue'') \<and> (saw \<or> words is_sep s \<noteq> [])"
proof (induction s saw rule: expect_loop.induct)
  case (1 s saw)
  show ?case
  proof (cases "dropWhile is_sep s = []")
    case True
    then show ?thesis by (subst expect_loop.simps) (simp add: words_all_sep Let_def)
  next
    case False
    then show ?thesis
      using 1 [OF refl False refl refl] words_unfold [OF False] by (subst expect_loop.simps) (auto simp: Let_def)
  qed
qed

lemma cl_digits_loop:
  "cl_digits s v n = map_option (\<lambda>(v', r). (v', n + length (takeWhile is_digit s), r)) (parse_u64_loop s v)"
proof (induction s v n rule: cl_digits.induct)
  case (2 c cs v n)
  have "unat (of_nat (digit_val c) :: u64) < 10" if "is_digit c"
    using that digit_val_less by (simp add: unat_digit)
  then show ?case
    using 2 range_guard_exact [of "of_nat (digit_val c)" v] parser_guard_exact [of "of_nat (digit_val c)" v]
    by (auto simp: Let_def)
qed simp

lemma parse_decimal_exact:
  "map_option unat (h1_parse_u64_ows_decimal s) = content_length s"
proof -
  let ?t = "dropWhile is_ows s"
  let ?ds = "takeWhile is_digit ?t"
  have "h1_parse_u64_ows_decimal s =
      (if ?ds \<noteq> [] \<and> dropWhile is_ows (dropWhile is_digit ?t) = [] \<and> dec_value ?ds < 2 ^ 64
       then Some (of_nat (dec_value ?ds)) else None)"
    by (cases "?t = []") (auto simp: h1_parse_u64_ows_decimal_def cl_digits_loop parse_u64_loop_exact
        dec_value_def Let_def simp del: dropWhile_eq_Nil_conv)
  then show ?thesis
    by (auto simp: content_length_def ows_number_eq Let_def unat_of_nat take_bit_nat_eq_self)
qed

lemma lname_eq: "length name < REQ_HDR_NAME_MAX - 1 \<Longrightarrow> lname n = name \<longleftrightarrow> map lower_ascii n = name"
  by (cases "length n < REQ_HDR_NAME_MAX") (auto simp: lname_def dest: arg_cong [of _ _ length])

lemma field_values_snoc:
  "field_values name (hs @ [h]) =
     field_values name hs @ (if map lower_ascii (fst h) = name then [map lower_ascii (snd h)] else [])"
  by (simp add: field_values_def)

definition acct_zero :: acct where
  "acct_zero = \<lparr>a_cl = 0, a_cl_bad = False, a_cl_value = 0, a_te = 0, a_chunked = False, a_other = False,
     a_unsup = False\<rparr>"

definition framing_fields :: "string set" where
  "framing_fields = {''content-length'', ''transfer-encoding'', ''expect''}"

text \<open>What the accounting has recorded after a header list.\<close>

definition accounts_for :: "(string \<times> string) list \<Rightarrow> acct \<Rightarrow> bool" where
  "accounts_for hs a \<longleftrightarrow>
     (let cl = field_values ''content-length'' hs;
          te = field_values ''transfer-encoding'' hs;
          tokens = set (concat (map (words is_sep) te))
      in a_cl a = length cl \<and> (a_cl_bad a \<longleftrightarrow> length cl > 1 \<or> (\<exists>v\<in>set cl. content_length v = None)) \<and>
         (\<forall>v n. cl = [v] \<longrightarrow> content_length v = Some n \<longrightarrow> unat (a_cl_value a) = n) \<and>
         a_te a = length te \<and> (a_chunked a \<longleftrightarrow> ''chunked'' \<in> tokens) \<and>
         (a_other a \<longleftrightarrow> (\<exists>w\<in>tokens. w \<noteq> ''chunked'')) \<and>
         (a_unsup a \<longleftrightarrow> (\<exists>v\<in>set (field_values ''expect'' hs). set (words is_sep v) \<noteq> {''100-continue''})))"

lemma expect_supported_words:
  "h1_expect_value_supported v \<longleftrightarrow> set (words is_sep v) = {''100-continue''}"
  by (cases "words is_sep v") (auto simp: h1_expect_value_supported_def expect_loop_words)

lemma parse_decimal_cases:
  obtains "h1_parse_u64_ows_decimal v = None" "content_length v = None"
  | x where "h1_parse_u64_ows_decimal v = Some x" "content_length v = Some (unat x)"
  using parse_decimal_exact [of v] by (cases "h1_parse_u64_ows_decimal v") auto

lemma fold_accounts_for:
  assumes "length hs < 256" "\<forall>h\<in>set hs. map lower_ascii (fst h) \<in> framing_fields \<longrightarrow> length (snd h) < HDR_VAL_CAP"
  shows "accounts_for hs (fold account_header hs acct_zero)"
  using assms
proof (induction hs rule: rev_induct)
  case Nil
  then show ?case by (simp add: accounts_for_def acct_zero_def field_values_def Let_def)
next
  case (snoc h hs)
  define a where "a = fold account_header hs acct_zero"
  have IH: "accounts_for hs a" using snoc by (auto simp: a_def)
  let ?n = "map lower_ascii (fst h)" and ?v = "map lower_ascii (snd h)"
  have cnt: "length (field_values nm hs) < 255" for nm
    using snoc.prems(1) by (auto simp: field_values_def intro: le_less_trans [OF length_filter_le])
  have v: "lval (snd h) = ?v" if "?n \<in> framing_fields"
    using snoc.prems(2) that by (auto simp: lval_def HDR_VAL_CAP_def)
  have i: "header_interest (lname (fst h)) =
      (if ?n = ''content-length'' then 1 else if ?n = ''transfer-encoding'' then 2 else if ?n = ''expect'' then 3 else 0)"
    by (simp add: header_interest_def lname_eq REQ_HDR_NAME_MAX_def)
  have step: "fold account_header (hs @ [h]) acct_zero = account (header_interest (lname (fst h))) (lval (snd h)) a"
    by (simp add: a_def account_header_def)
  consider "?n = ''content-length''" | "?n = ''transfer-encoding''" | "?n = ''expect''" | "?n \<notin> framing_fields"
    by (auto simp: framing_fields_def)
  then show ?case
  proof cases
    case 1
    then have e: "lval (snd h) = ?v" "header_interest (lname (fst h)) = 1" using v i by (simp_all add: framing_fields_def)
    show ?thesis
      unfolding step e using IH cnt [of "''content-length''"] 1
      by (cases rule: parse_decimal_cases [of ?v])
        (auto simp: accounts_for_def account_def field_values_snoc Let_def)
  next
    case 2
    then have e: "lval (snd h) = ?v" "header_interest (lname (fst h)) = 2" using v i by (simp_all add: framing_fields_def)
    show ?thesis
      unfolding step e using IH cnt [of "''transfer-encoding''"] 2
      by (auto simp: accounts_for_def account_def field_values_snoc te_loop_words Let_def)
  next
    case 3
    then have e: "lval (snd h) = ?v" "header_interest (lname (fst h)) = 3" using v i by (simp_all add: framing_fields_def)
    show ?thesis
      unfolding step e using IH 3
      by (auto simp: accounts_for_def account_def field_values_snoc expect_supported_words Let_def)
  next
    case 4
    then have e: "header_interest (lname (fst h)) = 0" using i by (auto simp: framing_fields_def)
    show ?thesis
      unfolding step e using IH 4
      by (auto simp: accounts_for_def account_def field_values_snoc framing_fields_def Let_def)
  qed
qed

section \<open>Targets in fragments\<close>

definition url_frame :: "http1_state \<Rightarrow> _" where
  "url_frame h = (acct_of h, hdr_state h, hdr_name h, path_dec h, path_norm h, max_body_bytes h, header_too_big h)"

lemma on_url_effect:
  assumes "on_url a h = Some g" "\<not> internal_error g"
  shows "\<not> internal_error h \<and> url_frame g = url_frame h \<and>
    (if target_too_long h \<or> a = [] then g = h
     else if length (cur_target h @ a) > REQ_TARGET_MAX then target_too_long g \<and> parse_error g
     else \<not> target_too_long g \<and> parse_error g = parse_error h \<and> target g = Some (cur_target h @ a))"
proof -
  have q: "url_frame k = url_frame h \<and> target_too_long k = target_too_long h \<and> parse_error k = parse_error h"
    if "h1_alloc n al h = Some (ok, k)" for n al ok k
    using that by (auto simp: h1_alloc_def url_frame_def acct_of_def split: Option.bind_splits)
  have ie: "\<not> internal_error h"
    using assms by (auto simp: on_url_def Let_def split: if_splits Option.bind_splits)
  consider (skip) "target_too_long h \<or> a = []"
    | (long) "\<not> target_too_long h" "a \<noteq> []" "length (cur_target h @ a) > REQ_TARGET_MAX"
    | (fits) "\<not> target_too_long h" "a \<noteq> []" "length (cur_target h @ a) \<le> REQ_TARGET_MAX"
    by linarith
  then show ?thesis
  proof cases
    case fits
    let ?n = "target_new_cap (target_cap h) (length (cur_target h) + length a) + 1"
    have "g = h\<lparr>target := Some (cur_target h @ a)\<rparr> \<or>
      (\<exists>k b c r. h1_alloc ?n 1 h = Some (b, k) \<and>
         g = k\<lparr>target_cap := c, target_room := r, target := Some (cur_target h @ a)\<rparr>)"
      using assms fits ie
      by (auto simp: on_url_def target_grow_def target_append_def Let_def
          split: if_splits Option.bind_splits option.splits) blast+
    then show ?thesis
      using fits ie q by (auto simp: url_frame_def acct_of_def)
  next
    case skip
    then have "g = h" using assms(1) by (auto simp: on_url_def split: if_splits)
    then show ?thesis using skip ie by auto
  next
    case long
    then have "g = h\<lparr>target_too_long := True, parse_error := True, want_keepalive := False\<rparr>"
      using assms(1) ie by (simp add: on_url_def Let_def)
    then show ?thesis using long ie by (simp add: url_frame_def acct_of_def)
  qed
qed

lemma run_urls:
  assumes "h1_run vh (map Ev_url us) h = Some g" "\<not> internal_error g" "\<not> target_too_long h"
  shows "\<not> internal_error h \<and> url_frame g = url_frame h \<and>
    (length (cur_target h @ concat us) > REQ_TARGET_MAX \<longrightarrow> length (cur_target h) \<le> REQ_TARGET_MAX \<longrightarrow>
       target_too_long g \<and> parse_error g) \<and>
    (length (cur_target h @ concat us) \<le> REQ_TARGET_MAX \<longrightarrow>
       \<not> target_too_long g \<and> parse_error g = parse_error h \<and> cur_target g = cur_target h @ concat us)"
proof -
  have "on_url u k = Some k" if "target_too_long k" for u k using that by (simp add: on_url_def)
  then have stuck: "target_too_long k \<Longrightarrow> h1_run vh (map Ev_url us) k = Some k" for us k
    by (induction us) auto
  show ?thesis using assms
  proof (induction us arbitrary: h)
    case (Cons u us)
    obtain k where k: "on_url u h = Some k" "h1_run vh (map Ev_url us) k = Some g"
      using Cons.prems(1) by (auto split: Option.bind_splits)
    show ?case
    proof (cases "target_too_long k")
      case True
      then have "g = k" using stuck k(2) by simp
      then show ?thesis
        using True on_url_effect [OF k(1)] Cons.prems(2,3) by (auto split: if_splits)
    next
      case False
      note IH = Cons.IH [OF k(2) Cons.prems(2) False]
      then have "\<not> internal_error k" by simp
      with IH on_url_effect [OF k(1)] Cons.prems(3) False show ?thesis
        by (cases "u = []") (auto split: if_splits)
    qed
  qed auto
qed

end
