(* ===== verification/Http1_Request.thy ===== *)
theory Http1_Request
  imports Http1_Framing
begin

text \<open>
  The verdict on a whole request: how \<open>on_headers_complete\<close> of \<^verbatim>\<open>src/src/http_parser.c\<close> decides, from
  the header fields and the target it has been fed in fragments, whether the request is accepted,
  with which canonical path and which body.
\<close>

section \<open>The end of the header block\<close>










lemma hc_body_effect:
  "parse_error (hc_body vh h) = parse_error h" "unsupported_te (hc_body vh h) = unsupported_te h"
  "path_norm (hc_body vh h) = path_norm h" "path_norm_len (hc_body vh h) = path_norm_len h"
  "acct_of (hc_body vh h) = acct_of h" "internal_error (hc_body vh h) = internal_error h"
  "cl_count h = 1 \<Longrightarrow> body_too_big (hc_body vh h) \<or> body_remaining (hc_body vh h) = cl_value h \<and>
     message_done (hc_body vh h) = (cl_value h = 0)"
  "cl_count h \<noteq> 1 \<Longrightarrow> message_done (hc_body vh h) = (te_count h = 0 \<or> message_done h)"
  by (simp_all add: hc_body_def acct_of_def Let_def)

lemma normalize_effect:
  assumes "hc_normalize s h = Some (ok, g)"
  shows "if ok then \<exists>d out n ends. url_percent_decode_strict (Some s) (path_dec_cap h) True = Inr d \<and>
        url_path_normalize_absolute (Some d) (replicate (path_norm_cap h) NUL) = Some (Inr (out, n, ends)) \<and>
        g = h\<lparr>path_dec_len := u16_of (length d), path_dec := Some d, path_norm_len := u16_of n,
              path_norm := Some (take n out), path_ends_with_slash := ends\<rparr>
     else parse_error g \<and>
       (case url_percent_decode_strict (Some s) (path_dec_cap h) True of Inl e \<Rightarrow> True
        | Inr d \<Rightarrow> \<exists>e. url_path_normalize_absolute (Some d) (replicate (path_norm_cap h) NUL) = Some (Inl e))"
proof (cases "url_percent_decode_strict (Some s) (path_dec_cap h) True")
  case (Inl e)
  then show ?thesis using assms by (auto simp: hc_normalize_def h1_bad_done_def split: Option.bind_splits)
next
  case (Inr d)
  show ?thesis
  proof (cases rule: normalize_total [of d "replicate (path_norm_cap h) NUL"])
    case (err e)
    then show ?thesis using assms Inr
      by (auto simp: hc_normalize_def h1_bad_done_def split: Option.bind_splits dest!: path_out_Some)
  next
    case (ok out1 n ends)
    then show ?thesis using assms Inr
      by (auto simp: hc_normalize_def split: Option.bind_splits dest!: path_out_Some)
  qed
qed

lemma normalize_length:
  assumes "url_path_normalize_absolute (Some p) out = Some (Inr (out1, n, ends))"
  shows "length (take n out1) = n" "n \<le> length out"
proof -
  have ne: "out \<noteq> []" "p \<noteq> []" "hd p = CHR ''/''"
    using assms by (auto simp: url_path_normalize_absolute_def split: if_splits)
  from url_path_normalize_cases [OF this] assms
  have "length out1 = length out" "n = length (render_path (canonical_segments p))"
    "take n out1 = render_path (canonical_segments p)" by auto
  then show "length (take n out1) = n" by simp
  then show "n \<le> length out" using \<open>length out1 = length out\<close> by simp
qed











section \<open>The verdict on a request\<close>

definition request_events :: "string list \<Rightarrow> hdr_frags list \<Rightarrow> bool \<Rightarrow> llhttp_method \<Rightarrow> h1_event list" where
  "request_events us fs keep meth =
     map Ev_url us @ concat (map hdr_events fs) @ [Ev_headers_complete keep meth]"














definition sample_start :: http1_state where
  "sample_start = conn_reset_h1 8192 0 (h1_zero\<lparr>h1_mallocs := [Some 1]\<rparr>)"

lemmas h1_eval = h1_zero_def h1_alloc_def next_malloc_def req_arena_alloc_def empty_arena_def
  req_arena_reset_def req_arena_new_chunk_def chunk_cap_def REQ_ARENA_CHUNK_MIN_def CHUNK_HEADER_def
  chunk_place_def align_up_def target_new_cap_def u16_of_def Let_def h1_caps
  on_url_def on_header_field_def on_header_value_def on_headers_complete_def lower_ascii_def
  h1_hdr_append_raw_def h1_hdr_append_lower_def header_interest_def h1_finalize_interested_header_def
  http1_header_field_seen_def http_parser_reset_header_state_def h1_capture_header_def h1_account_header_def
  h1_parse_u64_ows_decimal_def is_ows_def is_digit_def digit_val_def UINT64_MAX_def
  hc_framing_def hc_target_def url_split_path_query_Some hc_path_buffers_def hc_dec_buffer_def
  hc_norm_buffer_def hc_normalize_def in_block_def path_out_def target_grow_def target_append_def hc_body_def h1_current_max_body_bytes_def DEFAULT_MAX_BODY_BYTES_def
  h1_resolve_max_body_bytes_def

lemma sample_decode: "url_percent_decode_strict (Some ''/a/../b'') 7 True = Inr ''/a/../b''"
  by code_simp

lemma sample_normalize:
  "url_path_normalize_absolute (Some ''/a/../b'') (replicate 7 NUL) = Some (Inr (''/b'' @ replicate 5 NUL, 2, False))"
  by code_simp



section \<open>Fields without a value\<close>

text \<open>
  C29: a field whose value is empty is not finished. When the byte parser reports an empty value,
  the name of the following field is appended to the name of the empty one, so the two fields are
  processed as a single field with the joined name, whatever the fields are and whatever came
  before them. The one exception is a request that the field before pushes over the limit on the
  number of fields: it is over the limit in both cases.
\<close>

theorem empty_value_joins_fields:
  "h1_run vh [Ev_header_field n, Ev_header_value [], Ev_header_field m, Ev_header_value v] h =
     h1_run vh [Ev_header_field (n @ m), Ev_header_value v] h \<or>
   (\<exists>g g'. h1_run vh [Ev_header_field n, Ev_header_value [], Ev_header_field m, Ev_header_value v] h = Some g \<and>
      h1_run vh [Ev_header_field (n @ m), Ev_header_value v] h = Some g' \<and> header_too_big g \<and> header_too_big g')"
proof (cases "on_header_field n h")
  case None
  then show ?thesis by (auto simp: on_header_field_eq split: if_splits)
next
  case (Some g)
  show ?thesis
  proof (cases "header_too_big g")
    case True
    then obtain g' where g': "on_header_field (n @ m) h = Some g'" "header_too_big g'"
      using Some by (auto simp: on_header_field_eq split: if_splits)
    have "on_header_field m g = Some g" using True by (simp add: on_header_field_eq)
    then show ?thesis using Some True g' by (simp add: on_header_value_eq)
  next
    case False
    then show ?thesis using Some header_field_append [OF Some, of m] by (simp add: on_header_value_eq)
  qed
qed

text \<open>A \<open>Content-Length\<close> after a field without a value is not seen, here behind a complete \<open>host\<close> field.\<close>

definition sample_host :: http1_state where
  "sample_host = the (h1_run None [Ev_header_field ''host'', Ev_header_value ''a''] sample_start)"

lemma sample_host_eq:
  "sample_host = (conn_reset_h1 8192 0 (h1_zero\<lparr>h1_mallocs := [Some 1]\<rparr>))
     \<lparr>hdr_state := 2, hdr_name := ''host'', hdr_val_raw := ''a''\<rparr>"
  by (rule http1_state.equality) (simp_all add: sample_host_def sample_start_def reset_h1_eq h1_eval)

theorem empty_value_joins_fields_witness:
  "map_option (\<lambda>g. (cl_count g, hdr_name g))
     (h1_run None [Ev_header_field ''x'', Ev_header_value [], Ev_header_field ''content-length'', Ev_header_value ''5'',
        Ev_headers_complete True HTTP_GET] sample_host) = Some (0, ''xcontent-length'')"
proof -
  let ?two = "[Ev_header_field ''x'', Ev_header_value [], Ev_header_field ''content-length'', Ev_header_value ''5'']"
  let ?one = "[Ev_header_field ''xcontent-length'', Ev_header_value ''5'']"
  have small: "map_option header_too_big (h1_run None ?one sample_host) = Some False"
    by (simp add: sample_host_eq reset_h1_eq h1_eval)
  then have join: "h1_run None ?two sample_host = h1_run None ?one sample_host"
    using empty_value_joins_fields [of None "''x''" "''content-length''" "''5''" sample_host] by auto
  have "h1_run None (?two @ [Ev_headers_complete True HTTP_GET]) sample_host =
      h1_run None (?one @ [Ev_headers_complete True HTTP_GET]) sample_host"
    unfolding h1_run_append join ..
  then show ?thesis by (simp add: sample_host_eq reset_h1_eq h1_eval h1_bad_done_def)
qed

section \<open>Paths seen by the rest of the server\<close>

definition safe_path :: "string \<Rightarrow> bool" where
  "safe_path p \<longleftrightarrow>
     p \<noteq> [] \<and> hd p = CHR ''/'' \<and> (\<forall>s\<in>set (path_segments p). plain_segment s) \<and> render_path (canonical_segments p) = p"

definition path_inv :: "http1_state \<Rightarrow> bool" where
  "path_inv h \<longleftrightarrow>
     (path_norm_len h \<noteq> 0 \<longrightarrow> (\<exists>p. path_norm h = Some p \<and> length p = path_norm_len h \<and> safe_path p))"

lemma safe_render: "safe_path (render_path (canonical_segments p))"
  using canonical_plain [of p]
  by (simp add: safe_path_def render_not_Nil path_segments_render canonical_render plain_segment_def)

lemma path_inv_view: "view h' = view h \<Longrightarrow> path_inv h' = path_inv h"
  by (simp add: path_inv_def view_def)

lemma normalize_path_inv:
  assumes "hc_normalize s h = Some (ok, g)" "path_norm_len h = 0" "path_norm_cap h \<le> REQ_PATH_MAX"
  shows "path_inv g"
proof (cases ok)
  case True
  with normalize_effect [OF assms(1)] obtain d out n ends
    where d: "url_path_normalize_absolute (Some d) (replicate (path_norm_cap h) NUL) = Some (Inr (out, n, ends))"
      and g: "g = h\<lparr>path_dec_len := u16_of (length d), path_dec := Some d, path_norm_len := u16_of n,
              path_norm := Some (take n out), path_ends_with_slash := ends\<rparr>" by auto
  have n: "length (take n out) = n" "u16_of n = n"
    using normalize_length [OF d] assms(3) by (simp_all add: u16_path)
  from d have "take n out = render_path (canonical_segments d)"
    by (cases rule: normalize_total [of d "replicate (path_norm_cap h) NUL"]) auto
  then show ?thesis using n safe_render [of d] by (auto simp: g path_inv_def)
next
  case False
  then show ?thesis using assms(1,2)
    by (auto simp: hc_normalize_def h1_bad_done_def path_inv_def Let_def
        split: sum.splits Option.bind_splits dest!: path_out_Some)
qed

lemma path_buffers_len:
  assumes "hc_path_buffers cap h = Some (ok, g)"
  shows "path_norm_len g = path_norm_len h"
proof -
  have al: "h1_alloc n al k = Some (b, f) \<Longrightarrow> path_norm_len f = path_norm_len k" for n al k b f
    by (auto simp: h1_alloc_def split: Option.bind_splits)
  have "hc_dec_buffer cap k = Some (b, f) \<Longrightarrow> path_norm_len f = path_norm_len k"
    "hc_norm_buffer cap k = Some (b, f) \<Longrightarrow> path_norm_len f = path_norm_len k" for k b f
    by (auto simp: hc_dec_buffer_def hc_norm_buffer_def hc_oom_def
        split: Option.bind_splits if_splits option.splits dest!: al)
  then show ?thesis using assms by (fastforce simp: hc_path_buffers_def split: Option.bind_splits if_splits)
qed

lemma hc_target_path_inv:
  assumes run: "hc_target vh h0 = Some g" and inv: "h1_inv h0"
  shows "path_inv g"
proof -
  have upd: "h1_inv (h0\<lparr>path_bad := False, method_not_allowed := False,
      path_dec_len := 0, path_norm_len := 0, path_ends_with_slash := False, path_len := a, query_off := b, query_len := c\<rparr>)" for a b c
    using inv by (simp add: h1_inv_simps)
  have step: "path_inv f" if k: "path_norm_len k = 0" "h1_inv k" "n \<le> REQ_PATH_MAX" "hc_path_buffers n k = Some (ok, l)"
    "(if \<not> ok then Some l else do { (ok', m) \<leftarrow> hc_normalize s l; Some (if ok' then hc_body vh m else m) }) = Some f"
    for n k ok l s f
  proof -
    have l: "path_norm_len l = 0" "path_norm_cap l \<le> REQ_PATH_MAX"
      using path_buffers_len [OF k(4)] path_buffers_ok [OF k(2,3)] k(1,4) by (auto simp: h1_inv_simps)
    have body: "path_inv (hc_body vh m) = path_inv m" for m by (simp add: path_inv_def hc_body_effect)
    show ?thesis
    proof (cases ok)
      case True
      then obtain ok' m where m: "hc_normalize s l = Some (ok', m)" "f = (if ok' then hc_body vh m else m)"
        using k(5) by (auto split: Option.bind_splits)
      from normalize_path_inv [OF m(1) l] m(2) body show ?thesis by simp
    next
      case False
      then show ?thesis using k(5) l by (simp add: path_inv_def)
    qed
  qed
  let ?t = "cur_target h0"
  let ?n = "length (takeWhile (\<lambda>c. c \<noteq> CHR ''?'') ?t)"
  let ?out = "h1_method h0 \<noteq> HTTP_GET \<and> h1_method h0 \<noteq> HTTP_HEAD \<or> internal_error h0 \<or> ?t = [] \<or>
      target_too_long h0 \<or> target h0 = None \<or> ?n = 0 \<or> hd ?t \<noteq> CHR ''/'' \<or> ?n > REQ_PATH_MAX"
  show ?thesis
  proof (cases ?out)
    case True
    then have "path_norm_len g = 0"
      using run by (cases "target h0")
        (auto simp: hc_target_def h1_bad_done_def Let_def url_split_path_query_Some split: if_splits)
    then show ?thesis by (simp add: path_inv_def)
  next
    case False
    then obtain t where tg: "target h0 = Some t" by auto
    define n where "n = length (takeWhile (\<lambda>c. c \<noteq> CHR ''?'') t)"
    have path: "h1_method h0 = HTTP_GET \<or> h1_method h0 = HTTP_HEAD" "\<not> internal_error h0" "t \<noteq> []"
      "\<not> target_too_long h0" "n \<noteq> 0" "hd t = CHR ''/''" "n \<le> REQ_PATH_MAX"
      using False tg by (auto simp: not_less n_def)
    obtain a b c where "do { (ok, l) \<leftarrow> hc_path_buffers n (h0\<lparr>path_bad := False, method_not_allowed := False,
        path_dec_len := 0, path_norm_len := 0, path_ends_with_slash := False, path_len := a, query_off := b, query_len := c\<rparr>);
        if \<not> ok then Some l
        else do { (ok', m) \<leftarrow> hc_normalize (take n t) l; Some (if ok' then hc_body vh m else m) } } = Some g"
      using run path tg by (auto simp: hc_target_def Let_def url_split_path_query_Some simp flip: n_def)
    with step [OF _ upd path(7)] show ?thesis by (auto split: Option.bind_splits)
  qed
qed

lemma dispatch_path_inv:
  assumes run: "h1_dispatch vh e h = Some g" and inv: "h1_inv h" "path_inv h"
  shows "path_inv g"
proof (cases e)
  case (Ev_url at)
  have al: "h1_alloc n al k = Some (b, f) \<Longrightarrow> path_norm f = path_norm k \<and> path_norm_len f = path_norm_len k" for n al k b f
    by (auto simp: h1_alloc_def split: Option.bind_splits)
  have "path_norm g = path_norm h \<and> path_norm_len g = path_norm_len h"
    using run Ev_url by (auto simp: on_url_def target_grow_def target_append_def Let_def
        split: if_splits Option.bind_splits option.splits dest!: al)
  then show ?thesis using inv(2) by (simp add: path_inv_def)
next
  case (Ev_header_field at)
  then have "view g = view h"
    using run finalize_view
    by (auto simp: on_header_field_eq put_name_def http_parser_reset_header_state_def view_def split: if_splits)
  then show ?thesis using inv(2) path_inv_view by blast
next
  case (Ev_header_value at)
  then have "view g = view h"
    using run by (auto simp: on_header_value_eq put_value_def start_value_def view_def split: if_splits)
  then show ?thesis using inv(2) path_inv_view by blast
next
  case (Ev_headers_complete keep meth)
  let ?h1 = "h\<lparr>headers_done := True, want_keepalive := keep, h1_method := meth, method_set := True\<rparr>"
  have inv1: "h1_inv ?h1" "path_inv ?h1" using inv by (simp_all add: h1_inv_simps path_inv_def)
  obtain k where k: "(if hdr_state ?h1 = 2 then h1_finalize_interested_header ?h1 else Some ?h1) = Some k"
    using run Ev_headers_complete by (auto simp: on_headers_complete_def Let_def split: Option.bind_splits)
  have k_inv: "h1_inv k" "path_inv k"
    using k inv1 finalize_ok [OF inv1(1)] finalize_view [of ?h1 k] path_inv_view [of k ?h1] by (auto split: if_splits)
  let ?l = "k\<lparr>unsupported_te := False, body_remaining := 0, body_bytes := 0,
      max_body_bytes := h1_current_max_body_bytes k, body_too_big := False, message_done := False\<rparr>"
  obtain go m where fr: "hc_framing ?l = (go, m)" by fastforce
  have l_inv: "h1_inv ?l" "path_inv ?l" using k_inv by (simp_all add: h1_inv_simps path_inv_def)
  have "h1_inv (snd (hc_framing h)) = h1_inv h" "path_inv (snd (hc_framing h)) = path_inv h" for h
    by (simp_all add: hc_framing_def h1_bad_def h1_inv_simps path_inv_def)
  from this [of ?l, unfolded fr] have m_inv: "h1_inv m" "path_inv m" using l_inv by simp_all
  have "(if go then hc_target vh m else Some m) = Some g"
    using run Ev_headers_complete k by (simp add: on_headers_complete_def Let_def fr)
  then show ?thesis using hc_target_path_inv m_inv by (auto split: if_splits)
next
  case (Ev_body n)
  then show ?thesis using run inv(2) by (auto simp: on_body_def path_inv_def Let_def split: if_splits)
next
  case Ev_message_complete
  then show ?thesis using run inv(2) by (auto simp: on_message_complete_def path_inv_def)
qed

text \<open>
  C11: at every moment of a connection, over all sequences of parser events and keep-alive
  requests, the normalised path that routing, authentication and file lookup see is absent or is
  an absolute canonical path: it starts with a slash, no segment of it is empty, a dot or two
  dots, and it is its own normal form.
\<close>

theorem session_paths_safe:
  assumes mem: "mem_ok (req_arena_init a) ms"
    and run: "h1_session vh mhb mbb es (conn_init_h1 vh mhb mbb a ms) = Some h" and path: "h1_path h = Some p"
  shows "safe_path p"
proof -
  have "h1_inv k \<Longrightarrow> path_inv k \<Longrightarrow> h1_session vh mhb mbb es k = Some h \<Longrightarrow> path_inv h" for k
  proof (induction es arbitrary: k)
    case (Cons e es)
    show ?case
    proof (cases e)
      case (Event ev)
      obtain k1 where k1: "h1_dispatch vh ev k = Some k1" "h1_session vh mhb mbb es k1 = Some h"
        using Cons.prems(3) Event by (auto split: Option.bind_splits)
      then have "h1_inv k1" using dispatch_ok [OF Cons.prems(1), of vh ev] by auto
      then show ?thesis using Cons.IH k1 dispatch_path_inv [OF k1(1) Cons.prems(1,2)] by blast
    next
      case Next_request
      have "path_inv (conn_reset_h1 mhb mbb k)" by (simp add: reset_h1_eq path_inv_def h1_zero_def)
      then show ?thesis using Cons.IH [OF reset_h1_ok [OF Cons.prems(1)]] Cons.prems(3) Next_request by simp
    qed
  qed simp
  moreover have "h1_inv (conn_init_h1 vh mhb mbb a ms)" "path_inv (conn_init_h1 vh mhb mbb a ms)"
    using zero_inv [OF mem] by (simp_all add: conn_init_h1_def path_inv_def h1_zero_def Let_def)
  ultimately have "path_inv h" using run by blast
  then show ?thesis using path by (auto simp: h1_path_def path_inv_def split: if_splits)
qed

theorem session_paths_safe_witness:
  "\<exists>h. h1_session None 8192 0 (map Event (request_events [''/a/'', ''../b?q''] [] True HTTP_GET))
        (conn_init_h1 None 8192 0 empty_arena [Some 1]) = Some h \<and> h1_path h = Some ''/b'' \<and> safe_path ''/b''"
proof -
  have mem: "mem_ok (req_arena_init empty_arena) [Some 1]"
    by (simp add: mem_ok_def empty_arena_def req_arena_init_def arena_inv_def live_addrs_def)
  have "map_option h1_path (h1_session None 8192 0 (map Event (request_events [''/a/'', ''../b?q''] [] True HTTP_GET))
        (conn_init_h1 None 8192 0 empty_arena [Some 1])) = Some (Some ''/b'')"
    by (simp add: request_events_def conn_init_h1_def req_arena_init_def h1_eval h1_path_def
        sample_decode sample_normalize)
  then obtain h where h: "h1_session None 8192 0 (map Event (request_events [''/a/'', ''../b?q''] [] True HTTP_GET))
        (conn_init_h1 None 8192 0 empty_arena [Some 1]) = Some h" "h1_path h = Some ''/b''" by auto
  from session_paths_safe [OF mem h] h show ?thesis by blast
qed

section \<open>Body limit\<close>

text \<open>The body chunks of one request: the byte parser stops at the first error return.\<close>

fun feed_body :: "nat list \<Rightarrow> http1_state \<Rightarrow> bool \<times> http1_state" where
  "feed_body [] h = (False, h)"
| "feed_body (n # ns) h = (let (stop, g) = on_body n h in if stop then (True, g) else feed_body ns g)"

lemma on_body_exact:
  assumes "n < 2 ^ 64" "unat (body_bytes h) \<le> unat (h1_current_max_body_bytes h)"
  shows "fst (on_body n h) \<longleftrightarrow> unat (body_bytes h) + n > unat (h1_current_max_body_bytes h)"
    "fst (on_body n h) \<Longrightarrow> body_too_big (snd (on_body n h)) \<and> \<not> want_keepalive (snd (on_body n h))"
    "\<not> fst (on_body n h) \<Longrightarrow> unat (body_bytes (snd (on_body n h))) = unat (body_bytes h) + n \<and>
       max_body_bytes (snd (on_body n h)) = max_body_bytes h \<and> body_too_big (snd (on_body n h)) = body_too_big h"
proof -
  define m where "m = unat (h1_current_max_body_bytes h)"
  have m: "m < 2 ^ 64" using unsigned_less [of "h1_current_max_body_bytes h", where 'a = nat] by (simp add: m_def)
  have u: "unat (of_nat n :: u64) = n" using assms(1) by (simp add: unat_of_nat take_bit_nat_eq_self)
  have over: "body_bytes h > UINT64_MAX - of_nat n \<longleftrightarrow> unat (body_bytes h) + n \<ge> 2 ^ 64"
    using u assms(1) by (simp add: word_less_nat_alt unat_sub) linarith
  have sum: "unat (body_bytes h + of_nat n) = unat (body_bytes h) + n" if "unat (body_bytes h) + n < 2 ^ 64"
    using that u by (simp add: unat_word_ariths)
  have lim: "h1_current_max_body_bytes (h\<lparr>body_bytes := b\<rparr>) = h1_current_max_body_bytes h" for b
    by (simp add: h1_current_max_body_bytes_def)
  show "fst (on_body n h) \<longleftrightarrow> unat (body_bytes h) + n > unat (h1_current_max_body_bytes h)"
    "fst (on_body n h) \<Longrightarrow> body_too_big (snd (on_body n h)) \<and> \<not> want_keepalive (snd (on_body n h))"
    "\<not> fst (on_body n h) \<Longrightarrow> unat (body_bytes (snd (on_body n h))) = unat (body_bytes h) + n \<and>
       max_body_bytes (snd (on_body n h)) = max_body_bytes h \<and> body_too_big (snd (on_body n h)) = body_too_big h"
    using assms(2) m over sum
    by (cases "unat (body_bytes h) + n < 2 ^ 64";
        auto simp: on_body_def Let_def lim word_less_nat_alt simp flip: m_def split: if_splits)+
qed

text \<open>
  C30: the body limit is enforced exactly. Whatever the sizes of the body chunks, the request is
  stopped exactly when their sum exceeds the limit in force, and is then marked as too big and
  not kept alive; otherwise the byte count is the exact sum, which never wraps around.
\<close>

theorem body_limit_exact:
  assumes "\<forall>n\<in>set ns. n < 2 ^ 64" "body_bytes h = 0"
  shows "let (stop, g) = feed_body ns h
    in (stop \<longleftrightarrow> sum_list ns > unat (h1_current_max_body_bytes h)) \<and>
       (if stop then body_too_big g \<and> \<not> want_keepalive g
        else unat (body_bytes g) = sum_list ns \<and> body_too_big g = body_too_big h)"
proof -
  have "let (stop, g) = feed_body ns h
    in (stop \<longleftrightarrow> unat (body_bytes h) + sum_list ns > unat (h1_current_max_body_bytes h)) \<and>
       (if stop then body_too_big g \<and> \<not> want_keepalive g
        else unat (body_bytes g) = unat (body_bytes h) + sum_list ns \<and> body_too_big g = body_too_big h)"
    if "\<forall>n\<in>set ns. n < 2 ^ 64" "unat (body_bytes h) \<le> unat (h1_current_max_body_bytes h)" for ns h
    using that
  proof (induction ns arbitrary: h)
    case (Cons n ns)
    obtain stop g where g: "on_body n h = (stop, g)" by fastforce
    note ex = on_body_exact [of n h, unfolded g fst_conv snd_conv]
    show ?case
    proof (cases stop)
      case True
      then show ?thesis using ex Cons.prems g by (simp add: trans_less_add1 add.assoc [symmetric])
    next
      case False
      then have lim: "h1_current_max_body_bytes g = h1_current_max_body_bytes h"
        using ex(3) Cons.prems by (simp add: h1_current_max_body_bytes_def)
      have "unat (body_bytes g) \<le> unat (h1_current_max_body_bytes g)"
        using ex Cons.prems False lim by (simp add: not_less)
      from Cons.IH [OF _ this] ex(3) Cons.prems False g lim show ?thesis
        by (auto simp: add.assoc split: prod.splits)
    qed
  qed simp
  from this [OF assms(1), of h] assms(2) show ?thesis by (cases "feed_body ns h") (auto split: if_splits)
qed

theorem body_limit_exact_witness:
  "fst (feed_body [600000, 600000] h1_zero) \<and> \<not> fst (feed_body [600000, 400000] h1_zero)"
proof -
  have lim: "unat (h1_current_max_body_bytes h1_zero) = 1048576" "body_bytes h1_zero = 0"
    by (simp_all add: h1_current_max_body_bytes_def h1_zero_def DEFAULT_MAX_BODY_BYTES_def)
  show ?thesis
    using body_limit_exact [of "[600000, 600000]" h1_zero] body_limit_exact [of "[600000, 400000]" h1_zero] lim
    by (simp add: split_beta Let_def)
qed

end
