(* ===== verification/Auth.thy ===== *)
theory Auth
  imports Tx Policy Http1_Parser
begin

unbundle bit_operations_syntax

text \<open>
  HTTP Basic authentication, \<^verbatim>\<open>src/src/auth.c\<close>: the Base64 decoder, the constant-time
  comparison, the loader of credential files and the check made for each request. The password
  hash of the C library, \<open>crypt_r\<close>, is a parameter \<open>crypt\<close>: from a password and a setting
  (a stored hash) it gives a hash or \<open>None\<close> for the \<open>NULL\<close> result.
\<close>

section \<open>Base64\<close>

definition b64_char_val :: "char \<Rightarrow> int" where
  "b64_char_val c =
     (let n = int (byte c)
      in if 65 \<le> n \<and> n \<le> 90 then n - 65
         else if 97 \<le> n \<and> n \<le> 122 then n - 97 + 26
         else if 48 \<le> n \<and> n \<le> 57 then n - 48 + 52
         else if c = CHR ''+'' then 62
         else if c = CHR ''/'' then 63
         else if c = CHR ''='' then - 2
         else - 1)"

definition b64_byte :: "int \<Rightarrow> char" where
  "b64_byte n = char_of (nat (n AND 0xff))"

text \<open>One read \<open>src[i++]\<close> of the decoder: is there a character, its value, the rest.\<close>

definition b64_next :: "int \<Rightarrow> string \<Rightarrow> bool \<times> int \<times> string" where
  "b64_next missing s = (case s of [] \<Rightarrow> (False, missing, []) | c # cs \<Rightarrow> (True, b64_char_val c, cs))"

definition b64_end :: "string \<Rightarrow> string \<Rightarrow> string option" where
  "b64_end rest out = (if rest \<noteq> [] then None else Some out)"

lemma b64_next_length: "(p, v, t) = b64_next m s \<Longrightarrow> length t \<le> length s"
  by (cases s) (auto simp: b64_next_def)

text \<open>The loop over groups of four characters; \<open>out\<close> holds the bytes written so far.\<close>

function b64_loop :: "nat \<Rightarrow> string \<Rightarrow> string \<Rightarrow> string option" where
  "b64_loop cap [] out = Some out"
| "b64_loop cap (x # s) out =
     (let a = b64_char_val x;
          (_, b, s1) = b64_next (- 1) s;
          (c_present, c, s2) = b64_next (- 2) s1;
          (d_present, d, s3) = b64_next (- 2) s2
      in if a < 0 \<or> b < 0 then None
         else if length out \<ge> cap then None
         else
           (let out1 = out @ [b64_byte (push_bit 2 a OR drop_bit 4 b)]
            in if c = - 2 then
                 (if c_present \<and> (\<not> d_present \<or> d \<noteq> - 2) then None else b64_end s3 out1)
               else if c < 0 then None
               else if length out1 \<ge> cap then None
               else
                 (let out2 = out1 @ [b64_byte (push_bit 4 b OR drop_bit 2 c)]
                  in if d = - 2 then b64_end s3 out2
                     else if d < 0 then None
                     else if length out2 \<ge> cap then None
                     else b64_loop cap s3 (out2 @ [b64_byte (push_bit 6 c OR d)]))))"
  by pat_completeness auto
termination
  by (relation "measure (\<lambda>(cap, s, out). length s)") (auto dest!: b64_next_length)

declare b64_loop.simps [simp del]

definition auth_base64_decode :: "string \<Rightarrow> nat \<Rightarrow> string option" where
  "auth_base64_decode src dst_cap = b64_loop dst_cap src []"

section \<open>Comparing and verifying\<close>

text \<open>Reading a string past its end gives 0 in the comparison.\<close>

definition char_at :: "string \<Rightarrow> nat \<Rightarrow> nat" where
  "char_at s i = (if i < length s then byte (s ! i) else 0)"

definition auth_ct_strcmp :: "string \<Rightarrow> string \<Rightarrow> u32" where
  "auth_ct_strcmp a b =
     fold (\<lambda>i diff. diff OR of_nat (char_at a i XOR char_at b i)) [0..<max (length a) (length b)]
       (of_nat (length a XOR length b))"

definition auth_verify_password ::
    "(string \<Rightarrow> string \<Rightarrow> string option) \<Rightarrow> string \<Rightarrow> string \<Rightarrow> bool" where
  "auth_verify_password crypt password hash =
     (case crypt password hash of
        None \<Rightarrow> False
      | Some result \<Rightarrow>
          (if result \<noteq> [] \<and> hd result = CHR ''*'' then False else auth_ct_strcmp result hash = 0))"

definition auth_probe_hash :: "(string \<Rightarrow> string \<Rightarrow> string option) \<Rightarrow> string \<Rightarrow> bool" where
  "auth_probe_hash crypt hash =
     (case crypt [] hash of
        None \<Rightarrow> False
      | Some result \<Rightarrow> \<not> (result \<noteq> [] \<and> hd result = CHR ''*''))"

section \<open>Loading a credential file\<close>

definition AUTH_MAX_USERS :: nat where "AUTH_MAX_USERS = 256"
definition AUTH_USER_MAX :: nat where "AUTH_USER_MAX = 64"
definition AUTH_HASH_MAX :: nat where "AUTH_HASH_MAX = 128"

text \<open>The size of the line buffer: user, colon, hash, newline and NUL.\<close>

definition AUTH_LINE_SIZE :: nat where
  "AUTH_LINE_SIZE = AUTH_USER_MAX + 1 + AUTH_HASH_MAX + 2"

text \<open>\<open>fgets\<close> on the unread bytes of the file: what it stores before the NUL, and the rest.\<close>

definition fgets :: "nat \<Rightarrow> string \<Rightarrow> string \<times> string" where
  "fgets n s =
     (let k = min (n - 1) (length (takeWhile (\<lambda>c. c \<noteq> LF) s) + 1) in (take k s, drop k s))"

definition c_string :: "string \<Rightarrow> string" where
  "c_string s = takeWhile (\<lambda>c. c \<noteq> NUL) s"

definition strip_eol :: "string \<Rightarrow> string" where
  "strip_eol s = rev (dropWhile (\<lambda>c. c = LF \<or> c = CR) (rev s))"

text \<open>The entry of a stripped line, unless the line is skipped.\<close>

definition auth_line_entry ::
    "(string \<Rightarrow> string \<Rightarrow> string option) \<Rightarrow> string \<Rightarrow> (string \<times> string) option" where
  "auth_line_entry crypt line =
     (if line = [] \<or> hd line = CHR ''#'' then None
      else if CHR '':'' \<notin> set line then None
      else
        (let user = takeWhile (\<lambda>c. c \<noteq> CHR '':'') line;
             hash = drop (length user + 1) line
         in if user = [] \<or> length user > AUTH_USER_MAX then None
            else if hash = [] \<or> length hash > AUTH_HASH_MAX then None
            else if \<not> auth_probe_hash crypt hash then None
            else Some (user, hash)))"

definition auth_new_cap :: "nat \<Rightarrow> nat" where
  "auth_new_cap cap =
     (let n = (if cap \<noteq> 0 then cap * 2 else 8)
      in if n > AUTH_MAX_USERS \<or> n < cap then AUTH_MAX_USERS else n)"

text \<open>
  The reading loop: \<open>reallocs\<close> are the outcomes of the calls of \<open>realloc\<close> to come, \<open>cap\<close> the
  capacity of the entry array. The result \<open>None\<close> is the return after a failed \<open>realloc\<close>.
\<close>

function auth_load_loop ::
    "(string \<Rightarrow> string \<Rightarrow> string option) \<Rightarrow> bool list \<Rightarrow> nat \<Rightarrow> auth_store \<Rightarrow> string \<Rightarrow> auth_store option" where
  "auth_load_loop crypt reallocs cap store s =
     (if s = [] then Some store
      else
        (let (raw, rest) = fgets AUTH_LINE_SIZE s;
             line = strip_eol (c_string raw)
         in if length line = AUTH_LINE_SIZE - 1
            then auth_load_loop crypt reallocs cap store (tl (dropWhile (\<lambda>c. c \<noteq> LF) rest))
            else
              (case auth_line_entry crypt line of
                 None \<Rightarrow> auth_load_loop crypt reallocs cap store rest
               | Some e \<Rightarrow>
                   (if length store \<ge> AUTH_MAX_USERS then Some store
                    else if length store = cap then
                      (if reallocs \<noteq> [] \<and> hd reallocs
                       then auth_load_loop crypt (tl reallocs) (auth_new_cap cap) (store @ [e]) rest
                       else None)
                    else auth_load_loop crypt reallocs cap (store @ [e]) rest))))"
  by pat_completeness auto

lemma fgets_shorter: "s \<noteq> [] \<Longrightarrow> (raw, rest) = fgets AUTH_LINE_SIZE s \<Longrightarrow> length rest < length s"
  by (cases s) (auto simp: fgets_def Let_def AUTH_LINE_SIZE_def AUTH_USER_MAX_def min_def)

termination auth_load_loop
proof (relation "measure (\<lambda>(crypt, reallocs, cap, store, s). length s)", goal_cases)
  case (2 crypt reallocs cap store s p raw rest line)
  have "length (tl (dropWhile (\<lambda>c. c \<noteq> LF) rest)) \<le> length rest"
    using length_dropWhile_le [of "\<lambda>c. c \<noteq> LF" rest] by simp
  with 2 show ?case using fgets_shorter [of s raw rest] by simp
qed (auto dest: fgets_shorter)

declare auth_load_loop.simps [simp del]

text \<open>
  \<open>file\<close> holds the bytes of the opened file (\<open>None\<close> when \<open>fopen\<close> fails), \<open>calloc_ok\<close> the outcome of
  the allocation of the store, \<open>io_error\<close> that of \<open>ferror\<close> after the last line.
\<close>

definition auth_store_load ::
    "(string \<Rightarrow> string \<Rightarrow> string option) \<Rightarrow> string option \<Rightarrow> string option \<Rightarrow> bool \<Rightarrow> bool list \<Rightarrow> bool \<Rightarrow>
     auth_store option" where
  "auth_store_load crypt path file calloc_ok reallocs io_error =
     (if path = None \<or> path = Some [] then None
      else
        (case file of
           None \<Rightarrow> None
         | Some s \<Rightarrow>
             (if \<not> calloc_ok then None
              else
                (case auth_load_loop crypt reallocs 0 [] s of
                   None \<Rightarrow> None
                 | Some store \<Rightarrow> if io_error then None else if store = [] then None else Some store))))"

section \<open>The check of a request\<close>

text \<open>
  \<open>auth_hdr_appendf\<close> with the format \<open>%s\<close>: \<open>out\<close> is the text written so far, its length the
  offset. A failed call leaves the offset as it was and its caller gives the buffer up.
\<close>

definition auth_hdr_appendf :: "nat \<Rightarrow> string \<Rightarrow> string \<Rightarrow> string option" where
  "auth_hdr_appendf cap out s =
     (if length out \<ge> cap then None
      else if s = [] \<or> length s \<ge> cap - length out then None
      else Some (out @ s))"

fun append_lines :: "nat \<Rightarrow> string list \<Rightarrow> string \<Rightarrow> string option" where
  "append_lines cap [] out = Some out"
| "append_lines cap (l # ls) out =
     (if l = [] then append_lines cap ls out
      else
        (case auth_hdr_appendf cap out l of
           None \<Rightarrow> None
         | Some out1 \<Rightarrow> append_lines cap ls out1))"

text \<open>\<open>None\<close> is the result -1, \<open>Some []\<close> the result 0 and another text the result 1.\<close>

definition auth_build_policy_extra_headers :: "string option \<Rightarrow> vhost_t option \<Rightarrow> string option" where
  "auth_build_policy_extra_headers path vhost =
     (case vhost of
        None \<Rightarrow> Some []
      | Some vh \<Rightarrow>
          (let ctx = policy_shared_collect_headers path (Some vh)
           in if pc_overflow ctx then None
              else if pc_lines ctx = [] then Some []
              else append_lines 1024 (pc_lines ctx) []))"

text \<open>The user and password of an \<open>Authorization\<close> header, \<open>None\<close> where the code jumps to \<open>deny\<close>.\<close>

definition basic_credentials :: "req_hdr_entry list \<Rightarrow> (string \<times> string) option" where
  "basic_credentials hdrs =
     (case find (\<lambda>e. e_id e = HDR_ID_AUTHORIZATION) hdrs of
        None \<Rightarrow> None
      | Some e \<Rightarrow>
          (if e_truncated e then None
           else if length (e_value e) < 6 \<or> \<not> strcasecmp_eq (take 5 (e_value e)) ''Basic'' \<or>
             e_value e ! 5 \<noteq> CHR '' '' then None
           else
             (let token = dropWhile (\<lambda>c. c = CHR '' '') (drop 5 (e_value e))
              in if token = [] then None
                 else
                   (case auth_base64_decode token 95 of
                      None \<Rightarrow> None
                    | Some decoded \<Rightarrow>
                        (if decoded = [] then None
                         else if NUL \<in> set decoded then None
                         else if CHR '':'' \<notin> set decoded then None
                         else
                           (let user = takeWhile (\<lambda>c. c \<noteq> CHR '':'') decoded
                            in Some (user, drop (length user + 1) decoded)))))))"

text \<open>The scan of the store: the first entry's hash stands in for an unknown user.\<close>

definition candidate_step :: "string \<Rightarrow> string \<times> string \<Rightarrow> bool \<times> string \<Rightarrow> bool \<times> string" where
  "candidate_step user e st =
     (if \<not> fst st \<and> fst e = user then (True, snd e) else st)"

definition auth_accepts ::
    "(string \<Rightarrow> string \<Rightarrow> string option) \<Rightarrow> auth_store \<Rightarrow> string \<times> string \<Rightarrow> bool" where
  "auth_accepts crypt store cred =
     (if store = [] then False
      else
        (let (found, hash) = fold (candidate_step (fst cred)) store (False, snd (hd store))
         in auth_verify_password crypt (snd cred) hash \<and> found))"

definition auth_challenge :: "vhost_t \<Rightarrow> string" where
  "auth_challenge vh =
     (let mk = (\<lambda>realm. ''WWW-Authenticate: Basic realm='' @ [CHR 0x22] @ realm @ [CHR 0x22] @ CRLF);
          ch = mk (if auth_realm vh \<noteq> [] then auth_realm vh else ''Restricted'')
      in if length ch \<ge> 128 then mk ''Restricted'' else ch)"

definition auth_deny ::
    "nat option \<Rightarrow> nat option \<Rightarrow> vhost_t \<Rightarrow> http1_state \<Rightarrow> tx_state_t \<Rightarrow> date_cache \<Rightarrow>
     int \<times> (tx_state_t \<times> date_cache) \<times> eff list" where
  "auth_deny mem now vh h tx g =
     (case auth_build_policy_extra_headers (h1_path h) (Some vh) of
        None \<Rightarrow> (- 1, (tx, g), [])
      | Some extra \<Rightarrow>
          (case auth_hdr_appendf 1280 [] (auth_challenge vh) of
             None \<Rightarrow> (- 1, (tx, g), [])
           | Some e1 \<Rightarrow>
               (case (if extra \<noteq> [] then auth_hdr_appendf 1280 e1 extra else Some e1) of
                  None \<Rightarrow> (- 1, (tx, g), [])
                | Some e2 \<Rightarrow>
                    (let body = ''Unauthorized'' @ [LF];
                         ka = want_keepalive h
                     in case tx_build_headers mem now ''401 Unauthorized'' (Some ''text/plain'') True
                               (length body) (Some body) (length body) ka False (Some e2) tx g of
                          (None, (tx1, g1), es) \<Rightarrow> (- 1, (tx1, g1), es)
                        | (Some buf, (tx1, g1), es) \<Rightarrow>
                            (let (_, tx2, _) = tx_begin_headers RK_401 (Some buf) (length buf) ka False tx1
                             in (1, (tx2, g1), es))))))"

definition auth_basic_check ::
    "(string \<Rightarrow> string \<Rightarrow> string option) \<Rightarrow> nat option \<Rightarrow> nat option \<Rightarrow> vhost_t option \<Rightarrow> http1_state \<Rightarrow>
     tx_state_t \<Rightarrow> date_cache \<Rightarrow> int \<times> (tx_state_t \<times> date_cache) \<times> eff list" where
  "auth_basic_check crypt mem now vhost h tx g =
     (case vhost of
        None \<Rightarrow> (0, (tx, g), [])
      | Some vh \<Rightarrow>
          (case vh_auth_store vh of
             None \<Rightarrow> (0, (tx, g), [])
           | Some store \<Rightarrow>
               (case basic_credentials (req_hdrs h) of
                  None \<Rightarrow> auth_deny mem now vh h tx g
                | Some cred \<Rightarrow>
                    (if auth_accepts crypt store cred then (0, (tx, g), [])
                     else auth_deny mem now vh h tx g))))"

section \<open>The decoder inverts the encoder\<close>

definition b64_char :: "nat \<Rightarrow> char" where
  "b64_char n =
     (if n < 26 then char_of (65 + n) else if n < 52 then char_of (97 + (n - 26))
      else if n < 62 then char_of (48 + (n - 52)) else if n = 62 then CHR ''+'' else CHR ''/'')"

fun b64_groups :: "string \<Rightarrow> nat list \<times> nat" where
  "b64_groups [] = ([], 0)"
| "b64_groups [x] = ([byte x div 4, byte x mod 4 * 16], 2)"
| "b64_groups [x, y] = ([byte x div 4, byte x mod 4 * 16 + byte y div 16, byte y mod 16 * 4], 1)"
| "b64_groups (x # y # z # s) =
     (let (vs, pad) = b64_groups s
      in ([byte x div 4, byte x mod 4 * 16 + byte y div 16, byte y mod 16 * 4 + byte z div 64,
           byte z mod 64] @ vs, pad))"

text \<open>RFC 4648 encoding, with the padding that the standard asks for or without.\<close>

definition b64_encode :: "bool \<Rightarrow> string \<Rightarrow> string" where
  "b64_encode padded s =
     (let (vs, pad) = b64_groups s
      in map b64_char vs @ (if padded then replicate pad (CHR ''='') else []))"

lemma b64_char_val_char:
  assumes "n < 64"
  shows "b64_char_val (b64_char n) = int n"
proof -
  consider "n < 26" | "26 \<le> n" "n < 52" | "52 \<le> n" "n < 62" | "n = 62" | "n = 63"
    using assms by linarith
  then show ?thesis
    by cases (simp_all add: b64_char_def b64_char_val_def Let_def)
qed

lemma push_bit_or:
  assumes "r < 2 ^ k"
  shows "push_bit k (int m) OR int r = int (m * 2 ^ k + r)"
proof -
  have "\<not> bit (int r) n" if "k \<le> n" for n
  proof -
    have "r < 2 ^ n" using assms that by (meson less_le_trans one_le_numeral power_increasing)
    then show ?thesis by (simp add: bit_iff_odd flip: of_nat_power of_nat_div)
  qed
  then have "push_bit k (int m) + int r = push_bit k (int m) OR int r"
    by (intro disjunctive_add) (auto simp: bit_simps not_le)
  then show ?thesis by (simp add: push_bit_eq_mult)
qed

lemma b64_byte_eq: "b64_byte (int n) = char_of (n mod 256)"
proof -
  have "int n AND 0xff = int (n mod 256)"
    using take_bit_eq_mask [of 8 "int n"] by (simp add: mask_eq_exp_minus_1 take_bit_eq_mod zmod_int)
  then show ?thesis by (simp add: b64_byte_def)
qed

lemma b64_byte_or:
  "r < 2 ^ k \<Longrightarrow> b64_byte (push_bit k (int m) OR int r) = char_of ((m * 2 ^ k + r) mod 256)"
  by (simp only: push_bit_or b64_byte_eq)

lemma mod_mult_split: "r < m \<Longrightarrow> (b * m + r) mod (m * n) = (b mod n) * m + (r :: nat)"
  by (simp add: mod_mult2_eq div_mult_self3)

lemma b64_bytes:
  assumes "a < 64" "b < 64" "c < 64" "d < 64"
  shows "b64_byte (push_bit 2 (int a) OR drop_bit 4 (int b)) = char_of (a * 4 + b div 16)"
    "b64_byte (push_bit 4 (int b) OR drop_bit 2 (int c)) = char_of ((b mod 16) * 16 + c div 4)"
    "b64_byte (push_bit 6 (int c) OR int d) = char_of ((c mod 4) * 64 + d)"
proof -
  have "drop_bit 4 (int b) = int (b div 16)" "drop_bit 2 (int c) = int (c div 4)"
    by (simp_all add: drop_bit_eq_div zdiv_int)
  moreover have "b div 16 < 2 ^ 2" "c div 4 < 2 ^ 4" "d < 2 ^ 6" using assms by auto
  moreover have "(a * 4 + b div 16) mod 256 = a * 4 + b div 16"
    "(b * 16 + c div 4) mod 256 = (b mod 16) * 16 + c div 4" "(c * 64 + d) mod 256 = (c mod 4) * 64 + d"
    using assms mod_mult_split [of "c div 4" 16 b 16] mod_mult_split [of d 64 c 4] by simp_all
  ultimately show "b64_byte (push_bit 2 (int a) OR drop_bit 4 (int b)) = char_of (a * 4 + b div 16)"
    "b64_byte (push_bit 4 (int b) OR drop_bit 2 (int c)) = char_of ((b mod 16) * 16 + c div 4)"
    "b64_byte (push_bit 6 (int c) OR int d) = char_of ((c mod 4) * 64 + d)"
    by (simp_all add: b64_byte_or)
qed

lemmas b64_unfold = b64_loop.simps(2) b64_next_def b64_end_def Let_def

lemma b64_char_val_pad: "b64_char_val (CHR ''='') = - 2"
  by (simp add: b64_char_val_def)

lemma b64_group1:
  assumes "a < 64" "b < 64" "length out < cap" "p = [] \<or> p = ''==''"
  shows "b64_loop cap (b64_char a # b64_char b # p) out = Some (out @ [char_of (a * 4 + b div 16)])"
  using assms b64_bytes(1) [of a b 0 0]
  by (auto simp: b64_unfold b64_char_val_char b64_char_val_pad)

lemma b64_group2:
  assumes "a < 64" "b < 64" "c < 64" "length out + 1 < cap" "p = [] \<or> p = ''=''"
  shows "b64_loop cap (b64_char a # b64_char b # b64_char c # p) out =
    Some (out @ [char_of (a * 4 + b div 16), char_of ((b mod 16) * 16 + c div 4)])"
  using assms b64_bytes(1,2) [of a b c 0]
  by (auto simp: b64_unfold b64_char_val_char b64_char_val_pad)

lemma b64_group3:
  assumes "a < 64" "b < 64" "c < 64" "d < 64" "length out + 2 < cap"
  shows "b64_loop cap (b64_char a # b64_char b # b64_char c # b64_char d # s) out =
    b64_loop cap s (out @ [char_of (a * 4 + b div 16), char_of ((b mod 16) * 16 + c div 4),
      char_of ((c mod 4) * 64 + d)])"
  using assms b64_bytes [of a b c d]
  by (simp add: b64_unfold b64_char_val_char)

lemma b64_split:
  fixes x y :: nat
  assumes "x < 256" "y < 256"
  shows "x div 4 < 64" "x mod 4 * 16 + y div 16 < 64" "y mod 16 * 4 + x div 64 < 64" "x mod 64 < 64"
    "x div 4 * 4 + (x mod 4 * 16 + y div 16) div 16 = x"
    "(y mod 16 * 4 + x div 64) mod 4 * 64 + x mod 64 = x"
proof -
  have d: "x div 64 < 4" "y div 16 < 16" using assms by auto
  show "x div 4 < 64" "x mod 4 * 16 + y div 16 < 64" "y mod 16 * 4 + x div 64 < 64" "x mod 64 < 64"
    using assms by auto
  show "x div 4 * 4 + (x mod 4 * 16 + y div 16) div 16 = x"
    using d by (simp add: div_mult_self3)
  show "(y mod 16 * 4 + x div 64) mod 4 * 64 + x mod 64 = x"
    using d by simp
qed

lemma b64_split_second:
  assumes "y < 256" "z < 4"
  shows "(x mod 4 * 16 + y div 16) mod 16 * 16 + (y mod 16 * 4 + z) div 4 = (y :: nat)"
proof -
  have "y div 16 < 16" using assms by auto
  then show ?thesis using assms(2) by (simp add: div_mult_self3)
qed

lemma b64_loop_encode:
  "length out + length s \<le> cap \<Longrightarrow> b64_loop cap (b64_encode padded s) out = Some (out @ s)"
proof (induction s arbitrary: out rule: b64_groups.induct)
  case 1
  then show ?case by (simp add: b64_encode_def b64_loop.simps(1))
next
  case (2 x)
  then show ?case
    using b64_group1 [of "byte x div 4" "byte x mod 4 * 16" out cap "if padded then ''=='' else []"]
      b64_split [of "byte x" 0] byte_less_256 [of x]
    by (cases padded) (simp_all add: b64_encode_def numeral_2_eq_2)
next
  case (3 x y)
  then show ?case
    using b64_group2 [of "byte x div 4" "byte x mod 4 * 16 + byte y div 16" "byte y mod 16 * 4" out cap
        "if padded then ''='' else []"]
      b64_split [of "byte x" "byte y"] b64_split(3) [of 0 "byte y"]
      b64_split_second [of "byte y" 0 "byte x"] byte_less_256 [of x] byte_less_256 [of y]
    by (cases padded) (simp_all add: b64_encode_def)
next
  case (4 x y z s)
  obtain vs pad where g: "b64_groups s = (vs, pad)" by fastforce
  have enc: "b64_encode padded (x # y # z # s) =
    map b64_char [byte x div 4, byte x mod 4 * 16 + byte y div 16, byte y mod 16 * 4 + byte z div 64,
      byte z mod 64] @ b64_encode padded s"
    by (simp add: b64_encode_def g)
  have "byte z div 64 < 4" using less_mult_imp_div_less [of "byte z" 4 64] byte_less_256 [of z] by simp
  then show ?case
    using 4 b64_split [of "byte x" "byte y"] b64_split [of "byte z" "byte y"]
      b64_split_second [of "byte y" "byte z div 64" "byte x"]
      byte_less_256 [of x] byte_less_256 [of y] byte_less_256 [of z]
      b64_group3 [of "byte x div 4" "byte x mod 4 * 16 + byte y div 16" "byte y mod 16 * 4 + byte z div 64"
        "byte z mod 64" out cap "b64_encode padded s"]
    by (simp add: enc)
qed

lemma base64_decode_encode:
  assumes "length s \<le> cap"
  shows "auth_base64_decode (b64_encode padded s) cap = Some s"
  using b64_loop_encode [of "[]" s cap padded] assms by (simp add: auth_base64_decode_def)

lemma b64_encode_chars:
  assumes "s \<noteq> []"
  shows "b64_encode padded s \<noteq> []" "hd (b64_encode padded s) \<noteq> CHR '' ''"
proof -
  obtain x t where "s = x # t" using assms by (cases s) auto
  then have "\<exists>vs pad. b64_groups s = (byte x div 4 # vs, pad)"
    by (cases s rule: b64_groups.cases) (auto split: prod.splits)
  then obtain vs pad where g: "b64_groups s = (byte x div 4 # vs, pad)" by blast
  have "byte x div 4 < 64" using less_mult_imp_div_less [of "byte x" 64 4] byte_less_256 [of x] by simp
  then have "b64_char_val (b64_char (byte x div 4)) \<ge> 0" by (simp add: b64_char_val_char)
  then have "b64_char (byte x div 4) \<noteq> CHR '' ''" by (auto simp: b64_char_val_def)
  then show "b64_encode padded s \<noteq> []" "hd (b64_encode padded s) \<noteq> CHR '' ''"
    by (simp_all add: b64_encode_def g)
qed

section \<open>Comparison and lookup\<close>

lemma fold_or_zero:
  fixes d :: "'a :: len word"
  shows "fold (\<lambda>i diff. diff OR f i) is d = 0 \<longleftrightarrow> d = 0 \<and> (\<forall>i\<in>set is. f i = 0)"
  by (induction "is" arbitrary: d) (auto simp: or_eq_0_iff)

lemma char_at_xor_zero: "(of_nat (char_at a i XOR char_at b j) :: u32) = 0 \<longleftrightarrow> char_at a i = char_at b j"
proof -
  have "char_at s n < 2 ^ 8" for s n using byte_less_256 by (simp add: char_at_def)
  then have "take_bit 8 (char_at a i XOR char_at b j) = char_at a i XOR char_at b j"
    by (simp add: take_bit_xor take_bit_nat_eq_self)
  then have "char_at a i XOR char_at b j < 2 ^ 8" by (metis take_bit_nat_less_exp)
  then have "(of_nat (char_at a i XOR char_at b j) :: u32) = 0 \<longleftrightarrow> char_at a i XOR char_at b j = 0"
    by (auto simp: word_of_nat_eq_0_iff dest: dvd_imp_le)
  also have "\<dots> \<longleftrightarrow> char_at a i = char_at b j"
    by (auto simp: bit_eq_iff bit_xor_iff)
  finally show ?thesis .
qed

lemma auth_ct_strcmp_correct:
  assumes "NUL \<notin> set a" "NUL \<notin> set b"
  shows "auth_ct_strcmp a b = 0 \<longleftrightarrow> a = b"
proof
  assume eq: "auth_ct_strcmp a b = 0"
  let ?n = "max (length a) (length b)"
  have all: "\<forall>i<?n. char_at a i = char_at b i"
    using eq by (simp add: auth_ct_strcmp_def fold_or_zero char_at_xor_zero)
  have nz: "char_at s i \<noteq> 0" if "NUL \<notin> set s" "i < length s" for s i
  proof -
    have "s ! i \<noteq> NUL" using that nth_mem by metis
    moreover have "byte NUL = 0" by simp
    ultimately have "byte (s ! i) \<noteq> 0" by (metis byte_inj)
    then show ?thesis using that(2) by (simp add: char_at_def)
  qed
  have len: "length a = length b"
  proof (rule ccontr)
    assume ne: "length a \<noteq> length b"
    then have "length a < length b \<or> length b < length a" by linarith
    then show False
      using all nz [OF assms(1), of "length b"] nz [OF assms(2), of "length a"]
      by (auto simp: char_at_def max_def split: if_splits)
  qed
  show "a = b"
    using all len by (auto intro!: nth_equalityI simp: char_at_def of_char_eq_iff)
next
  assume "a = b"
  then show "auth_ct_strcmp a b = 0"
    unfolding auth_ct_strcmp_def fold_or_zero char_at_xor_zero by simp
qed

lemma fold_candidate:
  "fold (candidate_step user) store (found, h0) =
     (if found then (True, h0) else case map_of store user of None \<Rightarrow> (False, h0) | Some h \<Rightarrow> (True, h))"
  by (induction store arbitrary: found h0) (auto simp: candidate_step_def split: option.splits)

text \<open>What it means that a password matches a stored hash.\<close>

definition password_matches :: "(string \<Rightarrow> string \<Rightarrow> string option) \<Rightarrow> string \<Rightarrow> string \<Rightarrow> bool" where
  "password_matches crypt pw hash \<longleftrightarrow> crypt pw hash = Some hash \<and> (hash = [] \<or> hd hash \<noteq> CHR ''*'')"

lemma auth_accepts_iff:
  assumes "\<forall>pw s r. crypt pw s = Some r \<longrightarrow> NUL \<notin> set r" "\<forall>e\<in>set store. NUL \<notin> set (snd e)"
  shows "auth_accepts crypt store (user, pw) \<longleftrightarrow>
    (\<exists>hash. map_of store user = Some hash \<and> password_matches crypt pw hash)"
proof -
  have "auth_verify_password crypt pw hash \<longleftrightarrow> password_matches crypt pw hash" if "map_of store user = Some hash" for hash
  proof -
    have "NUL \<notin> set hash" using assms(2) map_of_SomeD [OF that] by fastforce
    then show ?thesis
      using assms(1) auth_ct_strcmp_correct [of "the (crypt pw hash)" hash]
      by (cases "crypt pw hash") (auto simp: auth_verify_password_def password_matches_def)
  qed
  then show ?thesis
    by (auto simp: auth_accepts_def fold_candidate Let_def split: option.splits)
qed

section \<open>Credential files\<close>

definition valid_user :: "string \<Rightarrow> bool" where
  "valid_user u \<longleftrightarrow> u \<noteq> [] \<and> length u \<le> AUTH_USER_MAX \<and> hd u \<noteq> CHR ''#'' \<and> CHR '':'' \<notin> set u"

definition valid_hash :: "(string \<Rightarrow> string \<Rightarrow> string option) \<Rightarrow> string \<Rightarrow> bool" where
  "valid_hash crypt h \<longleftrightarrow> h \<noteq> [] \<and> length h \<le> AUTH_HASH_MAX \<and> auth_probe_hash crypt h"

definition valid_entry :: "(string \<Rightarrow> string \<Rightarrow> string option) \<Rightarrow> string \<times> string \<Rightarrow> bool" where
  "valid_entry crypt e \<longleftrightarrow> valid_user (fst e) \<and> valid_hash crypt (snd e) \<and>
     set (fst e @ snd e) \<inter> {NUL, LF} = {}"

lemma auth_line_entry_iff:
  "auth_line_entry crypt line = Some (u, h) \<longleftrightarrow> line = u @ CHR '':'' # h \<and> valid_user u \<and> valid_hash crypt h"
proof
  assume a: "auth_line_entry crypt line = Some (u, h)"
  then have u: "u = takeWhile (\<lambda>c. c \<noteq> CHR '':'') line" "h = drop (length u + 1) line"
    and side: "line \<noteq> []" "hd line \<noteq> CHR ''#''" "CHR '':'' \<in> set line" "u \<noteq> []" "length u \<le> AUTH_USER_MAX"
      "valid_hash crypt h"
    by (auto simp: auth_line_entry_def valid_hash_def Let_def split: if_splits)
  define r where "r = dropWhile (\<lambda>c. c \<noteq> CHR '':'') line"
  have line: "line = u @ r" by (simp add: u(1) r_def)
  have "r \<noteq> []" using side(3) by (auto simp: r_def dropWhile_eq_Nil_conv)
  moreover from this have "hd r = CHR '':''" using hd_dropWhile [of "\<lambda>c. c \<noteq> CHR '':''" line] by (simp add: r_def)
  ultimately have "r = CHR '':'' # h" using u(2) line by (cases r) auto
  moreover have "CHR '':'' \<notin> set u" by (auto simp: u(1) dest: set_takeWhileD)
  ultimately show "line = u @ CHR '':'' # h \<and> valid_user u \<and> valid_hash crypt h"
    using line side by (auto simp: valid_user_def)
next
  assume a: "line = u @ CHR '':'' # h \<and> valid_user u \<and> valid_hash crypt h"
  then have "takeWhile (\<lambda>c. c \<noteq> CHR '':'') (u @ CHR '':'' # h) = u"
    by (simp add: takeWhile_until valid_user_def)
  then show "auth_line_entry crypt line = Some (u, h)"
    using a by (auto simp: auth_line_entry_def valid_user_def valid_hash_def Let_def)
qed

lemma fgets_form:
  assumes "(raw, rest) = fgets n s"
  obtains p where "LF \<notin> set p" "raw = p \<or> raw = p @ [LF]"
proof -
  define p where "p = takeWhile (\<lambda>c. c \<noteq> LF) s"
  define q where "q = dropWhile (\<lambda>c. c \<noteq> LF) s"
  have s: "s = p @ q" by (simp add: p_def q_def)
  have p: "LF \<notin> set p" by (auto simp: p_def dest: set_takeWhileD)
  have q: "q = [] \<or> hd q = LF" using hd_dropWhile [of "\<lambda>c. c \<noteq> LF" s] by (auto simp: q_def)
  have raw: "raw = take (min (n - 1) (length p + 1)) s" using assms by (simp add: fgets_def Let_def p_def)
  show thesis
  proof (cases "n - 1 \<le> length p")
    case True
    then show thesis using that [of "take (n - 1) p"] p by (auto simp: raw s dest: in_set_takeD)
  next
    case False
    then have "min (n - 1) (length p + 1) = length p + 1" by simp
    then have "raw = p @ take 1 q" unfolding raw s by (simp del: One_nat_def)
    then show thesis using that [of p] p q by (cases q) auto
  qed
qed

lemma set_strip_eol: "set (strip_eol s) \<subseteq> set s"
  by (auto simp: strip_eol_def dest: set_dropWhileD)

lemma line_chars:
  assumes "(raw, rest) = fgets n s"
  shows "set (strip_eol (c_string raw)) \<inter> {NUL, LF} = {}"
proof -
  obtain p where p: "LF \<notin> set p" "raw = p \<or> raw = p @ [LF]" using fgets_form [OF assms] .
  have "NUL \<notin> set (c_string raw)" by (auto simp: c_string_def dest: set_takeWhileD)
  moreover have "LF \<notin> set (strip_eol (c_string raw))"
  proof (cases "NUL \<in> set p")
    case True
    then have "c_string raw = c_string p" using p(2) by (auto simp: c_string_def takeWhile_append1)
    then show ?thesis using p(1) set_strip_eol [of "c_string p"] by (auto simp: c_string_def dest: set_takeWhileD)
  next
    case False
    then have "c_string raw = raw" using p(2) by (auto simp: c_string_def takeWhile_eq_all_conv)
    moreover have "strip_eol (p @ [LF]) = strip_eol p" by (simp add: strip_eol_def)
    ultimately show ?thesis using p set_strip_eol [of p] by auto
  qed
  ultimately show ?thesis using set_strip_eol [of "c_string raw"] by auto
qed

lemma auth_line_valid:
  assumes "(raw, rest) = fgets n s" "auth_line_entry crypt (strip_eol (c_string raw)) = Some e"
  shows "valid_entry crypt e"
  using assms(2) line_chars [OF assms(1)] auth_line_entry_iff [of crypt _ "fst e" "snd e"]
  by (auto simp: valid_entry_def)

lemma auth_load_loop_sound:
  assumes "auth_load_loop crypt reallocs cap store s = Some store'"
    "\<forall>e\<in>set store. valid_entry crypt e" "length store \<le> AUTH_MAX_USERS"
  shows "(\<forall>e\<in>set store'. valid_entry crypt e) \<and> length store' \<le> AUTH_MAX_USERS"
  using assms
proof (induction crypt reallocs cap store s rule: auth_load_loop.induct)
  case (1 crypt reallocs cap store s)
  obtain raw rest where f: "fgets AUTH_LINE_SIZE s = (raw, rest)" by fastforce
  let ?line = "strip_eol (c_string raw)"
  show ?case
  proof (cases "s = [] \<or> length ?line = AUTH_LINE_SIZE - 1 \<or> auth_line_entry crypt ?line = None")
    case True
    then show ?thesis
      using 1 f by (auto simp: auth_load_loop.simps [of crypt reallocs cap store s] Let_def split: if_splits)
  next
    case False
    then obtain e where e: "auth_line_entry crypt ?line = Some e" by blast
    then have "valid_entry crypt e" using auth_line_valid [OF f [symmetric]] by blast
    moreover have step: "auth_load_loop crypt reallocs cap store s =
      (if length store \<ge> AUTH_MAX_USERS then Some store
       else if length store = cap then
         (if reallocs \<noteq> [] \<and> hd reallocs
          then auth_load_loop crypt (tl reallocs) (auth_new_cap cap) (store @ [e]) rest else None)
       else auth_load_loop crypt reallocs cap (store @ [e]) rest)"
      using False e f by (subst auth_load_loop.simps) simp
    ultimately show ?thesis
      using "1.prems" "1.IH"(3,4) [OF _ f [symmetric] refl refl] False e
      by (simp split: if_splits)
  qed
qed

definition print_entry :: "string \<times> string \<Rightarrow> string" where
  "print_entry e = fst e @ '':'' @ snd e @ [LF]"

definition writable_entry :: "(string \<Rightarrow> string \<Rightarrow> string option) \<Rightarrow> string \<times> string \<Rightarrow> bool" where
  "writable_entry crypt e \<longleftrightarrow> valid_entry crypt e \<and> last (snd e) \<noteq> CR"

lemma fgets_printed:
  assumes "writable_entry crypt e"
  shows "fgets AUTH_LINE_SIZE (print_entry e @ s) = (print_entry e, s)"
    "strip_eol (c_string (print_entry e)) = fst e @ '':'' @ snd e"
    "length (fst e @ '':'' @ snd e) \<noteq> AUTH_LINE_SIZE - 1"
    "auth_line_entry crypt (fst e @ '':'' @ snd e) = Some e"
proof -
  let ?l = "fst e @ '':'' @ snd e"
  have v: "valid_user (fst e)" "valid_hash crypt (snd e)" "NUL \<notin> set ?l" "LF \<notin> set ?l" "last (snd e) \<noteq> CR"
    using assms by (auto simp: writable_entry_def valid_entry_def)
  have len: "length ?l < AUTH_LINE_SIZE - 1" "snd e \<noteq> []"
    using v(1,2) by (auto simp: valid_user_def valid_hash_def AUTH_LINE_SIZE_def)
  have p: "print_entry e = ?l @ [LF]" by (simp add: print_entry_def)
  have "takeWhile (\<lambda>c. c \<noteq> LF) ((?l @ [LF]) @ s) = ?l"
    using v(4) takeWhile_until [of LF ?l s] by simp
  moreover have "min (AUTH_LINE_SIZE - 1) (length ?l + 1) = length (?l @ [LF])" using len(1) by simp
  ultimately show "fgets AUTH_LINE_SIZE (print_entry e @ s) = (print_entry e, s)"
    unfolding fgets_def Let_def p by (simp only: take_append drop_append) simp
  have "c_string (?l @ [LF]) = ?l @ [LF]" using v(3) by (auto simp: c_string_def takeWhile_eq_all_conv)
  moreover have "last (snd e) \<noteq> LF" using v(4) len(2) by (auto dest: last_in_set)
  ultimately show "strip_eol (c_string (print_entry e)) = ?l"
    using v(5) len(2) by (cases "snd e" rule: rev_exhaust) (auto simp: p strip_eol_def)
  show "length ?l \<noteq> AUTH_LINE_SIZE - 1" using len by simp
  show "auth_line_entry crypt ?l = Some e"
    using auth_line_entry_iff [of crypt ?l "fst e" "snd e"] v(1,2) by simp
qed

lemma auth_load_loop_printed:
  assumes "\<forall>e\<in>set es. writable_entry crypt e" "length store + length es \<le> AUTH_MAX_USERS"
    "length es \<le> length reallocs" "False \<notin> set reallocs"
  shows "auth_load_loop crypt reallocs cap store (concat (map print_entry es)) = Some (store @ es)"
  using assms
proof (induction es arbitrary: store reallocs cap)
  case Nil
  then show ?case by (simp add: auth_load_loop.simps)
next
  case (Cons e es)
  let ?s = "concat (map print_entry es)"
  have ne: "print_entry e @ ?s \<noteq> []" by (simp add: print_entry_def)
  have w: "writable_entry crypt e" using Cons.prems(1) by simp
  have re: "reallocs \<noteq> []" "hd reallocs" "False \<notin> set (tl reallocs)" "length es \<le> length (tl reallocs)"
    using Cons.prems(3,4) by (cases reallocs; simp)+
  show ?case
    using Cons.IH [of "store @ [e]" "tl reallocs" "auth_new_cap cap"] Cons.IH [of "store @ [e]" reallocs cap]
      Cons.prems re ne fgets_printed [OF w]
    by (simp add: auth_load_loop.simps [of _ _ _ _ "print_entry e @ ?s"])
qed

text \<open>
  C32: a credential file gives the store it was printed from. Loading the lines \<open>user:hash\<close> of any
  non-empty list of at most 256 well-formed entries yields exactly these entries in order; and
  whatever the file, a store that is loaded holds between 1 and 256 entries, each with a
  non-empty user of at most 64 bytes without a colon and a hash the host supports.
\<close>

theorem auth_store_load_print:
  "(es \<noteq> [] \<and> (\<forall>e\<in>set es. writable_entry crypt e) \<and> length es \<le> 256 \<and> length es \<le> length reallocs \<and>
      False \<notin> set reallocs \<and> path \<noteq> [] \<longrightarrow>
      auth_store_load crypt (Some path) (Some (concat (map print_entry es))) True reallocs False = Some es) \<and>
   (auth_store_load crypt p file calloc_ok reallocs' io_error = Some store \<longrightarrow>
      store \<noteq> [] \<and> length store \<le> 256 \<and> (\<forall>e\<in>set store. valid_entry crypt e))"
proof (intro conjI impI)
  assume a: "es \<noteq> [] \<and> (\<forall>e\<in>set es. writable_entry crypt e) \<and> length es \<le> 256 \<and> length es \<le> length reallocs \<and>
      False \<notin> set reallocs \<and> path \<noteq> []"
  then have "auth_load_loop crypt reallocs 0 [] (concat (map print_entry es)) = Some ([] @ es)"
    by (intro auth_load_loop_printed) (simp_all add: AUTH_MAX_USERS_def)
  with a show "auth_store_load crypt (Some path) (Some (concat (map print_entry es))) True reallocs False = Some es"
    by (simp add: auth_store_load_def)
next
  assume "auth_store_load crypt p file calloc_ok reallocs' io_error = Some store"
  then obtain s where l: "auth_load_loop crypt reallocs' 0 [] s = Some store" and ne: "store \<noteq> []"
    by (auto simp: auth_store_load_def split: if_splits option.splits)
  show "store \<noteq> []" by (rule ne)
  show "length store \<le> 256" "\<forall>e\<in>set store. valid_entry crypt e"
    using auth_load_loop_sound [OF l] by (simp_all add: AUTH_MAX_USERS_def)
qed

definition sample_crypt :: "string \<Rightarrow> string \<Rightarrow> string option" where
  "sample_crypt pw setting = (if take 1 setting = ''$'' then Some (CHR ''$'' # filter (\<lambda>c. c \<noteq> NUL) pw) else None)"

theorem auth_store_load_print_witness:
  "auth_store_load sample_crypt (Some ''users'') (Some (''bob:$pw'' @ [LF] @ ''eve:$x'' @ [LF])) True
     [True, True] False = Some [(''bob'', ''$pw''), (''eve'', ''$x'')] \<and>
   valid_entry sample_crypt (''bob'', ''$pw'') \<and> valid_entry sample_crypt (''eve'', ''$x'')"
proof -
  let ?es = "[(''bob'', ''$pw''), (''eve'', ''$x'')]"
  have "\<forall>e\<in>set ?es. writable_entry sample_crypt e"
    by (simp add: writable_entry_def valid_entry_def valid_user_def valid_hash_def auth_probe_hash_def
        sample_crypt_def AUTH_USER_MAX_def AUTH_HASH_MAX_def)
  then have l: "auth_store_load sample_crypt (Some ''users'') (Some (concat (map print_entry ?es))) True [True, True]
    False = Some ?es"
    using auth_store_load_print [of ?es sample_crypt "[True, True]" "''users''" None None False "[]" False "[]"]
    by simp
  then have "\<forall>e\<in>set ?es. valid_entry sample_crypt e"
    using auth_store_load_print [of "[]" sample_crypt "[]" "[]" "Some ''users''" "Some (concat (map print_entry ?es))"
        True "[True, True]" False ?es] by blast
  with l show ?thesis by (simp add: print_entry_def)
qed

section \<open>The check\<close>

text \<open>
  C31: the credentials read from a request are those the client sent. A captured, untruncated
  \<open>Authorization\<close> header that consists of the scheme \<open>Basic\<close> in any case, at least one space and
  the Base64 encoding of \<open>user:password\<close> gives exactly this user and this password, also when the
  password contains colons.
\<close>

theorem basic_credentials_encoded:
  assumes hdr: "find (\<lambda>e. e_id e = HDR_ID_AUTHORIZATION) hdrs = Some e" "\<not> e_truncated e"
    and val: "e_value e = scheme @ replicate (Suc n) (CHR '' '') @ b64_encode padded (user @ '':'' @ pw)"
      "lower scheme = ''basic''"
    and cred: "CHR '':'' \<notin> set user" "NUL \<notin> set user \<union> set pw" "length user + length pw + 1 \<le> 95"
  shows "basic_credentials hdrs = Some (user, pw)"
proof -
  let ?tok = "b64_encode padded (user @ '':'' @ pw)"
  have len: "length scheme = 5" using arg_cong [OF val(2), of length] by simp
  have tok: "?tok \<noteq> []" "hd ?tok \<noteq> CHR '' ''" by (simp_all add: b64_encode_chars)
  have "dropWhile (\<lambda>c. c = CHR '' '') (replicate (Suc n) (CHR '' '') @ ?tok) = ?tok"
    using tok by (subst dropWhile_append2) (auto simp: dropWhile_eq_self_iff)
  moreover have "drop 5 (e_value e) = replicate (Suc n) (CHR '' '') @ ?tok" "take 5 (e_value e) = scheme"
    "e_value e ! 5 = CHR '' ''" "length (e_value e) \<ge> 6"
    using len by (simp_all add: val(1) nth_append)
  moreover have "strcasecmp_eq scheme ''Basic''"
    using val(2) by (simp add: strcasecmp_eq_def lower_ascii_def char_of_def bit_0)
  moreover have "auth_base64_decode ?tok 95 = Some (user @ '':'' @ pw)"
    using cred(3) by (intro base64_decode_encode) simp
  moreover have "takeWhile (\<lambda>c. c \<noteq> CHR '':'') (user @ '':'' @ pw) = user"
    using cred(1) takeWhile_until [of "CHR '':''" user pw] by simp
  ultimately show ?thesis
    using hdr tok cred(2) by (simp add: basic_credentials_def Let_def)
qed

definition sample_auth :: "string \<Rightarrow> req_hdr_entry" where
  "sample_auth v = \<lparr>e_name = ''authorization'', e_id = HDR_ID_AUTHORIZATION, e_truncated = False, e_value = v\<rparr>"

theorem basic_credentials_encoded_witness:
  "basic_credentials [sample_auth ''bAsic dXNlcjpwdw==''] = Some (''user'', ''pw'')"
proof -
  have e: "b64_encode True ''user:pw'' = ''dXNlcjpwdw==''"
    by (simp add: b64_encode_def b64_char_def char_of_def bit_0) (simp add: numeral_2_eq_2)
  show ?thesis
    by (rule basic_credentials_encoded [where e = "sample_auth ''bAsic dXNlcjpwdw==''" and scheme = "''bAsic''"
          and n = 0 and padded = True])
      (simp_all add: sample_auth_def lower_ascii_def char_of_def bit_0 e)
qed

lemma auth_deny_result:
  assumes "auth_deny mem now vh h tx g = (r, (tx', g'), es)"
  shows "r = - 1 \<or> r = 1 \<and> tx_resp_kind tx' = RK_401 \<and>
    (\<exists>rest. write_buf tx' = Some (''HTTP/1.1 401 Unauthorized'' @ CRLF @ rest))"
  using assms
  by (auto simp: auth_deny_def tx_build_headers_def tx_begin_headers_def head_text_def Let_def
      split: option.splits if_splits prod.splits)

text \<open>
  C7: a protected resource is given out exactly for the right password. With a store loaded from
  a credential file the check lets a request through if and only if its header names a user of
  the file whose first entry's hash is what the host's hash function makes of the password sent.
  Otherwise the connection holds a 401 response ready to send, or the check reports that it could
  not build one and the caller answers 500; there is no third way past it.
\<close>

theorem auth_check_exact:
  assumes c: "\<forall>pw s r. crypt pw s = Some r \<longrightarrow> NUL \<notin> set r"
    and l: "auth_store_load crypt path file calloc_ok reallocs io_error = Some store"
    and vh: "vh_auth_store vh = Some store"
    and r: "auth_basic_check crypt mem now (Some vh) h tx g = (r, (tx', g'), es)"
  shows "(r = 0 \<longleftrightarrow> (\<exists>user pw hash. basic_credentials (req_hdrs h) = Some (user, pw) \<and>
      map_of store user = Some hash \<and> password_matches crypt pw hash)) \<and>
    (r \<noteq> 0 \<longrightarrow> r = - 1 \<or> r = 1 \<and> tx_resp_kind tx' = RK_401 \<and>
      (\<exists>rest. write_buf tx' = Some (''HTTP/1.1 401 Unauthorized'' @ CRLF @ rest)))"
proof -
  obtain s where "auth_load_loop crypt reallocs 0 [] s = Some store"
    using l by (auto simp: auth_store_load_def split: if_splits option.splits)
  then have "\<forall>e\<in>set store. NUL \<notin> set (snd e)"
    using auth_load_loop_sound [of crypt reallocs 0 "[]" s store] by (auto simp: valid_entry_def)
  note acc = auth_accepts_iff [OF c this]
  show ?thesis
  proof (cases "\<exists>user pw. basic_credentials (req_hdrs h) = Some (user, pw) \<and> auth_accepts crypt store (user, pw)")
    case True
    then show ?thesis using r vh acc by (auto simp: auth_basic_check_def)
  next
    case False
    then have "auth_deny mem now vh h tx g = (r, (tx', g'), es)"
      using r vh by (auto simp: auth_basic_check_def split: option.splits if_splits)
    with False show ?thesis using auth_deny_result acc by fastforce
  qed
qed

definition sample_auth_vhost :: vhost_t where
  "sample_auth_vhost = (sample_vhost [])\<lparr>vh_auth_store := Some [(''bob'', ''$pw''), (''eve'', ''$x'')]\<rparr>"

theorem auth_check_exact_witness:
  "fst (auth_basic_check sample_crypt None None (Some sample_auth_vhost)
     (h1_zero\<lparr>req_hdrs := [sample_auth ''Basic Ym9iOnB3'']\<rparr>) tx_init date_cache_empty) = 0"
proof -
  let ?store = "[(''bob'', ''$pw''), (''eve'', ''$x'')]"
  let ?h = "h1_zero\<lparr>req_hdrs := [sample_auth ''Basic Ym9iOnB3'']\<rparr>"
  obtain r tx' g' es where r: "auth_basic_check sample_crypt None None (Some sample_auth_vhost) ?h tx_init
    date_cache_empty = (r, (tx', g'), es)"
    by (metis prod.collapse)
  have c: "\<forall>pw s r. sample_crypt pw s = Some r \<longrightarrow> NUL \<notin> set r" by (simp add: sample_crypt_def)
  have "\<forall>e\<in>set ?store. writable_entry sample_crypt e"
    by (simp add: writable_entry_def valid_entry_def valid_user_def valid_hash_def auth_probe_hash_def
        sample_crypt_def AUTH_USER_MAX_def AUTH_HASH_MAX_def)
  then have "auth_load_loop sample_crypt [True, True] 0 [] (concat (map print_entry ?store)) = Some ([] @ ?store)"
    by (intro auth_load_loop_printed) (simp_all add: AUTH_MAX_USERS_def)
  then have l: "auth_store_load sample_crypt (Some ''users'') (Some (concat (map print_entry ?store))) True
    [True, True] False = Some ?store"
    by (simp add: auth_store_load_def)
  have "auth_base64_decode (b64_encode True ''bob:pw'') 95 = Some ''bob:pw''"
    by (rule base64_decode_encode) simp
  moreover have "b64_encode True ''bob:pw'' = ''Ym9iOnB3''"
    by (simp add: b64_encode_def b64_char_def char_of_def bit_0)
  ultimately have "basic_credentials (req_hdrs ?h) = Some (''bob'', ''pw'')"
    by (simp add: basic_credentials_def sample_auth_def strcasecmp_eq_def Let_def)
  moreover have "password_matches sample_crypt ''pw'' ''$pw''"
    by (simp add: password_matches_def sample_crypt_def)
  ultimately have "r = 0"
    using auth_check_exact [OF c l _ r] by (simp add: sample_auth_vhost_def)
  with r show ?thesis by simp
qed

end
