(* ===== verification/Compression.thy ===== *)
theory Compression
  imports Tokens Types "HOL-Library.Sublist"
begin

unbundle bit_operations_syntax

text \<open>
  Content codings, \<^verbatim>\<open>src/src/compression.c\<close>: the reader of \<open>Accept-Encoding\<close>, the list of media
  types that are not compressed, and the wrappers of zlib and Brotli. A pointer into the header
  value is the text from there to its end. The two compressors are vendored libraries and appear
  as parameters.
\<close>

section \<open>Reading \<open>Accept-Encoding\<close>\<close>

definition COMP_ENC_GZIP :: u32 where "COMP_ENC_GZIP = 1"
definition COMP_ENC_BROTLI :: u32 where "COMP_ENC_BROTLI = 2"

definition ae_skip_ws :: "string \<Rightarrow> string" where
  "ae_skip_ws p = dropWhile is_ows p"

definition ae_token_ieq :: "string \<Rightarrow> string \<Rightarrow> bool" where
  "ae_token_ieq tok s \<longleftrightarrow> length tok = length s \<and> map lower_ascii tok = s"

definition ends_param :: "char \<Rightarrow> bool" where
  "ends_param c \<longleftrightarrow> c = CHR '','' \<or> c = CHR '';''"

text \<open>The inner loops \<open>while (p < end && *p != ',' && *p != ';') p++\<close>.\<close>

definition ae_skip_value :: "string \<Rightarrow> string" where
  "ae_skip_value p = dropWhile (\<lambda>c. \<not> ends_param c) p"

fun ae_fraction :: "string \<Rightarrow> bool \<times> string" where
  "ae_fraction [] = (True, [])"
| "ae_fraction (c # cs) =
     (if is_digit c then (if c \<noteq> CHR ''0'' then (False, ae_skip_value (c # cs)) else ae_fraction cs)
      else (True, ae_skip_value (c # cs)))"

definition ae_q_is_zero :: "string \<Rightarrow> bool \<times> string" where
  "ae_q_is_zero p =
     (case ae_skip_ws p of
        [] \<Rightarrow> (False, [])
      | c # cs \<Rightarrow>
          (if c \<noteq> CHR ''0'' then (False, ae_skip_value (c # cs))
           else
             (case cs of
                d # ds \<Rightarrow> if d = CHR ''.'' then ae_fraction ds else (True, ae_skip_value cs)
              | [] \<Rightarrow> (True, []))))"

definition ends_name :: "char \<Rightarrow> bool" where
  "ends_name c \<longleftrightarrow> c = CHR ''='' \<or> ends_param c"

text \<open>Every reader leaves a suffix of its input.\<close>

lemma suffix_ae_skips: "suffix (ae_skip_value p) p" "suffix (ae_skip_ws p) p"
  by (simp_all add: ae_skip_value_def ae_skip_ws_def suffix_dropWhile)

lemma suffix_ae_fraction: "suffix (snd (ae_fraction p)) p"
  by (induction p) (auto intro: suffix_ConsI suffix_ae_skips)

lemma suffix_ae_q_is_zero: "suffix (snd (ae_q_is_zero p)) p"
proof -
  have "suffix (snd (ae_q_is_zero p)) (ae_skip_ws p)"
    by (auto simp: ae_q_is_zero_def intro: suffix_ConsI suffix_ae_skips suffix_ae_fraction split: list.splits)
  then show ?thesis using suffix_ae_skips(2) suffix_order.trans by blast
qed

text \<open>The loop over the parameters of one coding.\<close>

function ae_params :: "string \<Rightarrow> bool \<Rightarrow> bool \<times> string" where
  "ae_params p q_zero =
     (if p = [] \<or> hd p \<noteq> CHR '';'' then (q_zero, p)
      else
        (let p1 = ae_skip_ws (tl p);
             param = takeWhile (\<lambda>c. \<not> ends_name c) p1;
             p2 = dropWhile (\<lambda>c. \<not> ends_name c) p1
         in if p2 \<noteq> [] \<and> hd p2 = CHR ''='' then
              (if param = ''q'' \<or> param = ''Q''
               then (let (z, p3) = ae_q_is_zero (tl p2) in ae_params p3 z)
               else ae_params (ae_skip_value (tl p2)) q_zero)
            else ae_params p2 q_zero))"
  by pat_completeness auto

lemma suffix_param_name:
  assumes "p \<noteq> []"
  shows "suffix (tl (dropWhile P (ae_skip_ws (tl p)))) (tl p)" "suffix (dropWhile P (ae_skip_ws (tl p))) (tl p)"
    "suffix xs (tl p) \<Longrightarrow> length xs < length p"
proof -
  show s: "suffix (dropWhile P (ae_skip_ws (tl p))) (tl p)"
    using suffix_dropWhile suffix_ae_skips(2) suffix_order.trans by blast
  then show "suffix (tl (dropWhile P (ae_skip_ws (tl p)))) (tl p)"
    using suffix_tl suffix_order.trans by blast
  assume "suffix xs (tl p)"
  then show "length xs < length p" using assms suffix_length_le [of xs "tl p"] by (cases p) auto
qed

termination ae_params
proof (relation "measure (\<lambda>(p, z). length p)", goal_cases)
  case (2 p q_zero p1 param p2 r z p3)
  then have "suffix p3 (tl p2)" using suffix_ae_q_is_zero [of "tl p2"] by (metis snd_conv)
  then show ?case using 2 suffix_param_name suffix_order.trans by fastforce
next
  case (3 p q_zero p1 param p2)
  then have "suffix (ae_skip_value (tl p2)) (tl p)"
    using suffix_ae_skips(1) suffix_param_name(1) suffix_order.trans by blast
  then show ?case using 3 suffix_param_name(3) by auto
qed (use suffix_param_name in auto)

declare ae_params.simps [simp del]

record ae_state =
  gzip_explicit :: bool
  brotli_explicit :: bool
  gzip_val :: int
  brotli_val :: int
  wildcard_seen :: bool
  wildcard_val :: int

definition trim_right :: "string \<Rightarrow> string" where
  "trim_right s = rev (dropWhile is_ows (rev s))"

text \<open>The decision recorded for one coding.\<close>

definition ae_record :: "string \<Rightarrow> bool \<Rightarrow> ae_state \<Rightarrow> ae_state" where
  "ae_record tok q_zero st =
     (let v = (if q_zero then - 1 else 1)
      in if ae_token_ieq tok ''gzip'' then st\<lparr>gzip_explicit := True, gzip_val := v\<rparr>
         else if ae_token_ieq tok ''br'' then st\<lparr>brotli_explicit := True, brotli_val := v\<rparr>
         else if tok = ''*'' then st\<lparr>wildcard_seen := True, wildcard_val := v\<rparr>
         else st)"

lemma suffix_ae_params: "suffix (snd (ae_params p z)) (if p \<noteq> [] \<and> hd p = CHR '';'' then tl p else p)"
proof (induction p z rule: ae_params.induct)
  case (1 p z)
  define p2 where "p2 = dropWhile (\<lambda>c. \<not> ends_name c) (ae_skip_ws (tl p))"
  have IHs: "suffix (snd (ae_params xs y)) (tl p)"
    if "suffix (snd (ae_params xs y)) (if xs \<noteq> [] \<and> hd xs = CHR '';'' then tl xs else xs)" "suffix xs (tl p)" for xs y
    using that suffix_tl [of xs] suffix_order.trans by (metis (full_types))
  show ?case
  proof (cases "p = [] \<or> hd p \<noteq> CHR '';''")
    case True
    then show ?thesis by (auto simp: ae_params.simps)
  next
    case False
    have p2: "suffix p2 (tl p)" "suffix (tl p2) (tl p)"
      using False suffix_param_name [of p] unfolding p2_def by blast+
    obtain z' p3 where q: "ae_q_is_zero (tl p2) = (z', p3)" by fastforce
    have r: "suffix p3 (tl p)" "suffix (ae_skip_value (tl p2)) (tl p)"
      using suffix_ae_q_is_zero [of "tl p2"] q suffix_ae_skips(1) [of "tl p2"] p2(2) suffix_order.trans by auto
    note IH = IHs [OF 1(1) [OF False refl refl p2_def _ _ q [symmetric] refl] r(1)]
      IHs [OF 1(2) [OF False refl refl p2_def] r(2)] IHs [OF 1(3) [OF False refl refl p2_def] p2(1)]
    have "ae_params p z =
      (if p2 \<noteq> [] \<and> hd p2 = CHR ''='' then
         (if takeWhile (\<lambda>c. \<not> ends_name c) (ae_skip_ws (tl p)) \<in> {''q'', ''Q''} then ae_params p3 z'
          else ae_params (ae_skip_value (tl p2)) z)
       else ae_params p2 z)"
      using False q by (subst ae_params.simps) (simp add: Let_def del: dropWhile_eq_Nil_conv flip: p2_def)
    then show ?thesis using IH False by auto
  qed
qed

lemma suffix_ae_params_le: "suffix (snd (ae_params p z)) p"
  using suffix_ae_params [of p z] suffix_tl [of p] suffix_order.trans by (metis (full_types))

function ae_loop :: "string \<Rightarrow> ae_state \<Rightarrow> ae_state" where
  "ae_loop p st =
     (if p = [] then st
      else
        (let p1 = ae_skip_ws p
         in if p1 = [] then st
            else
              (let tok = trim_right (takeWhile (\<lambda>c. \<not> ends_param c) p1);
                   (q_zero, p2) = ae_params (dropWhile (\<lambda>c. \<not> ends_param c) p1) False;
                   p3 = ae_skip_ws p2
               in ae_loop (if p3 \<noteq> [] \<and> hd p3 = CHR '','' then tl p3 else p3) (ae_record tok q_zero st))))"
  by pat_completeness auto

lemma ae_loop_shorter:
  assumes "ae_params (dropWhile (\<lambda>c. \<not> ends_param c) p1) False = (z, p2)" "p1 \<noteq> []"
  shows "length (if ae_skip_ws p2 \<noteq> [] \<and> hd (ae_skip_ws p2) = CHR '','' then tl (ae_skip_ws p2) else ae_skip_ws p2)
    < length p1"
proof -
  let ?d = "dropWhile (\<lambda>c. \<not> ends_param c) p1"
  have le: "length p2 \<le> length ?d" "length ?d \<le> length p1" "length (ae_skip_ws p2) \<le> length p2"
    using assms(1) suffix_ae_params_le [of ?d False] suffix_ae_skips(2) [of p2]
    by (auto simp: suffix_length_le length_dropWhile_le)
  consider "\<not> ends_param (hd p1)" | "hd p1 = CHR '','' " | "hd p1 = CHR '';''"
    by (auto simp: ends_param_def)
  then show ?thesis
  proof cases
    case 1
    then have "length ?d < length p1" using assms(2) by (intro length_dropWhile_less)
    then show ?thesis using le by auto
  next
    case 2
    then have "?d = p1" using assms(2) by (cases p1) (auto simp: ends_param_def)
    then have "p2 = p1" using assms(1) 2 by (simp add: ae_params.simps)
    moreover have "ae_skip_ws p1 = p1" using 2 assms(2) by (cases p1) (auto simp: ae_skip_ws_def is_ows_def)
    ultimately show ?thesis using 2 assms(2) by simp
  next
    case 3
    then have d: "?d = p1" using assms(2) by (cases p1) (auto simp: ends_param_def)
    then have "suffix p2 (tl p1)" using suffix_ae_params [of p1 False] assms 3 by simp
    then have "length p2 < length p1" using assms(2) suffix_length_le [of p2 "tl p1"] by (cases p1) auto
    then show ?thesis using le by auto
  qed
qed

termination ae_loop
proof (relation "measure (\<lambda>(p, st). length p)", goal_cases)
  case (2 p st p1 tok x q_zero p2 p3)
  have "length p1 \<le> length p" using 2 by (simp add: suffix_length_le suffix_ae_skips)
  then show ?case using ae_loop_shorter [of p1 q_zero p2] 2 by auto
qed simp

declare ae_loop.simps [simp del]

definition ae_zero :: ae_state where
  "ae_zero = \<lparr>gzip_explicit = False, brotli_explicit = False, gzip_val = 0, brotli_val = 0,
     wildcard_seen = False, wildcard_val = 0\<rparr>"

definition compress_parse_accept_encoding :: "string option \<Rightarrow> u32" where
  "compress_parse_accept_encoding v =
     (case v of
        None \<Rightarrow> 0
      | Some s \<Rightarrow>
          (if s = [] then 0
           else
             (let st = ae_loop s ae_zero;
                  wild = (if wildcard_seen st then wildcard_val st > 0 else False);
                  gzip_accept = (if gzip_explicit st then gzip_val st > 0 else wild);
                  brotli_accept = (if brotli_explicit st then brotli_val st > 0 else wild);
                  r1 = (if gzip_accept then 0 OR COMP_ENC_GZIP else 0)
              in if brotli_accept then r1 OR COMP_ENC_BROTLI else r1)))"

section \<open>Media types and names\<close>

definition mime_skip :: "string list" where
  "mime_skip =
     [''image/jpeg'', ''image/png'', ''image/gif'', ''image/webp'', ''image/avif'', ''image/bmp'', ''image/tiff'',
      ''font/woff'', ''application/zip'', ''application/gzip'', ''application/x-gzip'', ''application/x-bzip2'',
      ''application/x-xz'', ''application/x-rar'', ''application/x-7z'', ''application/octet-stream'',
      ''video/'', ''audio/'']"

definition compress_mime_is_compressible :: "string option \<Rightarrow> bool" where
  "compress_mime_is_compressible mime_type =
     (case mime_type of
        None \<Rightarrow> False
      | Some m \<Rightarrow> \<not> list_ex (\<lambda>s. take (length s) m = s) mime_skip)"

definition compress_enc_ext :: "u32 \<Rightarrow> string option" where
  "compress_enc_ext enc =
     (if enc = COMP_ENC_GZIP then Some ''.gz'' else if enc = COMP_ENC_BROTLI then Some ''.br'' else None)"

definition compress_enc_name :: "u32 \<Rightarrow> string option" where
  "compress_enc_name enc =
     (if enc = COMP_ENC_GZIP then Some ''gzip'' else if enc = COMP_ENC_BROTLI then Some ''br'' else None)"

section \<open>Compressing a buffer\<close>

datatype compress_result = COMPRESS_OK | COMPRESS_EXPANDED | COMPRESS_ERROR

text \<open>
  zlib as the wrapper uses it: does \<open>deflateInit2\<close> succeed at a level, the bound it gives for an
  input length, and what one call of \<open>deflate\<close> with \<open>Z_FINISH\<close> writes into an output buffer of a
  given size (with \<open>True\<close> for \<open>Z_STREAM_END\<close>).
\<close>

record zlib =
  deflate_init :: "int \<Rightarrow> bool"
  deflate_bound :: "nat \<Rightarrow> nat"
  deflate_finish :: "int \<Rightarrow> string \<Rightarrow> nat \<Rightarrow> bool \<times> string"

definition UINT_MAX :: nat where "UINT_MAX = 4294967295"
definition Z_DEFAULT_COMPRESSION :: int where "Z_DEFAULT_COMPRESSION = - 1"

text \<open>The first component of the result is the block returned to the caller, with its contents.\<close>

definition compress_gzip ::
    "zlib \<Rightarrow> nat option \<Rightarrow> string \<Rightarrow> int \<Rightarrow> (nat \<times> string) option \<times> compress_result \<times> eff list" where
  "compress_gzip z mem src level0 =
     (if length src > UINT_MAX then (None, COMPRESS_ERROR, [])
      else
        (let level = (if level0 = 0 then Z_DEFAULT_COMPRESSION else level0)
         in if \<not> deflate_init z level then (None, COMPRESS_ERROR, [])
            else
              (case mem of
                 None \<Rightarrow> (None, COMPRESS_ERROR, [])
               | Some p \<Rightarrow>
                   (let bound = deflate_bound z (length src);
                        avail_out = bound mod (UINT_MAX + 1);
                        (stream_end, out) = deflate_finish z level src avail_out;
                        comp_len = bound - (avail_out - length out)
                    in if \<not> stream_end then (None, COMPRESS_ERROR, [Free p])
                       else if comp_len \<ge> length src then (None, COMPRESS_EXPANDED, [Free p])
                       else (Some (p, take comp_len out), COMPRESS_OK, [])))))"

text \<open>Brotli: the maximal compressed size (0 for an overflow) and the encoder.\<close>

record brotli =
  brotli_max_size :: "nat \<Rightarrow> nat"
  brotli_compress :: "int \<Rightarrow> string \<Rightarrow> nat \<Rightarrow> string option"

definition compress_brotli ::
    "brotli \<Rightarrow> nat option \<Rightarrow> string \<Rightarrow> int \<Rightarrow> (nat \<times> string) option \<times> compress_result \<times> eff list" where
  "compress_brotli b mem src quality0 =
     (let quality = (if quality0 < 0 then 4 else quality0);
          enc_size = brotli_max_size b (length src)
      in if enc_size = 0 then (None, COMPRESS_ERROR, [])
         else
           (case mem of
              None \<Rightarrow> (None, COMPRESS_ERROR, [])
            | Some p \<Rightarrow>
                (case brotli_compress b quality src enc_size of
                   None \<Rightarrow> (None, COMPRESS_ERROR, [Free p])
                 | Some out \<Rightarrow>
                     (if length out \<ge> length src then (None, COMPRESS_EXPANDED, [Free p])
                      else (Some (p, out), COMPRESS_OK, [])))))"

section \<open>What \<open>Accept-Encoding\<close> means\<close>

text \<open>
  The header as RFC 7231 reads it: a list of elements between commas, each a coding and its
  parameters between semicolons, of which \<open>q=0\<close> excludes the coding.
\<close>

definition q_excluded :: "string \<Rightarrow> bool" where
  "q_excluded v =
     (case dropWhile is_ows v of
        [] \<Rightarrow> False
      | c # cs \<Rightarrow>
          c = CHR ''0'' \<and>
          (case cs of [] \<Rightarrow> True | d # ds \<Rightarrow> d = CHR ''.'' \<longrightarrow> (\<forall>x\<in>set (takeWhile is_digit ds). x = CHR ''0'')))"

definition param_excludes :: "string \<Rightarrow> bool \<Rightarrow> bool" where
  "param_excludes p z =
     (let q = dropWhile is_ows p; name = takeWhile (\<lambda>c. c \<noteq> CHR ''='') q
      in if CHR ''='' \<in> set q \<and> (name = ''q'' \<or> name = ''Q'') then q_excluded (drop (length name + 1) q) else z)"

definition ae_element :: "string \<Rightarrow> string \<times> bool" where
  "ae_element e =
     (let ps = split_on (\<lambda>c. c = CHR '';'') e
      in (trim_right (dropWhile is_ows (hd ps)), fold param_excludes (tl ps) False))"

text \<open>The last element that names a coding decides, and the last wildcard where there is none.\<close>

definition ae_accepts :: "(string \<times> bool) list \<Rightarrow> string \<Rightarrow> bool" where
  "ae_accepts es name =
     (case find (\<lambda>e. map lower_ascii (fst e) = name) (rev es) of
        Some e \<Rightarrow> \<not> snd e
      | None \<Rightarrow> (case find (\<lambda>e. fst e = ''*'') (rev es) of Some e \<Rightarrow> \<not> snd e | None \<Rightarrow> False))"

definition no_ends :: "string \<Rightarrow> bool" where
  "no_ends p \<longleftrightarrow> (\<forall>c\<in>set p. \<not> ends_param c)"

definition stops :: "string \<Rightarrow> bool" where
  "stops r \<longleftrightarrow> r = [] \<or> ends_param (hd r)"

lemma dropWhile_frame:
  "r = [] \<or> \<not> P (hd r) \<Longrightarrow> dropWhile P (e @ r) = dropWhile P e @ r"
  "r = [] \<or> \<not> P (hd r) \<Longrightarrow> takeWhile P (e @ r) = takeWhile P e"
  by (induction e) (cases r; auto)+

lemma stops_not:
  assumes "stops r"
  shows "r = [] \<or> \<not> is_ows (hd r)" "r = [] \<or> \<not> is_digit (hd r)" "r = [] \<or> \<not> (\<not> ends_param (hd r))"
    "r = [] \<or> \<not> (\<not> ends_name (hd r))" "r = [] \<or> hd r \<noteq> CHR ''=''" "r = [] \<or> hd r \<noteq> CHR ''0''"
  using assms by (auto simp: stops_def ends_param_def ends_name_def is_ows_def is_digit_def)

lemma skip_value_frame: "no_ends p \<Longrightarrow> stops r \<Longrightarrow> ae_skip_value (p @ r) = r"
  using stops_not(3) [of r] dropWhile_frame(1) [of r "\<lambda>c. \<not> ends_param c" p]
  by (auto simp: ae_skip_value_def no_ends_def)

lemma no_ends_simps [simp]: "no_ends []" "no_ends (c # p) \<longleftrightarrow> \<not> ends_param c \<and> no_ends p"
  by (auto simp: no_ends_def)

lemma fraction_frame:
  assumes "no_ends p" "stops r"
  shows "ae_fraction (p @ r) = ((\<forall>x\<in>set (takeWhile is_digit p). x = CHR ''0''), r)"
  using assms
proof (induction p)
  case Nil
  then show ?case using stops_not(2) [of r] skip_value_frame [of "[]" r] by (cases r) auto
next
  case (Cons c p)
  then show ?case using skip_value_frame [of "c # p" r] by (auto simp: is_digit_def)
qed

lemma q_is_zero_frame:
  assumes "no_ends p" "stops r"
  shows "ae_q_is_zero (p @ r) = (q_excluded p, r)"
proof -
  define q where "q = dropWhile is_ows p"
  have sk: "ae_skip_ws (p @ r) = q @ r"
    using dropWhile_frame(1) [of r is_ows p] stops_not(1) [OF assms(2)] by (simp add: ae_skip_ws_def q_def)
  have q: "no_ends q" using assms(1) by (auto simp: q_def no_ends_def dest: set_dropWhileD)
  have r: "ae_skip_value r = r" using skip_value_frame [of "[]" r] assms(2) by simp
  show ?thesis
  proof (cases q)
    case Nil
    then show ?thesis
      using sk r stops_not(6) [OF assms(2)] by (auto simp: ae_q_is_zero_def q_excluded_def split: list.splits simp flip: q_def)
  next
    case (Cons c cs)
    show ?thesis
    proof (cases cs)
      case Nil
      then show ?thesis
        using sk r Cons q assms(2) skip_value_frame [of q r]
        by (auto simp: ae_q_is_zero_def q_excluded_def stops_def ends_param_def split: list.splits simp flip: q_def)
    next
      case (Cons d ds)
      with \<open>q = c # cs\<close> show ?thesis
        using sk q assms(2) skip_value_frame [of q r] skip_value_frame [of cs r] fraction_frame [of ds r]
        by (auto simp: ae_q_is_zero_def q_excluded_def simp flip: q_def)
    qed
  qed
qed

abbreviation semis :: "string list \<Rightarrow> string" where
  "semis ps \<equiv> concat (map (\<lambda>p. CHR '';'' # p) ps)"

lemma ae_params_step:
  assumes "ae_skip_ws s = p1" "takeWhile (\<lambda>c. \<not> ends_name c) p1 = name" "dropWhile (\<lambda>c. \<not> ends_name c) p1 = p2"
  shows "ae_params (CHR '';'' # s) z =
    (if p2 \<noteq> [] \<and> hd p2 = CHR ''='' then
       (if name = ''q'' \<or> name = ''Q'' then (let (z', p3) = ae_q_is_zero (tl p2) in ae_params p3 z')
        else ae_params (ae_skip_value (tl p2)) z)
     else ae_params p2 z)"
  unfolding assms [symmetric] by (subst ae_params.simps) (simp add: Let_def del: dropWhile_eq_Nil_conv)

lemma params_frame:
  assumes "\<forall>p\<in>set ps. no_ends p" "r = [] \<or> hd r = CHR '',''"
  shows "ae_params (semis ps @ r) z = (fold param_excludes ps z, r)"
  using assms(1)
proof (induction ps arbitrary: z)
  case Nil
  then show ?case using assms(2) by (auto simp: ae_params.simps)
next
  case (Cons p ps)
  define rest where "rest = semis ps @ r"
  define q where "q = dropWhile is_ows p"
  define name where "name = takeWhile (\<lambda>c. c \<noteq> CHR ''='') q"
  define v where "v = dropWhile (\<lambda>c. c \<noteq> CHR ''='') q"
  have st: "stops rest"
    using assms(2) by (cases ps) (auto simp: rest_def stops_def ends_param_def)
  have q: "no_ends q" using Cons.prems by (auto simp: q_def no_ends_def dest: set_dropWhileD)
  have eq: "\<And>c. c \<in> set q \<Longrightarrow> (\<not> ends_name c) = (c \<noteq> CHR ''='')"
    using q by (auto simp: no_ends_def ends_name_def)
  have sk: "ae_skip_ws (p @ rest) = q @ rest"
    using dropWhile_frame(1) [of rest is_ows p] stops_not(1) [OF st] by (simp add: ae_skip_ws_def q_def)
  have nm: "takeWhile (\<lambda>c. \<not> ends_name c) (q @ rest) = name" "dropWhile (\<lambda>c. \<not> ends_name c) (q @ rest) = v @ rest"
    using dropWhile_frame [of rest "\<lambda>c. \<not> ends_name c" q] stops_not(4) [OF st] eq
      takeWhile_cong [OF refl eq] dropWhile_cong [OF refl eq] by (simp_all add: name_def v_def)
  have v: "v = [] \<and> CHR ''='' \<notin> set q \<or> CHR ''='' \<in> set q \<and> v = CHR ''='' # drop (length name + 1) q"
  proof (cases "CHR ''='' \<in> set q")
    case True
    then obtain xs ys where "q = xs @ CHR ''='' # ys" "CHR ''='' \<notin> set xs" by (meson split_list_first)
    then have "name = xs" "v = CHR ''='' # ys" "q = xs @ CHR ''='' # ys"
      by (auto simp: name_def v_def dropWhile_append takeWhile_append)
    then show ?thesis by simp
  next
    case False
    then show ?thesis by (auto simp: v_def)
  qed
  have "no_ends (drop (length name + 1) q)" using q by (auto simp: no_ends_def dest: in_set_dropD)
  note frames = q_is_zero_frame [OF this st] skip_value_frame [OF this st]
  have "ae_params (semis (p # ps) @ r) z = ae_params rest (param_excludes p z)"
  proof (cases "CHR ''='' \<in> set q")
    case True
    then have v: "v = CHR ''='' # drop (length name + 1) q" using v by blast
    then show ?thesis
      using True frames ae_params_step [OF sk nm, of z]
      by (simp add: param_excludes_def Let_def flip: rest_def q_def name_def)
  next
    case False
    then have "v = []" using v by blast
    then show ?thesis
      using False stops_not(5) [OF st] ae_params_step [OF sk nm, of z]
      by (auto simp: param_excludes_def Let_def simp flip: rest_def q_def name_def)
  qed
  then show ?case using Cons.IH Cons.prems by (simp add: rest_def)
qed

lemma split_on_join:
  "e = hd (split_on (\<lambda>x. x = c) e) @ concat (map (\<lambda>p. c # p) (tl (split_on (\<lambda>x. x = c) e)))"
proof (induction e)
  case (Cons x e)
  obtain y ys where "split_on (\<lambda>x. x = c) e = y # ys" by (metis split_on_not_Nil neq_Nil_conv)
  with Cons show ?case by auto
qed simp

lemma split_on_pieces: "p \<in> set (split_on P e) \<Longrightarrow> set p \<subseteq> set e \<and> (\<forall>c\<in>set p. \<not> P c)"
proof (induction e arbitrary: p)
  case (Cons x e)
  obtain y ys where s: "split_on P e = y # ys" by (metis split_on_not_Nil neq_Nil_conv)
  then have "y \<in> set (split_on P e)" "\<And>q. q \<in> set ys \<Longrightarrow> q \<in> set (split_on P e)" by auto
  then show ?case using Cons s by (fastforce split: if_splits)
qed simp

lemma ae_loop_element:
  assumes "CHR '','' \<notin> set e" "r = [] \<or> hd r = CHR '',''"
  shows "ae_loop (e @ r) st = ae_loop (tl r) (ae_record (fst (ae_element e)) (snd (ae_element e)) st)"
proof -
  define ps where "ps = split_on (\<lambda>c. c = CHR '';'') e"
  define h where "h = dropWhile is_ows (hd ps)"
  have e: "e = hd ps @ semis (tl ps)" using split_on_join [of e "CHR '';''"] by (simp add: ps_def)
  have "no_ends p" if "p \<in> set ps" for p
    using split_on_pieces [of p "\<lambda>c. c = CHR '';''" e] that assms(1) by (auto simp: ps_def no_ends_def ends_param_def)
  moreover have "ps \<noteq> []" by (simp add: ps_def)
  ultimately have ne: "no_ends (hd ps)" "\<forall>p\<in>set (tl ps). no_ends p" by (auto dest: list.set_sel)
  have nh: "no_ends h" using ne(1) by (auto simp: h_def no_ends_def dest: set_dropWhileD)
  define rest where "rest = semis (tl ps) @ r"
  have st: "stops rest" using assms(2) by (cases "tl ps") (auto simp: rest_def stops_def ends_param_def)
  have sk: "ae_skip_ws (e @ r) = h @ rest"
    using dropWhile_frame(1) [of rest is_ows "hd ps"] stops_not(1) [OF st]
    by (subst e) (simp add: ae_skip_ws_def h_def rest_def)
  have tk: "takeWhile (\<lambda>c. \<not> ends_param c) (h @ rest) = h" "dropWhile (\<lambda>c. \<not> ends_param c) (h @ rest) = rest"
    using dropWhile_frame [of rest "\<lambda>c. \<not> ends_param c" h] stops_not(3) [OF st] nh by (auto simp: no_ends_def)
  have pr: "ae_params rest False = (fold param_excludes (tl ps) False, r)"
    unfolding rest_def by (rule params_frame [OF ne(2) assms(2)])
  have r: "ae_skip_ws r = r" using assms(2) by (cases r) (auto simp: ae_skip_ws_def is_ows_def)
  have el: "ae_element e = (trim_right h, fold param_excludes (tl ps) False)"
    by (simp add: ae_element_def h_def flip: ps_def)
  show ?thesis
  proof (cases "h @ rest = []")
    case True
    then have "h = []" "semis (tl ps) = []" "r = []" by (auto simp: rest_def)
    then have "ae_element e = ([], False)" using el by (cases "tl ps") (auto simp: trim_right_def)
    then show ?thesis using True sk \<open>r = []\<close> by (auto simp: ae_loop.simps ae_record_def ae_token_ieq_def)
  next
    case False
    then have "e @ r \<noteq> []" using sk by (auto simp: ae_skip_ws_def)
    then show ?thesis
      using False sk tk pr r el assms(2) by (subst ae_loop.simps) (auto simp: Let_def)
  qed
qed

abbreviation ae_elements :: "string \<Rightarrow> (string \<times> bool) list" where
  "ae_elements v \<equiv> map ae_element (split_on (\<lambda>c. c = CHR '','') v)"

lemma ae_loop_fold: "ae_loop v st = fold (\<lambda>e. ae_record (fst e) (snd e)) (ae_elements v) st"
proof (induction v arbitrary: st rule: length_induct)
  case (1 v)
  define e where "e = takeWhile (\<lambda>c. c \<noteq> CHR '','') v"
  define r where "r = dropWhile (\<lambda>c. c \<noteq> CHR '','') v"
  have v: "v = e @ r" by (simp add: e_def r_def)
  have e: "CHR '','' \<notin> set e" by (auto simp: e_def dest: set_takeWhileD)
  have r: "r = [] \<or> hd r = CHR '',''" using hd_dropWhile [of "\<lambda>c. c \<noteq> CHR '',''" v] by (auto simp: r_def)
  have sp: "split_on (\<lambda>c. c = CHR '','') v = (if r = [] then [e] else e # split_on (\<lambda>c. c = CHR '','') (tl r))"
    unfolding v by (rule split_on_word) (use e r in auto)
  show ?case
  proof (cases "r = []")
    case True
    then show ?thesis
      using ae_loop_element [OF e r, of st] sp by (simp add: v ae_loop.simps)
  next
    case False
    then have "length (tl r) < length v" by (cases r) (auto simp: v)
    with 1 have "ae_loop (tl r) st' = fold (\<lambda>e. ae_record (fst e) (snd e)) (ae_elements (tl r)) st'" for st'
      by blast
    then show ?thesis using ae_loop_element [OF e r, of st] sp False by (simp flip: v)
  qed
qed

lemma ae_fold_state:
  defines "st es \<equiv> fold (\<lambda>e. ae_record (fst e) (snd e)) es ae_zero"
  shows "(if gzip_explicit (st es) then Some (gzip_val (st es) > 0) else None) =
      map_option (\<lambda>e. \<not> snd e) (find (\<lambda>e. map lower_ascii (fst e) = ''gzip'') (rev es))"
    "(if brotli_explicit (st es) then Some (brotli_val (st es) > 0) else None) =
      map_option (\<lambda>e. \<not> snd e) (find (\<lambda>e. map lower_ascii (fst e) = ''br'') (rev es))"
    "(if wildcard_seen (st es) then Some (wildcard_val (st es) > 0) else None) =
      map_option (\<lambda>e. \<not> snd e) (find (\<lambda>e. fst e = ''*'') (rev es))"
proof (induction es rule: rev_induct)
  case Nil
  { case 1 show ?case by (simp add: st_def ae_zero_def) }
  { case 2 show ?case by (simp add: st_def ae_zero_def) }
  { case 3 show ?case by (simp add: st_def ae_zero_def) }
next
  case (snoc e es)
  have tok: "ae_token_ieq t s \<longleftrightarrow> map lower_ascii t = s" for t s
    by (auto simp: ae_token_ieq_def dest: map_eq_imp_length_eq)
  have star: "map lower_ascii ''*'' = ''*''" by (simp add: lower_ascii_def)
  have st: "st (es @ [e]) = ae_record (fst e) (snd e) (st es)" by (simp add: st_def)
  { case 1 then show ?case using snoc.IH(1) by (auto simp: st ae_record_def tok Let_def split: if_splits) }
  { case 2 then show ?case using snoc.IH(2) by (auto simp: st ae_record_def tok Let_def split: if_splits) }
  { case 3 then show ?case using snoc.IH(3) star by (auto simp: st ae_record_def tok Let_def split: if_splits) }
qed

text \<open>
  C33: the one-pass scanner of \<open>Accept-Encoding\<close> computes what the header means. For every value,
  gzip (Brotli) is accepted exactly when the last list element naming it does not exclude it with
  a zero quality, or when none names it and the last wildcard does not exclude it; nothing else
  is ever reported.
\<close>

theorem accept_encoding_meaning:
  "compress_parse_accept_encoding v =
     (case v of
        None \<Rightarrow> 0
      | Some s \<Rightarrow>
          (if ae_accepts (ae_elements s) ''gzip'' then COMP_ENC_GZIP else 0) OR
          (if ae_accepts (ae_elements s) ''br'' then COMP_ENC_BROTLI else 0))"
proof (cases v)
  case None
  then show ?thesis by (simp add: compress_parse_accept_encoding_def)
next
  case (Some s)
  show ?thesis
  proof (cases "s = []")
    case True
    then show ?thesis
      by (simp add: Some compress_parse_accept_encoding_def ae_accepts_def ae_element_def trim_right_def)
  next
    case False
    define st where "st = fold (\<lambda>e. ae_record (fst e) (snd e)) (ae_elements s) ae_zero"
    note f = ae_fold_state [of "ae_elements s", folded st_def]
    have wild: "(if wildcard_seen st then wildcard_val st > 0 else False) =
      (case find (\<lambda>e. fst e = ''*'') (rev (ae_elements s)) of Some e \<Rightarrow> \<not> snd e | None \<Rightarrow> False)"
      using f(3) by (auto split: if_splits option.splits)
    have "(if gzip_explicit st then gzip_val st > 0 else (if wildcard_seen st then wildcard_val st > 0 else False)) =
      ae_accepts (ae_elements s) ''gzip''"
      "(if brotli_explicit st then brotli_val st > 0 else (if wildcard_seen st then wildcard_val st > 0 else False)) =
      ae_accepts (ae_elements s) ''br''"
      using f(1,2) unfolding wild ae_accepts_def by (auto split: if_splits option.splits)
    then show ?thesis
      using False by (simp add: Some compress_parse_accept_encoding_def ae_loop_fold Let_def flip: st_def)
  qed
qed

end
