(* ===== verification/Http_Pipeline.thy ===== *)
theory Http_Pipeline
  imports Http1_Request
begin

text \<open>
  Feeding received bytes to the parser and deciding what follows, \<^verbatim>\<open>src/src/http_pipeline.c\<close>. The
  call of llhttp is given by the events it raises on the chunk and the error code it returns; the
  callbacks are those of \<open>Http1_Parser\<close>. The logging of transitions is left out.
\<close>

section \<open>The model\<close>

datatype llhttp_errno =
    HPE_OK | HPE_PAUSED | HPE_CR_EXPECTED | HPE_LF_EXPECTED | HPE_INVALID_HEADER_TOKEN | HPE_OTHER nat

datatype http_action =
    HP_ACTION_CONTINUE | HP_ACTION_RESP_431 | HP_ACTION_RESP_400 | HP_ACTION_RESP_413
  | HP_ACTION_RESP_501 | HP_ACTION_RESP_OK

record http_pipeline_result =
  hr_action :: http_action
  header_too_big_transition :: bool
  parse_error_transition :: bool
  headers_complete_transition :: bool
  tolerated_error :: bool
  hr_err :: llhttp_errno

record http_error_plan =
  ep_kind :: resp_kind
  ep_keepalive :: bool
  ep_drain_after_headers :: bool
  ep_close_after_send :: bool

record http_ok_plan =
  op_kind :: resp_kind
  op_keepalive :: bool
  op_close_after_send :: bool

datatype http_apply_kind = HP_APPLY_CONTINUE | HP_APPLY_ERROR | HP_APPLY_OK | HP_APPLY_INTERNAL_ERROR

record http_apply_plan =
  ap_kind :: http_apply_kind
  reschedule_on_ok :: bool
  ap_error :: http_error_plan
  ap_ok :: http_ok_plan

definition DEFAULT_MAX_HEADER_BYTES :: nat where "DEFAULT_MAX_HEADER_BYTES = 65536"

definition has_lf :: "string \<Rightarrow> bool" where
  "has_lf buf \<longleftrightarrow> list_ex (\<lambda>c. c = LF) buf"

definition h1_max_header_bytes :: "http1_state \<Rightarrow> nat" where
  "h1_max_header_bytes h = (if max_header_bytes h > 0 then max_header_bytes h else DEFAULT_MAX_HEADER_BYTES)"

definition llhttp_should_tolerate ::
    "llhttp_errno \<Rightarrow> string \<Rightarrow> http1_state \<Rightarrow> bool \<times> http1_state" where
  "llhttp_should_tolerate err buf h =
     (if headers_done h then (False, h)
      else if err = HPE_CR_EXPECTED \<or> err = HPE_LF_EXPECTED then (True, h)
      else if err = HPE_INVALID_HEADER_TOKEN then
        (if \<not> pending_line_error h then (True, h\<lparr>pending_line_error := True\<rparr>) else (\<not> has_lf buf, h))
      else (False, h))"

text \<open>\<open>draining\<close> is the connection's flag of that name.\<close>

definition http_pipeline_classify_action :: "bool \<Rightarrow> http1_state \<Rightarrow> http_action" where
  "http_pipeline_classify_action draining h =
     (if header_too_big h \<and> \<not> draining then HP_ACTION_RESP_431
      else if unsupported_te h then HP_ACTION_RESP_501
      else if body_too_big h then HP_ACTION_RESP_413
      else if parse_error h then HP_ACTION_RESP_400
      else if \<not> message_done h then HP_ACTION_CONTINUE
      else HP_ACTION_RESP_OK)"

definition error_plan_zero :: http_error_plan where
  "error_plan_zero = \<lparr>ep_kind = RK_NONE, ep_keepalive = False, ep_drain_after_headers = False,
     ep_close_after_send = False\<rparr>"

definition http_pipeline_error_plan :: "http_action \<Rightarrow> http_error_plan option" where
  "http_pipeline_error_plan action =
     (case action of
        HP_ACTION_RESP_431 \<Rightarrow> Some (error_plan_zero\<lparr>ep_kind := RK_431, ep_drain_after_headers := True\<rparr>)
      | HP_ACTION_RESP_400 \<Rightarrow> Some (error_plan_zero\<lparr>ep_kind := RK_400, ep_close_after_send := True\<rparr>)
      | HP_ACTION_RESP_413 \<Rightarrow> Some (error_plan_zero\<lparr>ep_kind := RK_413, ep_close_after_send := True\<rparr>)
      | HP_ACTION_RESP_501 \<Rightarrow> Some (error_plan_zero\<lparr>ep_kind := RK_501, ep_close_after_send := True\<rparr>)
      | _ \<Rightarrow> None)"

definition http_pipeline_internal_error_plan :: http_error_plan where
  "http_pipeline_internal_error_plan = error_plan_zero\<lparr>ep_kind := RK_500, ep_close_after_send := True\<rparr>"

definition ok_plan_zero :: http_ok_plan where
  "ok_plan_zero = \<lparr>op_kind = RK_NONE, op_keepalive = False, op_close_after_send = False\<rparr>"

definition http_pipeline_ok_plan :: "http1_state \<Rightarrow> http_ok_plan" where
  "http_pipeline_ok_plan h =
     (if method_not_allowed h then ok_plan_zero\<lparr>op_kind := RK_405, op_close_after_send := True\<rparr>
      else ok_plan_zero\<lparr>op_keepalive := want_keepalive h,
             op_kind := (if want_keepalive h then RK_OK_KA else RK_OK_CLOSE)\<rparr>)"

definition http_pipeline_build_apply_plan :: "http1_state \<Rightarrow> http_pipeline_result option \<Rightarrow> http_apply_plan" where
  "http_pipeline_build_apply_plan h hres =
     (let out = \<lparr>ap_kind = HP_APPLY_CONTINUE, reschedule_on_ok = False, ap_error = error_plan_zero,
                 ap_ok = ok_plan_zero\<rparr>
      in if internal_error h
         then out\<lparr>ap_kind := HP_APPLY_INTERNAL_ERROR, ap_error := http_pipeline_internal_error_plan\<rparr>
         else
           (let act = (case hres of None \<Rightarrow> HP_ACTION_CONTINUE | Some r \<Rightarrow> hr_action r);
                out1 = out\<lparr>reschedule_on_ok := (act = HP_ACTION_RESP_OK)\<rparr>
            in case http_pipeline_error_plan act of
                 Some e \<Rightarrow> out1\<lparr>ap_error := e, ap_kind := HP_APPLY_ERROR\<rparr>
               | None \<Rightarrow>
                   (if act = HP_ACTION_CONTINUE then out1
                    else out1\<lparr>ap_kind := HP_APPLY_OK, ap_ok := http_pipeline_ok_plan h\<rparr>)))"

definition result_zero :: http_pipeline_result where
  "result_zero = \<lparr>hr_action = HP_ACTION_CONTINUE, header_too_big_transition = False,
     parse_error_transition = False, headers_complete_transition = False, tolerated_error = False,
     hr_err = HPE_OK\<rparr>"

text \<open>
  The count of received bytes, the parser call, and the flags set from its error code.
\<close>

definition count_header_bytes :: "nat \<Rightarrow> http1_state \<Rightarrow> bool \<times> http1_state" where
  "count_header_bytes n h =
     (if headers_done h then (False, h)
      else
        (let h1 = h\<lparr>parser_bytes := parser_bytes h + n\<rparr>
         in if parser_bytes h1 > h1_max_header_bytes h1 then (\<not> header_too_big h, h1\<lparr>header_too_big := True\<rparr>)
            else (False, h1)))"

definition after_parse ::
    "llhttp_errno \<Rightarrow> string \<Rightarrow> bool \<Rightarrow> http_pipeline_result \<Rightarrow> http1_state \<Rightarrow> http_pipeline_result \<times> http1_state" where
  "after_parse err buf had_parse_error r h =
     (let r1 = r\<lparr>hr_err := err\<rparr>
      in if err \<noteq> HPE_OK \<and> err \<noteq> HPE_PAUSED then
           (let (tolerate, h1) = llhttp_should_tolerate err buf h
            in if tolerate then (r1\<lparr>tolerated_error := True\<rparr>, h1)
               else if \<not> body_too_big h1
               then (r1\<lparr>parse_error_transition := \<not> had_parse_error\<rparr>, h1\<lparr>parse_error := True\<rparr>)
               else (r1, h1))
         else (r1, h))"

definition feed_terminal :: "http1_state \<Rightarrow> bool" where
  "feed_terminal h \<longleftrightarrow> parse_error h \<or> header_too_big h \<or> unsupported_te h \<or> message_done h"

definition http_pipeline_feed ::
    "vhost_t option \<Rightarrow> bool \<Rightarrow> h1_event list \<Rightarrow> llhttp_errno \<Rightarrow> string \<Rightarrow> http1_state \<Rightarrow>
     (http_pipeline_result \<times> http1_state) option" where
  "http_pipeline_feed vh draining evs err buf h =
     (if buf = [] then Some (result_zero, h)
      else do {
        (r, h') \<leftarrow>
          (if \<not> feed_terminal h then do {
             let (tr, h1) = count_header_bytes (length buf) h;
             let r1 = result_zero\<lparr>header_too_big_transition := tr\<rparr>;
             (r2, h2) \<leftarrow> (if \<not> header_too_big h1 then do {
                            h2 \<leftarrow> h1_run vh evs h1;
                            Some (after_parse err buf (parse_error h) r1 h2)
                          } else Some (r1, h1));
             Some (if \<not> headers_done h \<and> headers_done h2
                   then (r2\<lparr>headers_complete_transition := True\<rparr>, h2\<lparr>pending_line_error := False\<rparr>)
                   else (r2, h2))
           } else Some (result_zero, h));
        Some (r\<lparr>hr_action := http_pipeline_classify_action draining h'\<rparr>, h')
      })"

section \<open>One verdict per request\<close>

lemma feed_action:
  assumes "http_pipeline_feed vh draining evs err buf h = Some (r, h')" "buf \<noteq> []"
  shows "hr_action r = http_pipeline_classify_action draining h'"
  using assms by (auto simp: http_pipeline_feed_def Let_def split: Option.bind_splits)

lemma feed_sticky:
  assumes "feed_terminal h" "buf \<noteq> []"
  shows "http_pipeline_feed vh draining evs err buf h =
    Some (result_zero\<lparr>hr_action := http_pipeline_classify_action draining h\<rparr>, h)"
  using assms by (simp add: http_pipeline_feed_def)

lemma plan_action:
  "http_pipeline_build_apply_plan h (Some r) = http_pipeline_build_apply_plan h (Some r')" if "hr_action r = hr_action r'"
  using that by (simp add: http_pipeline_build_apply_plan_def Let_def)

lemmas plan_defs = http_pipeline_build_apply_plan_def http_pipeline_error_plan_def Let_def
  http_pipeline_classify_action_def http_pipeline_internal_error_plan_def error_plan_zero_def

text \<open>
  What speaks against a request, the first complaint in this order deciding the answer; and the
  plan that goes with it. A header that is too large does not count again while it is drained.
\<close>

definition complaints :: "bool \<Rightarrow> http1_state \<Rightarrow> (bool \<times> resp_kind) list" where
  "complaints draining h =
     [(internal_error h, RK_500), (header_too_big h \<and> \<not> draining, RK_431), (unsupported_te h, RK_501),
      (body_too_big h, RK_413), (parse_error h, RK_400)]"

definition plan_meets :: "bool \<Rightarrow> http1_state \<Rightarrow> http_apply_plan \<Rightarrow> bool" where
  "plan_meets draining h plan \<longleftrightarrow>
     (case find fst (complaints draining h) of
        Some (_, k) \<Rightarrow>
          ap_kind plan = (if k = RK_500 then HP_APPLY_INTERNAL_ERROR else HP_APPLY_ERROR) \<and>
          ap_error plan = \<lparr>ep_kind = k, ep_keepalive = False, ep_drain_after_headers = (k = RK_431),
                           ep_close_after_send = (k \<noteq> RK_431)\<rparr>
      | None \<Rightarrow>
          if message_done h
          then ap_kind plan = HP_APPLY_OK \<and>
            op_kind (ap_ok plan) =
              (if method_not_allowed h then RK_405 else if want_keepalive h then RK_OK_KA else RK_OK_CLOSE) \<and>
            op_keepalive (ap_ok plan) = (want_keepalive h \<and> \<not> method_not_allowed h) \<and>
            op_close_after_send (ap_ok plan) = method_not_allowed h
          else ap_kind plan = HP_APPLY_CONTINUE)"

lemma plan_meets_classify:
  assumes "hr_action r = http_pipeline_classify_action draining h"
  shows "plan_meets draining h (http_pipeline_build_apply_plan h (Some r))"
  using assms by (auto simp: plan_meets_def complaints_def plan_defs http_pipeline_ok_plan_def ok_plan_zero_def)

lemma classify_terminal:
  "http_pipeline_classify_action draining h \<notin> {HP_ACTION_CONTINUE, HP_ACTION_RESP_413} \<Longrightarrow> feed_terminal h"
  by (auto simp: http_pipeline_classify_action_def feed_terminal_def split: if_splits)

text \<open>Behind the header of a message without chunks llhttp raises body events and the end of the message only.\<close>

definition body_only :: "h1_event list \<Rightarrow> bool" where
  "body_only = list_all (\<lambda>e. case e of Ev_body n \<Rightarrow> True | Ev_message_complete \<Rightarrow> True | _ \<Rightarrow> False)"

definition rejected_413 :: "bool \<Rightarrow> http1_state \<Rightarrow> bool" where
  "rejected_413 draining h \<longleftrightarrow>
     headers_done h \<and> body_too_big h \<and> \<not> (header_too_big h \<and> \<not> draining) \<and> \<not> unsupported_te h"

lemma body_only_run:
  "body_only evs \<Longrightarrow> rejected_413 d h \<Longrightarrow>
   \<exists>h'. h1_run vh evs h = Some h' \<and> rejected_413 d h' \<and> internal_error h' = internal_error h"
proof (induction evs arbitrary: h)
  case (Cons e evs)
  obtain h1 where h1: "h1_dispatch vh e h = Some h1" "rejected_413 d h1" "internal_error h1 = internal_error h"
    using Cons.prems
    by (cases e) (auto simp: body_only_def rejected_413_def on_body_def on_message_complete_def Let_def)
  with Cons.IH [of h1] Cons.prems(1) show ?case by (auto simp: body_only_def)
qed simp

lemma feed_413:
  assumes "rejected_413 d h" "body_only evs" "buf \<noteq> []"
  shows "\<exists>r h'. http_pipeline_feed vh d evs err buf h = Some (r, h') \<and> hr_action r = HP_ACTION_RESP_413 \<and>
    http_pipeline_build_apply_plan h' (Some r) =
      http_pipeline_build_apply_plan h (Some (result_zero\<lparr>hr_action := HP_ACTION_RESP_413\<rparr>))"
proof -
  have act: "http_pipeline_classify_action d k = HP_ACTION_RESP_413" if "rejected_413 d k" for k
    using that by (auto simp: rejected_413_def http_pipeline_classify_action_def)
  have plan: "http_pipeline_build_apply_plan k (Some r) =
      http_pipeline_build_apply_plan h (Some (result_zero\<lparr>hr_action := HP_ACTION_RESP_413\<rparr>))"
    if "hr_action r = HP_ACTION_RESP_413" "internal_error k = internal_error h" for k r
    using that by (simp add: plan_defs)
  show ?thesis
  proof (cases "feed_terminal h")
    case True
    then show ?thesis using feed_sticky [OF True assms(3)] act [OF assms(1)] by simp
  next
    case False
    obtain k where k: "h1_run vh evs h = Some k" "rejected_413 d k" "internal_error k = internal_error h"
      using body_only_run [OF assms(2,1)] by blast
    have "\<not> header_too_big h" "headers_done h" "count_header_bytes (length buf) h = (False, h)"
      using False assms(1) by (auto simp: feed_terminal_def rejected_413_def count_header_bytes_def)
    moreover have "snd (after_parse err buf pe r0 k) = k" for pe r0
      using k(2) by (simp add: after_parse_def llhttp_should_tolerate_def rejected_413_def Let_def)
    ultimately obtain r where r: "http_pipeline_feed vh d evs err buf h = Some (r\<lparr>hr_action := HP_ACTION_RESP_413\<rparr>, k)"
      using False assms(3) k(1) act [OF k(2)] by (simp add: http_pipeline_feed_def Let_def case_prod_unfold)
    show ?thesis by (intro exI conjI, rule r, simp, rule plan [OF _ k(3)], simp)
  qed
qed

text \<open>
  C34: a chunk of bytes leads to exactly one verdict, and the verdict stays. The answer is given by
  the first of these that applies: running out of memory (500), a header over its limits that is
  not being drained already (431), an unsupported transfer coding (501), a body over its limit
  (413), a malformed request (400); every such answer closes the connection, or drains it in the
  case of 431, and never keeps it alive. Otherwise the request is handed on if its message is
  complete, and else more bytes are awaited. Once a request has been accepted, or rejected with
  400, 431 or 501, further bytes - whatever the byte parser makes of them - change neither the
  request nor the verdict; after 413 the verdict stays for every continuation of the message with
  body bytes.
\<close>

theorem pipeline_verdict:
  assumes feed: "http_pipeline_feed vh draining evs err buf h = Some (r, h')" "buf \<noteq> []"
  defines "plan \<equiv> http_pipeline_build_apply_plan h' (Some r)"
  shows "plan_meets draining h' plan \<and>
    (hr_action r \<notin> {HP_ACTION_CONTINUE, HP_ACTION_RESP_413} \<longrightarrow>
      (\<forall>evs' err' buf'. buf' \<noteq> [] \<longrightarrow>
        (\<exists>r'. http_pipeline_feed vh draining evs' err' buf' h' = Some (r', h') \<and>
          http_pipeline_build_apply_plan h' (Some r') = plan))) \<and>
    (hr_action r = HP_ACTION_RESP_413 \<and> headers_done h' \<longrightarrow>
      (\<forall>evs' err' buf'. buf' \<noteq> [] \<and> body_only evs' \<longrightarrow>
        (\<exists>r' h''. http_pipeline_feed vh draining evs' err' buf' h' = Some (r', h'') \<and>
          http_pipeline_build_apply_plan h'' (Some r') = plan)))"
proof (intro conjI impI allI)
  show "plan_meets draining h' plan" unfolding plan_def by (rule plan_meets_classify [OF feed_action [OF feed]])
next
  fix evs' err' and buf' :: string
  assume a: "hr_action r \<notin> {HP_ACTION_CONTINUE, HP_ACTION_RESP_413}" "buf' \<noteq> []"
  then have "feed_terminal h'" using classify_terminal by (simp add: feed_action [OF feed])
  note st = feed_sticky [OF this a(2), of vh draining evs' err']
  have "http_pipeline_build_apply_plan h'
      (Some (result_zero\<lparr>hr_action := http_pipeline_classify_action draining h'\<rparr>)) = plan"
    unfolding plan_def by (rule plan_action) (simp add: feed_action [OF feed])
  with st show "\<exists>r'. http_pipeline_feed vh draining evs' err' buf' h' = Some (r', h') \<and>
      http_pipeline_build_apply_plan h' (Some r') = plan" by blast
next
  fix evs' err' and buf' :: string
  assume a: "hr_action r = HP_ACTION_RESP_413 \<and> headers_done h'" "buf' \<noteq> [] \<and> body_only evs'"
  then have "rejected_413 draining h'"
    by (auto simp: feed_action [OF feed] http_pipeline_classify_action_def rejected_413_def split: if_splits)
  from feed_413 [OF this, of evs' buf' vh err'] a
  show "\<exists>r' h''. http_pipeline_feed vh draining evs' err' buf' h' = Some (r', h'') \<and>
      http_pipeline_build_apply_plan h'' (Some r') = plan"
    using plan_action [of r "result_zero\<lparr>hr_action := HP_ACTION_RESP_413\<rparr>" h'] by (auto simp: plan_def)
qed

theorem pipeline_verdict_witness:
  "\<exists>r h'. http_pipeline_feed None False [Ev_message_complete] HPE_PAUSED ''x'' h1_zero = Some (r, h') \<and>
     hr_action r = HP_ACTION_RESP_OK \<and> message_done h' \<and>
     (\<exists>r'. http_pipeline_feed None False [Ev_message_complete] (HPE_OTHER 3) ''y'' h' = Some (r', h'))"
proof -
  let ?f = "http_pipeline_feed None False [Ev_message_complete] HPE_PAUSED ''x'' h1_zero"
  have "map_option (\<lambda>(r, h'). (hr_action r, message_done h')) ?f = Some (HP_ACTION_RESP_OK, True)"
    by (simp add: http_pipeline_feed_def feed_terminal_def h1_zero_def count_header_bytes_def h1_max_header_bytes_def
        DEFAULT_MAX_HEADER_BYTES_def on_message_complete_def after_parse_def result_zero_def plan_defs)
  then obtain r h' where f: "?f = Some (r, h')" "hr_action r = HP_ACTION_RESP_OK" "message_done h'" by auto
  have ne: "''x'' \<noteq> []" "''y'' \<noteq> []" by simp_all
  have "hr_action r \<notin> {HP_ACTION_CONTINUE, HP_ACTION_RESP_413}" by (simp add: f(2))
  from pipeline_verdict [OF f(1) ne(1), THEN conjunct2, THEN conjunct1, rule_format, OF this ne(2)]
  have "\<exists>r'. http_pipeline_feed None False [Ev_message_complete] (HPE_OTHER 3) ''y'' h' = Some (r', h')"
    by blast
  with f show ?thesis by blast
qed

text \<open>
  The log message about a header over its limits is meant for both limits, but the transition it
  is keyed on is not reported when the limit on the number of fields is what was exceeded.
\<close>

lemma field_limit_transition_missed:
  assumes "\<not> feed_terminal h" "parser_bytes h + length buf \<le> h1_max_header_bytes h" "buf \<noteq> []"
    "http_pipeline_feed vh draining evs err buf h = Some (r, h')"
  shows "\<not> header_too_big_transition r"
proof -
  have "fst (count_header_bytes (length buf) h) = False"
    using assms(2) by (auto simp: count_header_bytes_def h1_max_header_bytes_def Let_def)
  then show ?thesis
    using assms
    by (auto simp: http_pipeline_feed_def after_parse_def result_zero_def Let_def
        split: Option.bind_splits if_splits prod.splits)
qed

end
