(* ===== verification/Request_Plan.thy ===== *)
theory Request_Plan
  imports Auth Http_Pipeline
begin

unbundle bit_operations_syntax

text \<open>
  Planning the answer to a request, the planning functions of \<^verbatim>\<open>src/src/request_handlers.c\<close> and the
  canned responses of \<^verbatim>\<open>src/lamseryn.c\<close>. Dispatch itself follows in \<open>Request_Dispatch\<close>. The
  server is built with \<open>ENABLE_OVERLOAD_503\<close> and without \<open>ENABLE_ITEST_ECHO\<close>.
\<close>

section \<open>Responses\<close>

definition canned :: "string \<Rightarrow> string" where
  "canned status = ''HTTP/1.1 '' @ status @ CRLF @ ''Content-Length: 0'' @ CRLF @ ''Connection: close'' @ CRLF @ CRLF"

definition request_response_status_line :: "resp_kind \<Rightarrow> string option" where
  "request_response_status_line kind =
     (case kind of
        RK_400 \<Rightarrow> Some ''400 Bad Request''
      | RK_403 \<Rightarrow> Some ''403 Forbidden''
      | RK_404 \<Rightarrow> Some ''404 Not Found''
      | RK_405 \<Rightarrow> Some ''405 Method Not Allowed''
      | RK_408 \<Rightarrow> Some ''408 Request Timeout''
      | RK_413 \<Rightarrow> Some ''413 Payload Too Large''
      | RK_431 \<Rightarrow> Some ''431 Request Header Fields Too Large''
      | RK_500 \<Rightarrow> Some ''500 Internal Server Error''
      | RK_501 \<Rightarrow> Some ''501 Not Implemented''
      | RK_503 \<Rightarrow> Some ''503 Service Unavailable''
      | _ \<Rightarrow> None)"

text \<open>The constants \<open>RESP_400\<close> to \<open>RESP_503\<close>; their lengths are those of the strings.\<close>

definition request_select_response :: "resp_kind \<Rightarrow> string option" where
  "request_select_response kind =
     (case kind of
        RK_400 \<Rightarrow> Some (canned ''400 Bad Request'')
      | RK_403 \<Rightarrow> Some (canned ''403 Forbidden'')
      | RK_404 \<Rightarrow> Some (canned ''404 Not Found'')
      | RK_405 \<Rightarrow> Some (canned ''405 Method Not Allowed'')
      | RK_413 \<Rightarrow> Some (canned ''413 Payload Too Large'')
      | RK_431 \<Rightarrow> Some (canned ''431 Request Header Fields Too Large'')
      | RK_500 \<Rightarrow> Some (canned ''500 Internal Server Error'')
      | RK_501 \<Rightarrow> Some (canned ''501 Not Implemented'')
      | RK_408 \<Rightarrow> Some (canned ''408 Request Timeout'')
      | RK_503 \<Rightarrow> Some (canned ''503 Service Unavailable'')
      | _ \<Rightarrow> None)"

record request_response_plan =
  rp_kind :: resp_kind
  rp_keepalive :: bool
  rp_drain_after_headers :: bool
  rp_close_after_send :: bool
  rp_status_line :: "string option"
  rp_response :: "string option"

definition request_build_response_plan :: "resp_kind \<Rightarrow> bool \<Rightarrow> bool \<Rightarrow> bool \<Rightarrow> request_response_plan" where
  "request_build_response_plan kind ka drain close =
     \<lparr>rp_kind = kind, rp_keepalive = ka, rp_drain_after_headers = drain, rp_close_after_send = close,
      rp_status_line = request_response_status_line kind, rp_response = request_select_response kind\<rparr>"

section \<open>Policy headers of canned responses\<close>

definition request_hdr_appendf :: "nat \<Rightarrow> string \<Rightarrow> string \<Rightarrow> string option" where
  "request_hdr_appendf cap out s =
     (if length out \<ge> cap then None
      else if s = [] \<or> length s \<ge> cap - length out then None
      else Some (out @ s))"

definition request_response_kind_supports_policy :: "resp_kind \<Rightarrow> bool" where
  "request_response_kind_supports_policy kind \<longleftrightarrow>
     kind = RK_400 \<or> kind = RK_403 \<or> kind = RK_404 \<or> kind = RK_405 \<or> kind = RK_408 \<or> kind = RK_413 \<or>
     kind = RK_431 \<or> kind = RK_500 \<or> kind = RK_501 \<or> kind = RK_503"

fun request_append_lines :: "string list \<Rightarrow> string \<Rightarrow> string option" where
  "request_append_lines [] out = Some out"
| "request_append_lines (l # ls) out =
     (if l = [] then request_append_lines ls out
      else (case request_hdr_appendf 1024 out l of None \<Rightarrow> None | Some out1 \<Rightarrow> request_append_lines ls out1))"

text \<open>\<open>None\<close> is the result -1, \<open>Some []\<close> the result 0 and another text the result 1.\<close>

definition request_build_policy_extra_headers ::
    "string option \<Rightarrow> vhost_t option \<Rightarrow> resp_kind \<Rightarrow> string option" where
  "request_build_policy_extra_headers path vhost kind =
     (if vhost = None \<or> \<not> request_response_kind_supports_policy kind then Some []
      else
        (let ctx = policy_shared_collect_headers path vhost
         in if pc_overflow ctx then None
            else if pc_lines ctx = [] then Some []
            else request_append_lines (pc_lines ctx) []))"

definition request_policy_fail_closed_response_plan ::
    "request_response_plan \<Rightarrow> string option \<Rightarrow> request_response_plan" where
  "request_policy_fail_closed_response_plan plan extra =
     (case extra of None \<Rightarrow> request_build_response_plan RK_500 False False True | Some _ \<Rightarrow> plan)"

section \<open>Routing\<close>

record request_route_plan =
  try_static :: bool
  method_not_allowed_response :: "request_response_plan option"

definition request_build_route_plan :: "vhost_t option \<Rightarrow> http1_state \<Rightarrow> request_route_plan" where
  "request_build_route_plan vhost h =
     (if method_not_allowed h
      then \<lparr>try_static = False,
            method_not_allowed_response = Some (request_build_response_plan RK_405 False False True)\<rparr>
      else
        \<lparr>try_static =
           (case vhost of
              None \<Rightarrow> False
            | Some vh \<Rightarrow>
                features vh AND CFG_FEAT_STATIC \<noteq> 0 \<and> docroot vh \<noteq> [] \<and> docroot_fd vh \<ge> 0 \<and> \<not> path_bad h \<and>
                path_norm h \<noteq> None \<and> path_norm_len h > 0),
         method_not_allowed_response = None\<rparr>)"

definition EACCES :: int where "EACCES = 13"
definition EPERM :: int where "EPERM = 1"
definition ELOOP :: int where "ELOOP = 40"
definition ENOENT :: int where "ENOENT = 2"

definition request_static_open_error_kind :: "int \<Rightarrow> resp_kind" where
  "request_static_open_error_kind open_err =
     (if open_err = EACCES \<or> open_err = EPERM \<or> open_err = ELOOP then RK_403 else RK_404)"

definition request_static_open_err_merge :: "int \<Rightarrow> int \<Rightarrow> int" where
  "request_static_open_err_merge current attempt = (if attempt > 0 then attempt else current)"

definition request_static_open_err_finalize :: "int \<Rightarrow> int" where
  "request_static_open_err_finalize current = (if current > 0 then current else ENOENT)"

definition request_build_static_fallback_plan :: "int \<Rightarrow> request_response_plan" where
  "request_build_static_fallback_plan open_err =
     request_build_response_plan (request_static_open_error_kind open_err) False False True"

record request_static_outcome =
  open_attempted :: bool
  so_open_err :: int

definition request_build_static_outcome :: "request_route_plan \<Rightarrow> int \<Rightarrow> request_static_outcome" where
  "request_build_static_outcome route err =
     \<lparr>open_attempted = try_static route, so_open_err = (if try_static route then err else 0)\<rparr>"

datatype request_static_serve_mode =
    REQUEST_STATIC_SERVE_HEAD | REQUEST_STATIC_SERVE_BUFFERED | REQUEST_STATIC_SERVE_SENDFILE

definition request_build_static_serve_plan :: "llhttp_method \<Rightarrow> nat \<Rightarrow> request_static_serve_mode" where
  "request_build_static_serve_plan meth file_size =
     (if meth = HTTP_HEAD then REQUEST_STATIC_SERVE_HEAD
      else if file_size > 0 \<and> file_size < 262144 then REQUEST_STATIC_SERVE_BUFFERED
      else REQUEST_STATIC_SERVE_SENDFILE)"

text \<open>The plan always sends a terminal response; the record field saying so is left out.\<close>

definition request_build_route_apply_plan ::
    "vhost_t option \<Rightarrow> http1_state \<Rightarrow> request_static_outcome \<Rightarrow> request_response_plan" where
  "request_build_route_apply_plan vhost h outcome =
     (let route = request_build_route_plan vhost h
      in case method_not_allowed_response route of
           Some p \<Rightarrow> p
         | None \<Rightarrow>
             (if open_attempted outcome \<and> try_static route
              then request_build_static_fallback_plan (so_open_err outcome)
              else request_build_response_plan RK_404 False False True))"

section \<open>CORS preflight and authentication\<close>

definition request_build_cors_preflight_headers :: "cors_policy \<Rightarrow> string option" where
  "request_build_cors_preflight_headers cors =
     (if \<not> co_enabled cors \<or> co_allow_origin cors = [] then None
      else do {
        let add = (\<lambda>cond line out. if cond then request_hdr_appendf 1024 out line else Some out);
        o1 \<leftarrow> add True (header_line ''Access-Control-Allow-Origin'' (co_allow_origin cors)) [];
        o2 \<leftarrow> add (co_allow_origin cors \<noteq> ''*'') (''Vary: Origin'' @ CRLF) o1;
        o3 \<leftarrow> add (co_allow_methods cors \<noteq> [])
                 (header_line ''Access-Control-Allow-Methods'' (co_allow_methods cors)) o2;
        o4 \<leftarrow> add (co_allow_headers cors \<noteq> [])
                 (header_line ''Access-Control-Allow-Headers'' (co_allow_headers cors)) o3;
        o5 \<leftarrow> add (co_allow_credentials cors) (''Access-Control-Allow-Credentials: true'' @ CRLF) o4;
        add (co_max_age_seconds_set cors \<and> co_max_age_seconds cors > 0)
          (header_line ''Access-Control-Max-Age'' (show_nat (co_max_age_seconds cors))) o5
      })"

text \<open>The result is -1, 0 or 1 as in the C code.\<close>

definition request_try_cors_preflight ::
    "nat option \<Rightarrow> nat option \<Rightarrow> vhost_t option \<Rightarrow> http1_state \<Rightarrow> tx_state_t \<Rightarrow> date_cache \<Rightarrow>
     int \<times> (tx_state_t \<times> date_cache) \<times> eff list" where
  "request_try_cors_preflight mem now vhost h tx g =
     (if h1_method h \<noteq> HTTP_OPTIONS then (0, (tx, g), [])
      else
        (case vhost of
           None \<Rightarrow> (0, (tx, g), [])
         | Some vh \<Rightarrow>
             (let cors = policy_shared_resolve_effective_cors (h1_path h) vh;
                  origin = http_header_find_value (req_hdrs h) HDR_ID_ORIGIN;
                  req_method = http_header_find_value (req_hdrs h) HDR_ID_ACCESS_CONTROL_REQUEST_METHOD
              in if \<not> co_enabled cors then (0, (tx, g), [])
                 else if origin = None \<or> origin = Some [] \<or> req_method = None \<or> req_method = Some []
                 then (0, (tx, g), [])
                 else
                   (case request_build_cors_preflight_headers cors of
                      None \<Rightarrow> (- 1, (tx, g), [])
                    | Some extra \<Rightarrow>
                        (case tx_build_headers mem now ''204 No Content'' None True 0 None 0 False False
                                (Some extra) tx g of
                           (None, (tx1, g1), es) \<Rightarrow> (- 1, (tx1, g1), es)
                         | (Some buf, (tx1, g1), es) \<Rightarrow>
                             (let (_, tx2, _) = tx_begin_headers RK_OK_CLOSE (Some buf) (length buf) False False tx1
                              in (1, (tx2, g1), es)))))))"

definition request_check_effective_auth ::
    "(string \<Rightarrow> string \<Rightarrow> string option) \<Rightarrow> nat option \<Rightarrow> nat option \<Rightarrow> vhost_t option \<Rightarrow> http1_state \<Rightarrow>
     tx_state_t \<Rightarrow> date_cache \<Rightarrow> int \<times> (tx_state_t \<times> date_cache) \<times> eff list" where
  "request_check_effective_auth crypt mem now vhost h tx g =
     (case vhost of
        None \<Rightarrow> (0, (tx, g), [])
      | Some vh \<Rightarrow>
          (let mode = (case policy_shared_resolve_route_rule (h1_path h) vh of
                         None \<Rightarrow> ROUTE_AUTH_INHERIT
                       | Some rr \<Rightarrow> auth_mode rr)
           in if mode = ROUTE_AUTH_DISABLE then (0, (tx, g), [])
              else if mode = ROUTE_AUTH_REQUIRE \<and> vh_auth_store vh = None then (- 1, (tx, g), [])
              else if mode = ROUTE_AUTH_INHERIT \<and> \<not> auth_enabled vh then (0, (tx, g), [])
              else auth_basic_check crypt mem now (Some vh) h tx g))"

end
