(* ===== verification/Static_Files.thy ===== *)
theory Static_Files
  imports Request_Plan Compression Http_Range
begin

unbundle bit_operations_syntax

text \<open>
  The helpers of \<^verbatim>\<open>src/src/static_serve_utils.c\<close>: media types, the path below the document root,
  the walk that opens it without following links, entity tags and dates, conditional requests.

  The operating system is the world \<open>os_state\<close>: the results of the calls to come (a descriptor or
  a negated \<open>errno\<close> for \<open>openat\<close>, and so on; after the end of a list a call fails) and the record
  of the calls made. File times before 1970 are left out, as in \<open>Http_Date\<close>.
\<close>

section \<open>The operating system\<close>

datatype file_kind = S_IFREG | S_IFDIR | S_IFOTHER

record stat =
  st_ino :: u64
  st_size :: int
  st_kind :: file_kind
  st_mtim_sec :: nat
  st_mtim_nsec :: nat

datatype read_result = Read_error int | Read_bytes string

datatype sys_call = Sys_openat int string bool int | Sys_eff eff

record os_state =
  os_opens :: "int list"
  os_fstats :: "stat option list"
  os_mallocs :: "nat option list"
  os_reads :: "read_result list"
  os_lseeks :: "bool list"
  os_clock :: "nat option list"
  os_errno :: int
  os_calls :: "sys_call list"

definition EINVAL :: int where "EINVAL = 22"
definition ENAMETOOLONG :: int where "ENAMETOOLONG = 36"

definition os_eff :: "eff list \<Rightarrow> os_state \<Rightarrow> os_state" where
  "os_eff es w = w\<lparr>os_calls := os_calls w @ map Sys_eff es\<rparr>"

definition os_close :: "int \<Rightarrow> os_state \<Rightarrow> os_state" where
  "os_close fd w = os_eff [Close_fd fd] w"

text \<open>\<open>openat\<close> with or without \<open>O_DIRECTORY\<close>, always with \<open>O_NOFOLLOW\<close>; -1 and \<open>errno\<close> on failure.\<close>

definition os_openat :: "int \<Rightarrow> string \<Rightarrow> bool \<Rightarrow> os_state \<Rightarrow> int \<times> os_state" where
  "os_openat dir name isdir w =
     (let r = (case os_opens w of [] \<Rightarrow> - ENOENT | r # rs \<Rightarrow> r);
          w1 = w\<lparr>os_opens := tl (os_opens w), os_calls := os_calls w @ [Sys_openat dir name isdir r]\<rparr>
      in if r \<ge> 0 then (r, w1) else (- 1, w1\<lparr>os_errno := - r\<rparr>))"

definition os_fstat :: "os_state \<Rightarrow> stat option \<times> os_state" where
  "os_fstat w = ((case os_fstats w of [] \<Rightarrow> None | r # rs \<Rightarrow> r), w\<lparr>os_fstats := tl (os_fstats w)\<rparr>)"

definition os_malloc :: "os_state \<Rightarrow> nat option \<times> os_state" where
  "os_malloc w = ((case os_mallocs w of [] \<Rightarrow> None | r # rs \<Rightarrow> r), w\<lparr>os_mallocs := tl (os_mallocs w)\<rparr>)"

definition os_lseek :: "os_state \<Rightarrow> bool \<times> os_state" where
  "os_lseek w = ((case os_lseeks w of [] \<Rightarrow> False | r # rs \<Rightarrow> r), w\<lparr>os_lseeks := tl (os_lseeks w)\<rparr>)"

definition os_time :: "os_state \<Rightarrow> nat option \<times> os_state" where
  "os_time w = ((case os_clock w of [] \<Rightarrow> None | r # rs \<Rightarrow> r), w\<lparr>os_clock := tl (os_clock w)\<rparr>)"

text \<open>
  The loop \<open>while (got < n) read(fd, buf + got, n - got)\<close>: an interrupted call is repeated, another
  error or an empty read ends it. A read returns no more bytes than were asked for.
\<close>

fun read_loop :: "read_result list \<Rightarrow> nat \<Rightarrow> string \<Rightarrow> string \<times> read_result list" where
  "read_loop rs n got =
     (if length got \<ge> n then (got, rs)
      else
        (case rs of
           [] \<Rightarrow> (got, [])
         | Read_error e # rs' \<Rightarrow> if e = EINTR then read_loop rs' n got else (got, rs')
         | Read_bytes b # rs' \<Rightarrow>
             (let r = take (n - length got) b in if r = [] then (got, rs') else read_loop rs' n (got @ r))))"

declare read_loop.simps [simp del]

definition os_read_all :: "nat \<Rightarrow> os_state \<Rightarrow> string \<times> os_state" where
  "os_read_all n w = (let (got, rs) = read_loop (os_reads w) n [] in (got, w\<lparr>os_reads := rs\<rparr>))"

section \<open>Media types\<close>

text \<open>The suffix from the last dot on, \<open>strrchr(path, '.')\<close>.\<close>

definition last_dot :: "string \<Rightarrow> string option" where
  "last_dot path =
     (if CHR ''.'' \<in> set path
      then Some (CHR ''.'' # rev (takeWhile (\<lambda>c. c \<noteq> CHR ''.'') (rev path))) else None)"

definition static_serve_mime_type_for_path :: "string option \<Rightarrow> string" where
  "static_serve_mime_type_for_path path =
     (case path of
        None \<Rightarrow> ''application/octet-stream''
      | Some p \<Rightarrow>
          (case last_dot p of
             None \<Rightarrow> ''application/octet-stream''
           | Some dot \<Rightarrow>
               (if length dot = length p then ''application/octet-stream''
                else if dot = ''.html'' \<or> dot = ''.htm'' then ''text/html; charset=utf-8''
                else if dot = ''.css'' then ''text/css; charset=utf-8''
                else if dot = ''.js'' then ''application/javascript; charset=utf-8''
                else if dot = ''.json'' then ''application/json; charset=utf-8''
                else if dot = ''.txt'' then ''text/plain; charset=utf-8''
                else if dot = ''.png'' then ''image/png''
                else if dot = ''.jpg'' \<or> dot = ''.jpeg'' then ''image/jpeg''
                else if dot = ''.gif'' then ''image/gif''
                else if dot = ''.svg'' then ''image/svg+xml''
                else ''application/octet-stream'')))"

section \<open>The path below the document root\<close>

definition PATH_MAX :: nat where "PATH_MAX = 4096"
definition NAME_MAX :: nat where "NAME_MAX = 255"

text \<open>\<open>path\<close> is the normalised path, its length the C length field.\<close>

definition static_serve_build_docroot_relpath :: "string option \<Rightarrow> bool \<Rightarrow> string \<Rightarrow> string option" where
  "static_serve_build_docroot_relpath path ends index =
     (case path of
        None \<Rightarrow> None
      | Some p \<Rightarrow>
          (if p = [] \<or> hd p \<noteq> CHR ''/'' then None
           else
             (let rel = tl p
              in if rel = [] \<or> ends then
                   (let rel1 = (if rel \<noteq> [] \<and> last rel = CHR ''/'' then butlast rel else rel);
                        idx = (if index \<noteq> [] then index else ''index.html'')
                    in if rel1 \<noteq> [] \<and> (length rel1 \<ge> PATH_MAX \<or> length rel1 + 1 \<ge> PATH_MAX) then None
                       else
                         (let dir = (if rel1 \<noteq> [] then rel1 @ ''/'' else [])
                          in if length dir + length idx \<ge> PATH_MAX then None else Some (dir @ idx)))
                 else if length rel \<ge> PATH_MAX then None
                 else Some rel)))"

definition close_unless_root :: "int \<Rightarrow> int \<Rightarrow> os_state \<Rightarrow> os_state" where
  "close_unless_root root cur w = (if cur \<noteq> root then os_close cur w else w)"

definition walk_fail :: "int \<Rightarrow> int \<Rightarrow> int \<Rightarrow> os_state \<Rightarrow> int \<times> os_state" where
  "walk_fail root cur e w = (- 1, close_unless_root root cur (w\<lparr>os_errno := e\<rparr>))"

function open_walk :: "int \<Rightarrow> int \<Rightarrow> string \<Rightarrow> os_state \<Rightarrow> int \<times> os_state" where
  "open_walk root cur p w =
     (let p1 = dropWhile (\<lambda>c. c = CHR ''/'') p
      in if p1 = [] then walk_fail root cur EINVAL w
         else
           (let seg = takeWhile (\<lambda>c. c \<noteq> CHR ''/'') p1; rest = dropWhile (\<lambda>c. c \<noteq> CHR ''/'') p1
            in if length seg > NAME_MAX then walk_fail root cur ENAMETOOLONG w
               else if seg = ''.'' \<or> seg = ''..'' then walk_fail root cur EACCES w
               else if rest \<noteq> [] then
                 (let (nxt, w1) = os_openat cur seg True w;
                      w2 = close_unless_root root cur w1
                  in if nxt < 0 then (- 1, w2) else open_walk root nxt (tl rest) w2)
               else
                 (let (fd, w1) = os_openat cur seg False w in (fd, close_unless_root root cur w1))))"
  by pat_completeness auto
termination
proof (relation "measure (\<lambda>(root, cur, p, w). length p)", goal_cases)
  case (2 root cur p w p1 seg rest x nxt w1 w2)
  have "length rest \<le> length p1" "length p1 \<le> length p"
    using 2 by (simp_all add: length_dropWhile_le)
  moreover have "length (tl rest) < length rest" using 2 by (cases rest) auto
  ultimately show ?case by simp
qed simp

declare open_walk.simps [simp del]

definition static_serve_openat_beneath_nofollow :: "int \<Rightarrow> string \<Rightarrow> os_state \<Rightarrow> int \<times> os_state" where
  "static_serve_openat_beneath_nofollow root relpath w =
     (if root < 0 \<or> relpath = [] then (- 1, w)
      else if hd relpath = CHR ''/'' then (- 1, w\<lparr>os_errno := EINVAL\<rparr>)
      else open_walk root root relpath w)"

section \<open>Validators\<close>

definition hex_digit :: "nat \<Rightarrow> char" where
  "hex_digit n = (if n < 10 then char_of (48 + n) else char_of (87 + n))"

fun show_hex :: "nat \<Rightarrow> string" where
  "show_hex n = (if n < 16 then [hex_digit n] else show_hex (n div 16) @ [hex_digit (n mod 16)])"

declare show_hex.simps [simp del]

definition mtime_us :: "stat \<Rightarrow> u64" where
  "mtime_us st = of_nat (st_mtim_sec st) * 1000000 + of_nat (st_mtim_nsec st div 1000)"

text \<open>The formatters give \<open>None\<close> for the result 0.\<close>

definition static_serve_format_etag :: "nat \<Rightarrow> stat \<Rightarrow> string option" where
  "static_serve_format_etag cap st =
     (if cap = 0 then None
      else
        (let s = [CHR 0x22] @ show_hex (unat (st_ino st)) @ ''-'' @ show_hex (unat (of_int (st_size st) :: u64)) @ ''-'' @
               show_hex (unat (mtime_us st)) @ [CHR 0x22]
         in if length s \<ge> cap then None else Some s))"

definition static_serve_format_last_modified :: "nat \<Rightarrow> stat \<Rightarrow> string option" where
  "static_serve_format_last_modified cap st = time_format_http_date cap (st_mtim_sec st)"

text \<open>Days from the start of the year 0 to the start of a year of the Gregorian calendar.\<close>

definition year_start :: "nat \<Rightarrow> int" where
  "year_start y = int (365 * y + (y + 3) div 4 + (y + 399) div 400) - int ((y + 99) div 100)"

text \<open>\<open>timegm\<close> of the C library, which carries an excess day of the month over.\<close>

definition timegm_c :: "nat \<Rightarrow> nat \<Rightarrow> nat \<Rightarrow> nat \<Rightarrow> nat \<Rightarrow> nat \<Rightarrow> int" where
  "timegm_c y mon mday hour mi sec =
     (year_start y - year_start 1970 + int (sum_list (take mon (month_days y))) + int mday - 1) * 86400 +
     int (hour * 3600 + mi * 60 + sec)"

text \<open>\<open>s[i]\<close> of a NUL-terminated string.\<close>

definition c_at :: "string \<Rightarrow> nat \<Rightarrow> char" where
  "c_at s i = (if i < length s then s ! i else NUL)"

definition two_digits :: "string \<Rightarrow> nat \<Rightarrow> nat" where
  "two_digits s i = digit_val (c_at s i) * 10 + digit_val (c_at s (i + 1))"

fun month_index :: "string list \<Rightarrow> nat \<Rightarrow> string \<Rightarrow> nat option" where
  "month_index [] i m = None"
| "month_index (n # ns) i m = (if n = m then Some i else month_index ns (i + 1) m)"

definition static_serve_parse_http_date :: "string \<Rightarrow> int option" where
  "static_serve_parse_http_date s =
     (let at = c_at s; dig = (\<lambda>i. is_digit (c_at s i))
      in if at 0 = NUL \<or> at 1 = NUL \<or> at 2 = NUL \<or> at 3 \<noteq> CHR '','' \<or> at 4 \<noteq> CHR '' '' then None
         else if \<not> dig 5 \<or> \<not> dig 6 \<or> at 7 \<noteq> CHR '' '' then None
         else
           (case month_index month_names 0 [at 8, at 9, at 10] of
              None \<Rightarrow> None
            | Some mon \<Rightarrow>
                (if at 11 \<noteq> CHR '' '' then None
                 else if \<not> dig 12 \<or> \<not> dig 13 \<or> \<not> dig 14 \<or> \<not> dig 15 \<or> at 16 \<noteq> CHR '' '' then None
                 else if \<not> dig 17 \<or> \<not> dig 18 \<or> at 19 \<noteq> CHR '':'' \<or> \<not> dig 20 \<or> \<not> dig 21 \<or> at 22 \<noteq> CHR '':'' \<or>
                   \<not> dig 23 \<or> \<not> dig 24 \<or> at 25 \<noteq> CHR '' '' \<or> at 26 \<noteq> CHR ''G'' \<or> at 27 \<noteq> CHR ''M'' \<or>
                   at 28 \<noteq> CHR ''T'' \<or> at 29 \<noteq> NUL then None
                 else
                   (let mday = two_digits s 5; year = two_digits s 12 * 100 + two_digits s 14;
                        hour = two_digits s 17; mi = two_digits s 20; sec = two_digits s 23
                    in if mday < 1 \<or> mday > 31 \<or> hour > 23 \<or> mi > 59 \<or> sec > 60 then None
                       else Some (timegm_c year mon mday hour mi sec)))))"

text \<open>A date header is parsed from a NUL-terminated copy in a 64-byte buffer.\<close>

definition date_copy :: "string \<Rightarrow> string" where
  "date_copy v = c_string (take 63 v)"

section \<open>Conditional requests\<close>

definition strip_weak :: "string \<Rightarrow> string" where
  "strip_weak tok = (if length tok \<ge> 2 \<and> tok ! 0 = CHR ''W'' \<and> tok ! 1 = CHR ''/'' then drop 2 tok else tok)"

text \<open>The scan of \<open>If-None-Match\<close>; an absent entity tag is \<open>None\<close>.\<close>

function inm_loop :: "string option \<Rightarrow> string \<Rightarrow> bool" where
  "inm_loop etag p =
     (let p1 = dropWhile is_ows p
      in if p1 = [] then False
         else
           (let tok = trim_right (takeWhile (\<lambda>c. c \<noteq> CHR '','') p1); rest = dropWhile (\<lambda>c. c \<noteq> CHR '','') p1
            in if tok = ''*'' then True
               else if etag \<noteq> None \<and> etag \<noteq> Some [] \<and> Some (strip_weak tok) = etag then True
               else if rest = [] then False
               else inm_loop etag (tl rest)))"
  by pat_completeness auto
termination
proof (relation "measure (\<lambda>(etag, p). length p)", goal_cases)
  case (2 etag p p1 tok rest)
  have "length rest \<le> length p1" "length p1 \<le> length p"
    using 2 by (simp_all add: length_dropWhile_le)
  moreover have "length (tl rest) < length rest" using 2 by (cases rest) auto
  ultimately show ?case by simp
qed simp

declare inm_loop.simps [simp del]

definition static_serve_check_not_modified :: "req_hdr_entry list \<Rightarrow> stat \<Rightarrow> string option \<Rightarrow> bool" where
  "static_serve_check_not_modified hdrs st etag =
     (case http_header_find_value hdrs HDR_ID_IF_NONE_MATCH of
        Some (c # cs) \<Rightarrow> inm_loop etag (c # cs)
      | _ \<Rightarrow>
          (case http_header_find_value hdrs HDR_ID_IF_MODIFIED_SINCE of
             Some (c # cs) \<Rightarrow>
               (case static_serve_parse_http_date (date_copy (c # cs)) of
                  None \<Rightarrow> False
                | Some t \<Rightarrow> int (st_mtim_sec st) \<le> t)
           | _ \<Rightarrow> False))"

definition static_serve_if_range_matches :: "req_hdr_entry list \<Rightarrow> stat \<Rightarrow> string option \<Rightarrow> bool" where
  "static_serve_if_range_matches hdrs st etag =
     (case http_header_find_value hdrs HDR_ID_IF_RANGE of
        Some (c # cs) \<Rightarrow>
          (let ir = c # cs
           in if length ir \<ge> 2 \<and> ir ! 0 = CHR 0x22 then etag \<noteq> None \<and> etag \<noteq> Some [] \<and> etag = Some ir
              else if length ir \<ge> 2 \<and> ir ! 0 = CHR ''W'' \<and> ir ! 1 = CHR ''/'' then False
              else
                (case static_serve_parse_http_date (date_copy ir) of
                   None \<Rightarrow> False
                 | Some t \<Rightarrow> int (st_mtim_sec st) = t))
      | _ \<Rightarrow> True)"

end
