(* ===== verification/Static_Serve.thy ===== *)
theory Static_Serve
  imports Static_Files
begin

unbundle bit_operations_syntax

text \<open>
  Serving a file, \<^verbatim>\<open>static_serve_try_prepare_docroot_response\<close> of
  \<^verbatim>\<open>src/src/static_serve_utils.c\<close>, in the order of the code: opening the path, looking for a
  compressed sibling, the extra headers, the conditional answer, ranges, the full answer and the
  redirect of a directory. \<open>serve_ctx\<close> is what the function only reads (the virtual host, the
  request, the libraries), \<open>serve\<close> what it changes. \<open>goto done\<close> is \<open>Out_done\<close>. A callee that may
  allocate takes one element of \<open>os_mallocs\<close>, used or not.
\<close>

section \<open>State\<close>

record serve_ctx =
  sc_vhost :: "vhost_t option"
  sc_h1 :: http1_state
  sc_tls :: bool
  sc_zlib :: zlib
  sc_brotli :: "brotli option"

record serve =
  sv_os :: os_state
  sv_tx :: tx_state_t
  sv_date :: date_cache
  sv_open_err :: int

datatype serve_out = Out_served | Out_done int | Out_after int stat

definition SIZE_MAX :: int where "SIZE_MAX = 18446744073709551615"
definition VF_COMP_DYNAMIC :: u32 where "VF_COMP_DYNAMIC = 1"
definition VF_COMP_DYN_MAX :: u32 where "VF_COMP_DYN_MAX = 2"
definition VF_COMP_DYN_MIN :: u32 where "VF_COMP_DYN_MIN = 4"
definition VF_COMP_DYN_LEVEL :: u32 where "VF_COMP_DYN_LEVEL = 8"

definition ctx_feature :: "serve_ctx \<Rightarrow> u64 \<Rightarrow> bool" where
  "ctx_feature c f = (case sc_vhost c of None \<Rightarrow> False | Some vh \<Rightarrow> features vh AND f \<noteq> 0)"

definition ctx_method_ok :: "serve_ctx \<Rightarrow> bool" where
  "ctx_method_ok c \<longleftrightarrow> h1_method (sc_h1 c) = HTTP_GET \<or> h1_method (sc_h1 c) = HTTP_HEAD"

definition regular_ok :: "stat \<Rightarrow> bool" where
  "regular_ok st \<longleftrightarrow> st_kind st = S_IFREG \<and> st_size st \<ge> 0 \<and> st_size st \<le> SIZE_MAX"

definition sv_close :: "int \<Rightarrow> serve \<Rightarrow> serve" where
  "sv_close fd s = s\<lparr>sv_os := os_close fd (sv_os s)\<rparr>"

definition sv_free :: "nat \<Rightarrow> serve \<Rightarrow> serve" where
  "sv_free p s = s\<lparr>sv_os := os_eff [Free p] (sv_os s)\<rparr>"

definition sv_open :: "int \<Rightarrow> string \<Rightarrow> serve \<Rightarrow> int \<times> serve" where
  "sv_open root path s =
     (let (fd, w) = static_serve_openat_beneath_nofollow root path (sv_os s) in (fd, s\<lparr>sv_os := w\<rparr>))"

text \<open>Opening the path itself records a failure for the fallback response.\<close>

definition sv_open_target :: "int \<Rightarrow> string \<Rightarrow> serve \<Rightarrow> int \<times> serve" where
  "sv_open_target root path s =
     (let (fd, s1) = sv_open root path s
      in if fd < 0
         then (fd, s1\<lparr>sv_open_err := request_static_open_err_merge (sv_open_err s1) (os_errno (sv_os s1))\<rparr>)
         else (fd, s1))"

definition sv_fstat :: "serve \<Rightarrow> stat option \<times> serve" where
  "sv_fstat s = (let (r, w) = os_fstat (sv_os s) in (r, s\<lparr>sv_os := w\<rparr>))"

section \<open>Staging a response\<close>

definition sv_build ::
    "string \<Rightarrow> string option \<Rightarrow> bool \<Rightarrow> nat \<Rightarrow> string option \<Rightarrow> nat \<Rightarrow> bool \<Rightarrow> bool \<Rightarrow> string option \<Rightarrow> serve \<Rightarrow>
     string option \<times> serve" where
  "sv_build status ct emit_cl cl body n ka drain extra s =
     (let (now, w1) = os_time (sv_os s);
          (mem, w2) = os_malloc w1;
          (buf, (tx, g), es) = tx_build_headers mem now status ct emit_cl cl body n ka drain extra (sv_tx s) (sv_date s)
      in (buf, s\<lparr>sv_os := os_eff es w2, sv_tx := tx, sv_date := g\<rparr>))"

definition sv_begin :: "resp_kind \<Rightarrow> string option \<Rightarrow> bool \<Rightarrow> bool \<Rightarrow> serve \<Rightarrow> serve" where
  "sv_begin rk buf ka drain s =
     (let (_, tx, _) = tx_begin_headers rk buf (case buf of None \<Rightarrow> 0 | Some b \<Rightarrow> length b) ka drain (sv_tx s)
      in s\<lparr>sv_tx := tx\<rparr>)"

text \<open>Build and, when that succeeds, stage; the boolean says whether it did.\<close>

definition sv_respond ::
    "resp_kind \<Rightarrow> string \<Rightarrow> string option \<Rightarrow> bool \<Rightarrow> nat \<Rightarrow> string option \<Rightarrow> nat \<Rightarrow> bool \<Rightarrow> string \<Rightarrow> serve \<Rightarrow>
     bool \<times> serve" where
  "sv_respond rk status ct emit_cl cl body n ka extra s =
     (case sv_build status ct emit_cl cl body n ka False (Some extra) s of
        (None, s1) \<Rightarrow> (False, s1)
      | (Some buf, s1) \<Rightarrow> (True, sv_begin rk (Some buf) ka False s1))"

definition static_serve_tx_set_dynamic_response_ex ::
    "string \<Rightarrow> string \<Rightarrow> nat \<Rightarrow> string option \<Rightarrow> nat \<Rightarrow> bool \<Rightarrow> string \<Rightarrow> serve \<Rightarrow> bool \<times> serve" where
  "static_serve_tx_set_dynamic_response_ex status ct cl body n ka extra s =
     (if n > 0 \<and> body = None then (False, s)
      else sv_respond (if ka then RK_OK_KA else RK_OK_CLOSE) status (Some ct) True cl body n ka extra s)"

section \<open>Extra headers\<close>

definition append_fit :: "nat \<Rightarrow> string \<Rightarrow> string \<Rightarrow> string" where
  "append_fit bufsz s buf = (if length buf + length s < bufsz then buf @ s else buf)"

definition static_serve_build_validator_headers :: "nat \<Rightarrow> string option \<Rightarrow> string option \<Rightarrow> string option" where
  "static_serve_build_validator_headers cap etag last_mod =
     (if cap = 0 then None
      else
        (let s = ''ETag: '' @ (case etag of None \<Rightarrow> [] | Some e \<Rightarrow> e) @ CRLF @ ''Last-Modified: '' @
               (case last_mod of None \<Rightarrow> [] | Some l \<Rightarrow> l) @ CRLF
         in if length s \<ge> cap then None else Some s))"

text \<open>Append the custom lines; the flag records that one did not fit.\<close>

fun append_custom :: "nat \<Rightarrow> string list \<Rightarrow> string \<times> bool \<Rightarrow> string \<times> bool" where
  "append_custom bufsz [] (buf, ovf) = (buf, ovf)"
| "append_custom bufsz (h # hs) (buf, ovf) =
     (if length buf + length h < bufsz then append_custom bufsz hs (buf @ h, ovf)
      else append_custom bufsz hs (buf, True))"

text \<open>
  The result: the header text, the coding still served, the entity tag, and the overflow flag,
  which the function clears before anything else.
\<close>

definition static_serve_assemble_extra_headers_ex ::
    "nat \<Rightarrow> nat \<Rightarrow> stat \<Rightarrow> u64 \<Rightarrow> u32 \<Rightarrow> string \<Rightarrow> string list \<Rightarrow> bool \<Rightarrow> string \<times> u32 \<times> string option \<times> bool" where
  "static_serve_assemble_extra_headers_ex bufsz etag_cap st feats senc ctype custom ovf0 =
     (let cond = feats AND CFG_FEAT_CONDITIONAL \<noteq> 0;
          etag = (if cond then static_serve_format_etag etag_cap st else None);
          last_mod = (if cond then static_serve_format_last_modified 64 st else None);
          b0 = (if etag \<noteq> None \<or> last_mod \<noteq> None
                then (case static_serve_build_validator_headers bufsz etag last_mod of None \<Rightarrow> [] | Some s \<Rightarrow> s)
                else []);
          b1 = (if feats AND CFG_FEAT_RANGE \<noteq> 0 then append_fit bufsz (''Accept-Ranges: bytes'' @ CRLF) b0 else b0);
          vary = (feats AND CFG_FEAT_COMPRESSION \<noteq> 0 \<and> compress_mime_is_compressible (Some ctype));
          ce = (case compress_enc_name senc of
                  None \<Rightarrow> []
                | Some n \<Rightarrow> ''Content-Encoding: '' @ n @ CRLF @ ''Vary: Accept-Encoding'' @ CRLF);
          fits = (senc \<noteq> 0 \<and> length ce < 64 \<and> length b1 + length ce < bufsz);
          b2 = (if fits then b1 @ ce else b1);
          senc' = (if senc \<noteq> 0 \<and> \<not> fits then 0 else senc);
          b3 = (if vary \<and> \<not> fits then append_fit bufsz (''Vary: Accept-Encoding'' @ CRLF) b2 else b2);
          (b4, ovf) = append_custom bufsz custom (b3, False)
      in (b4, senc', etag, ovf))"

section \<open>Compressed siblings\<close>

record probe =
  pr_fd :: int
  pr_st :: stat
  pr_enc :: u32

definition probe_one :: "int \<Rightarrow> string \<Rightarrow> u32 \<Rightarrow> u32 \<Rightarrow> probe \<times> serve \<Rightarrow> probe \<times> serve" where
  "probe_one root relpath acc enc ps =
     (let (p, s) = ps
      in if pr_enc p \<noteq> 0 then (p, s)
         else if acc AND enc = 0 then (p, s)
         else
           (let ext = (case compress_enc_ext enc of None \<Rightarrow> [] | Some e \<Rightarrow> e);
                comp_path = relpath @ ext
            in if length comp_path \<ge> PATH_MAX then (p, s)
               else
                 (let (comp_fd, s1) = sv_open root comp_path s
                  in if comp_fd < 0 then (p, s1)
                     else
                       (let (r, s2) = sv_fstat s1
                        in case r of
                             Some st \<Rightarrow>
                               (if regular_ok st
                                then (\<lparr>pr_fd = comp_fd, pr_st = st, pr_enc = enc\<rparr>, sv_close (pr_fd p) s2)
                                else (p, sv_close comp_fd s2))
                           | None \<Rightarrow> (p, sv_close comp_fd s2)))))"

definition accepted_encodings :: "serve_ctx \<Rightarrow> string \<Rightarrow> u32" where
  "accepted_encodings c ctype =
     (if ctx_feature c CFG_FEAT_COMPRESSION \<and> compress_mime_is_compressible (Some ctype) \<and> ctx_method_ok c then
        (let hdrs = req_hdrs (sc_h1 c);
             has_range = (ctx_feature c CFG_FEAT_RANGE \<and> http_header_find_value hdrs HDR_ID_RANGE \<noteq> None)
         in if has_range then 0
            else
              (case http_header_find_value hdrs HDR_ID_ACCEPT_ENCODING of
                 Some (x # xs) \<Rightarrow> compress_parse_accept_encoding (Some (x # xs))
               | _ \<Rightarrow> 0))
      else 0)"

definition probe_siblings :: "int \<Rightarrow> string \<Rightarrow> u32 \<Rightarrow> probe \<Rightarrow> serve \<Rightarrow> probe \<times> serve" where
  "probe_siblings root relpath acc p s =
     probe_one root relpath acc COMP_ENC_GZIP (probe_one root relpath acc COMP_ENC_BROTLI (p, s))"

section \<open>Ranges\<close>

definition staged_open :: "int \<Rightarrow> nat \<Rightarrow> nat \<Rightarrow> serve \<Rightarrow> bool \<times> serve" where
  "staged_open fd off len s =
     (let (ok, tx, es) = tx_attach_sendfile fd (int off) len (sv_tx s)
      in (ok, s\<lparr>sv_tx := tx, sv_os := os_eff es (sv_os s)\<rparr>))"

text \<open>
  The buffered attempt at a partial answer: \<open>None\<close> when it succeeded, else the descriptor (-1 once
  it is closed) with which the code goes on.
\<close>

definition range_buffered ::
    "string \<Rightarrow> string \<Rightarrow> nat \<Rightarrow> bool \<Rightarrow> int \<Rightarrow> serve \<Rightarrow> int option \<times> serve" where
  "range_buffered ctype extra len keep fd s =
     (let (mem, w1) = os_malloc (sv_os s)
      in case mem of
           None \<Rightarrow> (Some fd, s\<lparr>sv_os := w1\<rparr>)
         | Some p \<Rightarrow>
             (let (ok, w2) = os_lseek w1
              in if \<not> ok then (Some fd, sv_free p (s\<lparr>sv_os := w2\<rparr>))
                 else
                   (let (got, w3) = os_read_all len w2;
                        s1 = sv_close fd (s\<lparr>sv_os := w3\<rparr>)
                    in if length got = len then
                         (let (ok, s2) = sv_respond RK_206 ''206 Partial Content'' (Some ctype) True len (Some got) len
                                           keep extra s1
                          in ((if ok then None else Some (- 1)), sv_free p s2))
                       else (Some (- 1), sv_free p s1))))"

definition range_sendfile ::
    "string \<Rightarrow> string \<Rightarrow> nat \<Rightarrow> nat \<Rightarrow> bool \<Rightarrow> int \<Rightarrow> serve \<Rightarrow> serve_out \<times> serve" where
  "range_sendfile ctype extra start len keep fd s =
     (if fd \<ge> 0 then
        (let (ok, s1) = sv_respond RK_206 ''206 Partial Content'' (Some ctype) True len None 0 keep extra s
         in if ok then
              (let (att, s2) = staged_open fd start len s1 in if att then (Out_served, s2) else (Out_done fd, s2))
            else (Out_done fd, s1))
      else (Out_done fd, s))"

definition serve_unsatisfied :: "string \<Rightarrow> nat \<Rightarrow> bool \<Rightarrow> int \<Rightarrow> serve \<Rightarrow> serve_out \<times> serve" where
  "serve_unsatisfied hdrs fsz keep fd s0 =
     (let s = sv_close fd s0;
          (n, cr) = http_range_format_content_range_unsatisfied 128 (of_nat fsz);
          extra = take n cr @ hdrs
      in if extra = [] \<or> length extra \<ge> 2048 + 128 then (Out_done (- 1), s)
         else
           (let (ok, s1) = sv_respond RK_416 ''416 Range Not Satisfiable'' None True 0 None 0 keep extra s
            in if ok then (Out_served, s1) else (Out_done (- 1), s1)))"

definition serve_partial ::
    "serve_ctx \<Rightarrow> int \<Rightarrow> string \<Rightarrow> string \<Rightarrow> string \<Rightarrow> resolved_range \<Rightarrow> nat \<Rightarrow> bool \<Rightarrow> int \<Rightarrow> serve \<Rightarrow>
     serve_out \<times> serve" where
  "serve_partial c root relpath ctype hdrs rr fsz keep fd s =
     (let (n, cr) = http_range_format_content_range 128 (rr_start rr) (rr_end rr) (of_nat fsz);
          extra = take n cr @ hdrs;
          len = unat (rr_length rr);
          mode0 = request_build_static_serve_plan (h1_method (sc_h1 c)) len;
          mode = (if sc_tls c \<and> mode0 = REQUEST_STATIC_SERVE_SENDFILE then REQUEST_STATIC_SERVE_BUFFERED else mode0)
      in if extra = [] \<or> length extra \<ge> 2048 + 256 then (Out_done fd, s)
         else if mode = REQUEST_STATIC_SERVE_BUFFERED then
           (case range_buffered ctype extra len keep fd s of
              (None, s1) \<Rightarrow> (Out_served, s1)
            | (Some fd1, s1) \<Rightarrow>
                (if sc_tls c then (Out_done fd1, s1)
                 else if fd1 < 0 then
                   (let (fd2, s2) = sv_open_target root relpath s1
                    in if fd2 < 0 then (Out_done fd2, s2)
                       else range_sendfile ctype extra (unat (rr_start rr)) len keep fd2 s2)
                 else range_sendfile ctype extra (unat (rr_start rr)) len keep fd1 s1))
         else range_sendfile ctype extra (unat (rr_start rr)) len keep fd s)"

text \<open>\<open>None\<close>: no range applies and the whole file is served.\<close>

definition serve_range ::
    "serve_ctx \<Rightarrow> int \<Rightarrow> string \<Rightarrow> string \<Rightarrow> string \<Rightarrow> string option \<Rightarrow> stat \<Rightarrow> nat \<Rightarrow> bool \<Rightarrow> int \<Rightarrow> serve \<Rightarrow>
     (serve_out \<times> serve) option" where
  "serve_range c root relpath ctype hdrs etag st fsz keep fd s =
     (if ctx_feature c CFG_FEAT_RANGE \<and> h1_method (sc_h1 c) = HTTP_GET then
        (case http_header_find_value (req_hdrs (sc_h1 c)) HDR_ID_RANGE of
           Some (x # xs) \<Rightarrow>
             (let br = http_range_parse (Some (x # xs))
              in if br_valid br \<and> static_serve_if_range_matches (req_hdrs (sc_h1 c)) st etag then
                   (let rr = http_range_resolve (Some br) (of_nat fsz)
                    in Some (if \<not> rr_satisfiable rr then serve_unsatisfied hdrs fsz keep fd s
                             else serve_partial c root relpath ctype hdrs rr fsz keep fd s))
                 else None)
         | _ \<Rightarrow> None)
      else None)"

section \<open>The whole file\<close>

record dyn =
  dy_ptr :: nat
  dy_body :: string
  dy_enc :: u32

definition dyn_one :: "serve_ctx \<Rightarrow> int \<Rightarrow> u32 \<Rightarrow> u32 \<Rightarrow> dyn \<times> serve \<Rightarrow> dyn \<times> serve" where
  "dyn_one c level acc enc ds =
     (let (d, s) = ds
      in if dy_enc d \<noteq> 0 \<or> acc AND enc = 0 then (d, s)
         else
           (let (mem, w1) = os_malloc (sv_os s);
                (blk, res, es) =
                  (case sc_brotli c of
                     Some b \<Rightarrow>
                       (if enc = COMP_ENC_BROTLI
                        then compress_brotli b mem (dy_body d) (if level \<le> 11 then level else 4)
                        else compress_gzip (sc_zlib c) mem (dy_body d) level)
                   | None \<Rightarrow> compress_gzip (sc_zlib c) mem (dy_body d) level);
                s1 = s\<lparr>sv_os := os_eff es w1\<rparr>
            in case blk of
                 Some (p, out) \<Rightarrow>
                   (if res = COMPRESS_OK then (\<lparr>dy_ptr = p, dy_body = out, dy_enc = enc\<rparr>, sv_free (dy_ptr d) s1)
                    else (d, s1))
               | None \<Rightarrow> (d, s1)))"

definition try_enc :: "serve_ctx \<Rightarrow> u32 list" where
  "try_enc c = (if sc_brotli c \<noteq> None then [COMP_ENC_BROTLI, COMP_ENC_GZIP] else [COMP_ENC_GZIP])"

definition dyn_supported :: "serve_ctx \<Rightarrow> u32" where
  "dyn_supported c = (if sc_brotli c \<noteq> None then COMP_ENC_GZIP OR COMP_ENC_BROTLI else COMP_ENC_GZIP)"

definition dyn_eligible :: "serve_ctx \<Rightarrow> u32 \<Rightarrow> u32 \<Rightarrow> string \<Rightarrow> nat \<Rightarrow> bool" where
  "dyn_eligible c senc acc ctype fsz =
     (case sc_vhost c of
        None \<Rightarrow> False
      | Some vh \<Rightarrow>
          (let lim = (if vf_present vh AND VF_COMP_DYN_MAX \<noteq> 0 then comp_dynamic_max_bytes vh else 1048576);
               low = (if vf_present vh AND VF_COMP_DYN_MIN \<noteq> 0 then comp_dynamic_min_bytes vh else 256)
           in senc = 0 \<and> features vh AND CFG_FEAT_COMPRESSION \<noteq> 0 \<and> vf_present vh AND VF_COMP_DYNAMIC \<noteq> 0 \<and>
              comp_dynamic vh \<noteq> 0 \<and> compress_mime_is_compressible (Some ctype) \<and>
              h1_method (sc_h1 c) = HTTP_GET \<and> acc AND dyn_supported c \<noteq> 0 \<and> low \<le> fsz \<and> fsz \<le> lim))"

definition dyn_level :: "serve_ctx \<Rightarrow> int" where
  "dyn_level c =
     (case sc_vhost c of
        None \<Rightarrow> 1
      | Some vh \<Rightarrow> if vf_present vh AND VF_COMP_DYN_LEVEL \<noteq> 0 then int (comp_dynamic_effort vh) else 1)"

text \<open>
  The buffered answer. The result is what is left when it did not succeed: the descriptor, the size
  the code now holds, and whether the code may go on to \<open>sendfile\<close>.
\<close>

datatype buffered = Buf_served | Buf_abort | Buf_failed int nat

definition serve_buffered ::
    "serve_ctx \<Rightarrow> u32 \<Rightarrow> bool \<Rightarrow> string \<Rightarrow> string \<Rightarrow> u32 \<Rightarrow> u32 \<Rightarrow> nat \<Rightarrow> bool \<Rightarrow> int \<Rightarrow> serve \<Rightarrow> buffered \<times> serve" where
  "serve_buffered c acc eligible ctype hdrs senc orig_enc fsz keep fd s =
     (let (mem, w1) = os_malloc (sv_os s)
      in case mem of
           None \<Rightarrow> (Buf_failed fd fsz, s\<lparr>sv_os := w1\<rparr>)
         | Some p \<Rightarrow>
             (let (got, w2) = os_read_all fsz w1;
                  s1 = sv_close fd (s\<lparr>sv_os := w2\<rparr>)
              in if length got \<noteq> fsz then (Buf_failed (- 1) fsz, sv_free p s1)
                 else
                   (let (d, s2) = (if eligible
                                   then fold (dyn_one c (dyn_level c) acc) (try_enc c)
                                          (\<lparr>dy_ptr = p, dy_body = got, dy_enc = senc\<rparr>, s1)
                                   else (\<lparr>dy_ptr = p, dy_body = got, dy_enc = senc\<rparr>, s1));
                        len = length (dy_body d);
                        extra = (if dy_enc d \<noteq> 0 \<and> orig_enc = 0
                                 then ''Content-Encoding: '' @
                                      (case compress_enc_name (dy_enc d) of None \<Rightarrow> [] | Some n \<Rightarrow> n) @ CRLF @ hdrs
                                 else hdrs)
                    in if dy_enc d \<noteq> 0 \<and> orig_enc = 0 \<and> length extra \<ge> 2048 + 64
                       then (Buf_abort, sv_free (dy_ptr d) s2)
                       else
                         (let (ok, s3) = static_serve_tx_set_dynamic_response_ex ''200 OK'' ctype len
                                           (Some (dy_body d)) len keep extra s2
                          in ((if ok then Buf_served else Buf_failed (- 1) len), sv_free (dy_ptr d) s3)))))"

definition serve_sendfile ::
    "string \<Rightarrow> string \<Rightarrow> nat \<Rightarrow> bool \<Rightarrow> stat \<Rightarrow> int \<Rightarrow> serve \<Rightarrow> serve_out \<times> serve" where
  "serve_sendfile ctype hdrs fsz keep st fd s =
     (if fd \<ge> 0 then
        (let (ok, s1) = static_serve_tx_set_dynamic_response_ex ''200 OK'' ctype fsz None 0 keep hdrs s
         in if \<not> ok then (Out_after fd st, s1)
            else if fsz > 0 then
              (let (att, s2) = staged_open fd 0 fsz s1 in if att then (Out_served, s2) else (Out_done fd, s2))
            else (Out_served, sv_close fd s1))
      else (Out_after fd st, s))"

definition serve_mode :: "serve_ctx \<Rightarrow> bool \<Rightarrow> nat \<Rightarrow> request_static_serve_mode" where
  "serve_mode c eligible fsz =
     (let m = request_build_static_serve_plan (h1_method (sc_h1 c)) fsz
      in if m = REQUEST_STATIC_SERVE_SENDFILE \<and> (sc_tls c \<or> eligible) then REQUEST_STATIC_SERVE_BUFFERED else m)"

definition serve_full ::
    "serve_ctx \<Rightarrow> int \<Rightarrow> string \<Rightarrow> string \<Rightarrow> string \<Rightarrow> u32 \<Rightarrow> u32 \<Rightarrow> u32 \<Rightarrow> stat \<Rightarrow> nat \<Rightarrow> bool \<Rightarrow> int \<Rightarrow> serve \<Rightarrow>
     serve_out \<times> serve" where
  "serve_full c root relpath ctype hdrs acc senc orig_enc st fsz keep fd s =
     (let eligible = dyn_eligible c senc acc ctype fsz
      in case serve_mode c eligible fsz of
           REQUEST_STATIC_SERVE_HEAD \<Rightarrow>
             (let s1 = sv_close fd s;
                  (ok, s2) = static_serve_tx_set_dynamic_response_ex ''200 OK'' ctype fsz None 0 keep hdrs s1
              in if ok then (Out_served, s2) else (Out_after (- 1) st, s2))
         | REQUEST_STATIC_SERVE_BUFFERED \<Rightarrow>
             (case serve_buffered c acc eligible ctype hdrs senc orig_enc fsz keep fd s of
                (Buf_served, s1) \<Rightarrow> (Out_served, s1)
              | (Buf_abort, s1) \<Rightarrow> (Out_after (- 1) st, s1)
              | (Buf_failed fd1 len, s1) \<Rightarrow>
                  (if sc_tls c then (Out_done fd1, s1)
                   else
                     (let (fd2, s2) = sv_open_target root relpath s1
                      in serve_sendfile ctype hdrs len keep st fd2 s2)))
         | REQUEST_STATIC_SERVE_SENDFILE \<Rightarrow> serve_sendfile ctype hdrs fsz keep st fd s)"

section \<open>Regular files, directories and the function itself\<close>

text \<open>The answer 500 when the policy headers do not fit.\<close>

definition serve_overflow :: "int \<Rightarrow> serve \<Rightarrow> serve_out \<times> serve" where
  "serve_overflow fd s0 =
     (let s = sv_close fd s0;
          plan = request_build_response_plan RK_500 False False True;
          (buf, s1) = (case rp_status_line plan of
                         None \<Rightarrow> (rp_response plan, s)
                       | Some status \<Rightarrow>
                           (case sv_build status None True 0 None 0 (rp_keepalive plan) (rp_drain_after_headers plan)
                                   None s of
                              (None, s1) \<Rightarrow> (rp_response plan, s1)
                            | (Some b, s1) \<Rightarrow> (Some b, s1)))
      in (Out_served, sv_begin (rp_kind plan) buf (rp_keepalive plan) (rp_drain_after_headers plan) s1))"

definition serve_content ::
    "serve_ctx \<Rightarrow> int \<Rightarrow> string \<Rightarrow> string \<Rightarrow> u32 \<Rightarrow> u32 \<Rightarrow> u32 \<Rightarrow> string \<Rightarrow> string option \<Rightarrow> bool \<Rightarrow> stat \<Rightarrow> int \<Rightarrow>
     serve \<Rightarrow> serve_out \<times> serve" where
  "serve_content c root relpath ctype acc senc orig_enc hdrs etag keep st fd s =
     (let fsz = nat (st_size st)
      in if ctx_feature c CFG_FEAT_CONDITIONAL \<and> ctx_method_ok c \<and> etag \<noteq> None \<and>
           static_serve_check_not_modified (req_hdrs (sc_h1 c)) st etag
         then
           (let (ok, s1) = sv_respond RK_304 ''304 Not Modified'' None False 0 None 0 keep hdrs (sv_close fd s)
            in if ok then (Out_served, s1) else (Out_done (- 1), s1))
         else
           (case serve_range c root relpath ctype hdrs etag st fsz keep fd s of
              Some r \<Rightarrow> r
            | None \<Rightarrow> serve_full c root relpath ctype hdrs acc senc orig_enc st fsz keep fd s))"

definition serve_regular :: "serve_ctx \<Rightarrow> int \<Rightarrow> string \<Rightarrow> stat \<Rightarrow> int \<Rightarrow> serve \<Rightarrow> serve_out \<times> serve" where
  "serve_regular c root relpath st0 fd0 s0 =
     (let keep = want_keepalive (sc_h1 c);
          ctype = static_serve_mime_type_for_path (Some relpath);
          acc = accepted_encodings c ctype;
          (p, s1) = probe_siblings root relpath acc \<lparr>pr_fd = fd0, pr_st = st0, pr_enc = 0\<rparr> s0;
          policy = policy_shared_collect_headers (h1_path (sc_h1 c)) (sc_vhost c);
          (hdrs, senc, etag, overflow) =
            static_serve_assemble_extra_headers_ex 2048 64 (pr_st p)
              (case sc_vhost c of None \<Rightarrow> 0 | Some vh \<Rightarrow> features vh) (pr_enc p) ctype (pc_lines policy)
              (pc_overflow policy)
      in if overflow then serve_overflow (pr_fd p) s1
         else if pr_enc p \<noteq> 0 \<and> senc = 0 then
           (let (fd, s2) = sv_open_target root relpath (sv_close (pr_fd p) s1)
            in if fd < 0 then (Out_done fd, s2)
               else
                 (let (r, s3) = sv_fstat s2
                  in case r of
                       None \<Rightarrow> (Out_done fd, s3)
                     | Some st \<Rightarrow>
                         (if regular_ok st
                          then serve_content c root relpath ctype acc senc (pr_enc p) hdrs etag keep st fd s3
                          else (Out_done fd, s3))))
         else serve_content c root relpath ctype acc senc (pr_enc p) hdrs etag keep (pr_st p) (pr_fd p) s1)"

fun collapse_slashes :: "string \<Rightarrow> string" where
  "collapse_slashes (a # b # s) = (if a = CHR ''/'' \<and> b = CHR ''/'' then collapse_slashes (b # s) else a # b # s)"
| "collapse_slashes s = s"

definition location_header :: "http1_state \<Rightarrow> string" where
  "location_header h =
     (let t = (case target h of None \<Rightarrow> [] | Some t \<Rightarrow> t);
          loc = collapse_slashes (take (path_len h) t)
      in if query_len h > 0
         then ''Location: '' @ loc @ ''/?'' @ take (query_len h) (drop (query_off h) t) @ CRLF
         else ''Location: '' @ loc @ ''/'' @ CRLF)"

definition serve_after :: "serve_ctx \<Rightarrow> stat \<Rightarrow> int \<Rightarrow> serve \<Rightarrow> serve_out \<times> serve" where
  "serve_after c st fd s =
     (if fd \<ge> 0 \<and> st_kind st = S_IFDIR \<and> \<not> path_ends_with_slash (sc_h1 c) then
        (let s1 = sv_close fd s; loc = location_header (sc_h1 c)
         in if length loc < REQ_TARGET_MAX + 16 then
              (let (ok, s2) = sv_respond RK_301 ''301 Moved Permanently'' None True 0 None 0
                                (want_keepalive (sc_h1 c)) loc s1
               in if ok then (Out_served, s2) else (Out_done (- 1), s2))
            else (Out_done (- 1), s1))
      else (Out_done fd, s))"

definition serve_done :: "serve_out \<times> serve \<Rightarrow> bool \<times> serve" where
  "serve_done r =
     (case r of
        (Out_served, s) \<Rightarrow> (True, s)
      | (Out_done fd, s) \<Rightarrow> (False, if fd \<ge> 0 then sv_close fd s else s)
      | (Out_after fd st, s) \<Rightarrow> (False, if fd \<ge> 0 then sv_close fd s else s))"

definition serve_path :: "serve_ctx \<Rightarrow> int \<Rightarrow> string \<Rightarrow> serve \<Rightarrow> bool \<times> serve" where
  "serve_path c root relpath s =
     (let (fd, s1) = sv_open_target root relpath s
      in if fd < 0 then (False, s1)
         else
           (let (r, s2) = sv_fstat s1
            in case r of
                 None \<Rightarrow> serve_done (Out_done fd, s2)
               | Some st \<Rightarrow>
                   (let (out, s3) = (if regular_ok st then serve_regular c root relpath st fd s2
                                     else (Out_after fd st, s2))
                    in case out of
                         Out_after fd' st' \<Rightarrow> serve_done (serve_after c st' fd' s3)
                       | _ \<Rightarrow> serve_done (out, s3))))"

definition static_serve_try_prepare_docroot_response :: "serve_ctx \<Rightarrow> int \<Rightarrow> serve \<Rightarrow> bool \<times> serve" where
  "static_serve_try_prepare_docroot_response c root s =
     (if root < 0 then (False, s)
      else
        (let idx = (case sc_vhost c of None \<Rightarrow> [] | Some vh \<Rightarrow> index_file vh)
         in case static_serve_build_docroot_relpath (h1_path (sc_h1 c)) (path_ends_with_slash (sc_h1 c)) idx of
              None \<Rightarrow> (False, s)
            | Some relpath \<Rightarrow> serve_path c root relpath s))"

end
