(* ===== verification/Request_Dispatch.thy ===== *)
theory Request_Dispatch
  imports Static_Serve Http_Pipeline
begin

text \<open>
  \<^verbatim>\<open>request_dispatch_ok\<close> of \<^verbatim>\<open>src/src/request_handlers.c\<close>: a complete request goes through the CORS
  preflight, the routing decision, authentication and the document root; what remains is answered by
  a fixed response. The test echo compiled in by \<open>ENABLE_ITEST_ECHO\<close> is left out.
\<close>

datatype request_ok_dispatch_kind = REQUEST_OK_NO_RESPONSE | REQUEST_OK_TX_BUFFER | REQUEST_OK_HEADER_RESPONSE

record request_ok_dispatch =
  dispatch_kind :: request_ok_dispatch_kind
  dispatch_response :: "request_response_plan option"

text \<open>A step that may build a head takes a time and a block from the world.\<close>

definition sv_step ::
    "(nat option \<Rightarrow> nat option \<Rightarrow> tx_state_t \<Rightarrow> date_cache \<Rightarrow> int \<times> (tx_state_t \<times> date_cache) \<times> eff list) \<Rightarrow>
     serve \<Rightarrow> int \<times> serve" where
  "sv_step f s =
     (let (now, w1) = os_time (sv_os s);
          (mem, w2) = os_malloc w1;
          (r, (tx, g), es) = f mem now (sv_tx s) (sv_date s)
      in (r, s\<lparr>sv_os := os_eff es w2, sv_tx := tx, sv_date := g\<rparr>))"

definition tx_buffer :: request_ok_dispatch where
  "tx_buffer = \<lparr>dispatch_kind = REQUEST_OK_TX_BUFFER, dispatch_response = None\<rparr>"

definition header_response :: "request_response_plan \<Rightarrow> request_ok_dispatch" where
  "header_response p = \<lparr>dispatch_kind = REQUEST_OK_HEADER_RESPONSE, dispatch_response = Some p\<rparr>"

definition terminal_response :: "serve_ctx \<Rightarrow> request_route_plan \<Rightarrow> int \<Rightarrow> request_ok_dispatch" where
  "terminal_response c route err =
     header_response
       (request_build_route_apply_plan (sc_vhost c) (sc_h1 c)
          (request_build_static_outcome route (request_static_open_err_finalize err)))"

definition request_dispatch_ok ::
    "(string \<Rightarrow> string \<Rightarrow> string option) \<Rightarrow> serve_ctx \<Rightarrow> serve \<Rightarrow> request_ok_dispatch \<times> serve" where
  "request_dispatch_ok crypt c s =
     (let (preflight, s1) = sv_step (\<lambda>mem now. request_try_cors_preflight mem now (sc_vhost c) (sc_h1 c)) s
      in if preflight > 0 then (tx_buffer, s1)
         else if preflight < 0 then (header_response (request_build_response_plan RK_500 False False True), s1)
         else
           (let route = request_build_route_plan (sc_vhost c) (sc_h1 c);
                (auth, s2) = sv_step (\<lambda>mem now. request_check_effective_auth crypt mem now (sc_vhost c) (sc_h1 c)) s1
            in if auth > 0 then (tx_buffer, s2)
               else if auth < 0 then (header_response (request_build_response_plan RK_500 False False True), s2)
               else if try_static route then
                 (case sc_vhost c of
                    None \<Rightarrow> (terminal_response c route 0, s2)
                  | Some vh \<Rightarrow>
                      (let (served, s3) = static_serve_try_prepare_docroot_response c (docroot_fd vh)
                                            (s2\<lparr>sv_open_err := 0\<rparr>)
                       in if served then (tx_buffer, s3) else (terminal_response c route (sv_open_err s3), s3)))
               else (terminal_response c route 0, s2)))"

end
