(* ===== verification/Static_Safety.thy ===== *)
theory Static_Safety
  imports Request_Dispatch
begin

unbundle bit_operations_syntax

text \<open>
  What serving files does to the outside world, read off the record of system calls: no path leads
  out of the document root, descriptors are neither lost nor closed twice, and no file is touched
  for a request that is not authorised.
\<close>

section \<open>Traces of system calls\<close>

definition good_component :: "string \<Rightarrow> bool" where
  "good_component n \<longleftrightarrow> n \<noteq> [] \<and> CHR ''/'' \<notin> set n \<and> n \<noteq> ''.'' \<and> n \<noteq> ''..'' \<and> length n \<le> NAME_MAX"

text \<open>
  \<open>confined root live tr\<close>: every \<open>openat\<close> of the trace names a single ordinary component, relative to
  the document root or to a directory that was itself opened this way and is still open (\<open>live\<close>).
\<close>

fun confined :: "int \<Rightarrow> int list \<Rightarrow> sys_call list \<Rightarrow> bool" where
  "confined root live [] \<longleftrightarrow> True"
| "confined root live (Sys_openat d n isdir r # cs) \<longleftrightarrow>
     (d = root \<or> d \<in> set live) \<and> good_component n \<and>
     confined root (if isdir \<and> r \<ge> 0 then r # live else removeAll r live) cs"
| "confined root live (Sys_eff (Close_fd fd) # cs) \<longleftrightarrow> confined root (removeAll fd live) cs"
| "confined root live (Sys_eff (Free p) # cs) \<longleftrightarrow> confined root live cs"

text \<open>A new descriptor is none of the two in use: the root and the directory of the call.\<close>

definition fresh_fds :: "int \<Rightarrow> sys_call list \<Rightarrow> bool" where
  "fresh_fds root = list_all (\<lambda>c. case c of Sys_openat d n b r \<Rightarrow> r \<noteq> d \<and> r \<noteq> root | Sys_eff e \<Rightarrow> True)"

text \<open>Openings minus closings of a descriptor.\<close>

fun net :: "int \<Rightarrow> sys_call list \<Rightarrow> int" where
  "net k [] = 0"
| "net k (Sys_openat d n b r # cs) = of_bool (r = k) + net k cs"
| "net k (Sys_eff (Close_fd fd) # cs) = net k cs - of_bool (fd = k)"
| "net k (Sys_eff (Free p) # cs) = net k cs"

lemma net_append [simp]: "net k (xs @ ys) = net k xs + net k ys"
  by (induction k xs rule: net.induct) auto

lemma confined_mono: "confined root live cs \<Longrightarrow> set live \<subseteq> set live' \<Longrightarrow> confined root live' cs"
proof (induction root live cs arbitrary: live' rule: confined.induct)
  case (2 root live d n isdir r cs)
  let ?l = "if isdir \<and> r \<ge> 0 then r # live else removeAll r live"
  let ?l' = "if isdir \<and> r \<ge> 0 then r # live' else removeAll r live'"
  have "confined root ?l' cs"
  proof (rule "2.IH")
    show "confined root ?l cs" using "2.prems"(1) by simp
    show "set ?l \<subseteq> set ?l'" using "2.prems"(2) by (cases "isdir \<and> r \<ge> 0") auto
  qed
  moreover have "d = root \<or> d \<in> set live'" "good_component n"
    using "2.prems" by auto
  ultimately show ?case by simp
next
  case (3 root live fd cs)
  have "set (removeAll fd live) \<subseteq> set (removeAll fd live')" using "3.prems"(2) by auto
  then show ?case using 3 by simp
qed auto

lemma confined_append:
  "confined root live xs \<Longrightarrow> confined root [] ys \<Longrightarrow> confined root live (xs @ ys)"
  by (induction root live xs rule: confined.induct) (auto intro: confined_mono)

lemma confined_eff: "confined root live (map Sys_eff es)"
proof (induction es arbitrary: live)
  case (Cons e es)
  then show ?case by (cases e) auto
qed simp

lemma fresh_fds_append [simp]: "fresh_fds root (xs @ ys) \<longleftrightarrow> fresh_fds root xs \<and> fresh_fds root ys"
  by (simp add: fresh_fds_def)

lemma fresh_fds_Nil [simp]: "fresh_fds root []"
  by (simp add: fresh_fds_def)

definition tame :: "int \<Rightarrow> os_state \<Rightarrow> os_state \<Rightarrow> bool" where
  "tame root w w' \<longleftrightarrow> (\<exists>tr. os_calls w' = os_calls w @ tr \<and> (fresh_fds root tr \<longrightarrow> confined root [] tr))"

lemma tame_refl [simp]: "tame root w w"
  by (simp add: tame_def)

lemma tame_trans: "tame root w w1 \<Longrightarrow> tame root w1 w2 \<Longrightarrow> tame root w w2"
  unfolding tame_def by (fastforce intro: confined_append)

lemma tame_same_calls: "os_calls w1 = os_calls w2 \<Longrightarrow> tame root w w1 \<longleftrightarrow> tame root w w2"
  by (simp add: tame_def)

lemma tame_eff: "tame root w w' \<Longrightarrow> tame root w (os_eff es w')"
  by (rule tame_trans, assumption) (auto simp: tame_def os_eff_def confined_eff)

section \<open>The walk below the root\<close>

lemma open_walk_step:
  assumes "open_walk root cur p w = (fd, w')" "\<not> root < 0"
  shows "(\<exists>e. (fd, w') = walk_fail root cur e w) \<or>
    (\<exists>seg rest nxt w1. good_component seg \<and> os_openat cur seg True w = (nxt, w1) \<and>
      (if nxt < 0 then (fd, w') = (- 1, close_unless_root root cur w1)
       else length rest < length p \<and> open_walk root nxt rest (close_unless_root root cur w1) = (fd, w'))) \<or>
    (\<exists>seg w1. good_component seg \<and> os_openat cur seg False w = (fd, w1) \<and> w' = close_unless_root root cur w1)"
proof -
  define p1 where "p1 = dropWhile (\<lambda>c. c = CHR ''/'') p"
  define seg where "seg = takeWhile (\<lambda>c. c \<noteq> CHR ''/'') p1"
  define rest where "rest = dropWhile (\<lambda>c. c \<noteq> CHR ''/'') p1"
  have eq: "(fd, w') = (if p1 = [] then walk_fail root cur EINVAL w
         else if length seg > NAME_MAX then walk_fail root cur ENAMETOOLONG w
               else if seg = ''.'' \<or> seg = ''..'' then walk_fail root cur EACCES w
               else if rest \<noteq> [] then
                 (let (nxt, w1) = os_openat cur seg True w;
                      w2 = close_unless_root root cur w1
                  in if nxt < 0 then (- 1, w2) else open_walk root nxt (tl rest) w2)
               else
                 (let (fd, w1) = os_openat cur seg False w in (fd, close_unless_root root cur w1)))"
    unfolding assms(1) [symmetric] by (subst open_walk.simps) (simp only: p1_def seg_def rest_def Let_def)
  have good: "good_component seg" if n: "p1 \<noteq> []" "\<not> length seg > NAME_MAX" "\<not> (seg = ''.'' \<or> seg = ''..'')"
  proof -
    obtain c cs where p1: "p1 = c # cs" using n(1) by (cases p1) auto
    then have "c \<noteq> CHR ''/''" using hd_dropWhile [of "\<lambda>c. c = CHR ''/''" p] n(1) by (simp add: p1_def)
    then have "seg \<noteq> []" by (simp add: seg_def p1)
    moreover have "CHR ''/'' \<notin> set seg" by (auto simp: seg_def dest: set_takeWhileD)
    ultimately show ?thesis using n by (simp add: good_component_def)
  qed
  have "length rest \<le> length p1" "length p1 \<le> length p"
    by (simp_all add: rest_def p1_def length_dropWhile_le)
  then have less: "rest \<noteq> [] \<Longrightarrow> length (tl rest) < length p" by (cases rest) auto
  show ?thesis
  proof (cases "p1 = [] \<or> length seg > NAME_MAX \<or> seg = ''.'' \<or> seg = ''..''")
    case True
    then show ?thesis using eq by (auto split: if_splits)
  next
    case False
    note g = good
    show ?thesis
    proof (cases "rest = []")
      case True
      with False eq g show ?thesis by (auto simp: Let_def split: prod.splits)
    next
      case r: False
      obtain nxt w1 where o: "os_openat cur seg True w = (nxt, w1)" by fastforce
      have "if nxt < 0 then (fd, w') = (- 1, close_unless_root root cur w1)
       else length (tl rest) < length p \<and> open_walk root nxt (tl rest) (close_unless_root root cur w1) = (fd, w')"
        using False eq r o less by (simp add: Let_def split: if_splits)
      with False g o show ?thesis by blast
    qed
  qed
qed

lemma os_openat_calls:
  assumes "os_openat d n b w = (fd, w1)"
  shows "\<exists>r. os_calls w1 = os_calls w @ [Sys_openat d n b r] \<and> fd = (if r \<ge> 0 then r else - 1)"
  using assms by (auto simp: os_openat_def Let_def split: if_splits)

lemma close_unless_root_calls:
  "os_calls (close_unless_root root cur w) = os_calls w @ (if cur = root then [] else [Sys_eff (Close_fd cur)])"
  by (simp add: close_unless_root_def os_close_def os_eff_def)

lemma open_walk_calls:
  assumes "open_walk root cur p w = (fd, w')" "root \<ge> 0" "cur \<ge> 0"
  shows "\<exists>tr. os_calls w' = os_calls w @ tr \<and> fd \<ge> - 1 \<and>
    (\<forall>live. fresh_fds root tr \<and> (cur = root \<or> cur \<in> set live) \<longrightarrow> confined root live tr) \<and>
    (\<forall>k. k \<ge> 0 \<and> k \<noteq> root \<longrightarrow> net k tr = of_bool (fd = k) - of_bool (cur = k))"
  using assms
proof (induction "length p" arbitrary: p cur w rule: less_induct)
  case less
  have "\<not> root < 0" using less.prems by simp
  from open_walk_step [OF less.prems(1) this]
  consider (fail) e where "(fd, w') = walk_fail root cur e w"
    | (dir) seg rest nxt w1 where "good_component seg" "os_openat cur seg True w = (nxt, w1)"
        "if nxt < 0 then (fd, w') = (- 1, close_unless_root root cur w1)
         else length rest < length p \<and> open_walk root nxt rest (close_unless_root root cur w1) = (fd, w')"
    | (last) seg w1 where "good_component seg" "os_openat cur seg False w = (fd, w1)"
        "w' = close_unless_root root cur w1"
    by blast
  then show ?case
  proof cases
    case fail
    then show ?thesis by (auto simp: walk_fail_def close_unless_root_calls)
  next
    case last
    obtain r where "os_calls w1 = os_calls w @ [Sys_openat cur seg False r]" "fd = (if r \<ge> 0 then r else - 1)"
      using os_openat_calls [OF last(2)] by blast
    with last show ?thesis by (auto simp: close_unless_root_calls)
  next
    case dir
    obtain r where c: "os_calls w1 = os_calls w @ [Sys_openat cur seg True r]" "nxt = (if r \<ge> 0 then r else - 1)"
      using os_openat_calls [OF dir(2)] by blast
    let ?head = "Sys_openat cur seg True r # (if cur = root then [] else [Sys_eff (Close_fd cur)])"
    show ?thesis
    proof (cases "nxt < 0")
      case True
      with dir c show ?thesis by (auto simp: close_unless_root_calls split: if_splits)
    next
      case False
      with dir have "length rest < length p" "open_walk root nxt rest (close_unless_root root cur w1) = (fd, w')"
        by auto
      from less.hyps [OF this(1) this(2) less.prems(2)] False obtain tr where
        tr: "os_calls w' = os_calls (close_unless_root root cur w1) @ tr" "fd \<ge> - 1"
        and conf: "\<And>live. fresh_fds root tr \<Longrightarrow> nxt = root \<or> nxt \<in> set live \<Longrightarrow> confined root live tr"
        and n: "\<And>k. k \<ge> 0 \<Longrightarrow> k \<noteq> root \<Longrightarrow> net k tr = of_bool (fd = k) - of_bool (nxt = k)"
        by auto
      have "os_calls w' = os_calls w @ (?head @ tr)" using tr c by (simp add: close_unless_root_calls)
      moreover have "confined root live (?head @ tr)"
        if "fresh_fds root (?head @ tr)" "cur = root \<or> cur \<in> set live" for live
      proof -
        have "fresh_fds root tr" "r \<noteq> cur" "r \<ge> 0" "nxt = r" using that c False
          by (auto simp: fresh_fds_def split: if_splits)
        then show ?thesis using that(2) dir(1) conf by auto
      qed
      moreover have "net k (?head @ tr) = of_bool (fd = k) - of_bool (cur = k)" if "k \<ge> 0" "k \<noteq> root" for k
        using n [OF that] c that False by auto
      ultimately show ?thesis using tr(2) by blast
    qed
  qed
qed

section \<open>The balance of descriptors\<close>

text \<open>
  \<open>bal k s\<close>: how often the descriptor \<open>k\<close> was opened and not closed, not counting the one the
  transmit state has taken over. Local variables of the code hold the rest.
\<close>

definition bal :: "int \<Rightarrow> serve \<Rightarrow> int" where
  "bal k s = net k (os_calls (sv_os s)) - of_bool (file_fd (sv_tx s) = k)"

lemma bal_close [simp]: "bal k (sv_close fd s) = bal k s - of_bool (fd = k)"
  by (simp add: bal_def sv_close_def os_close_def os_eff_def)

lemma bal_free [simp]: "bal k (sv_free p s) = bal k s"
  by (simp add: bal_def sv_free_def os_eff_def)

lemma tame_close [intro!]: "tame root w (sv_os s) \<Longrightarrow> tame root w (sv_os (sv_close fd s))"
  by (simp add: sv_close_def os_close_def tame_eff)

lemma tame_free [intro!]: "tame root w (sv_os s) \<Longrightarrow> tame root w (sv_os (sv_free p s))"
  by (simp add: sv_free_def tame_eff)

lemma openat_beneath_calls:
  assumes "static_serve_openat_beneath_nofollow root p w = (fd, w')"
  shows "\<exists>tr. os_calls w' = os_calls w @ tr \<and> fd \<ge> - 1 \<and> (fresh_fds root tr \<longrightarrow> confined root [] tr) \<and>
    (\<forall>k. k \<ge> 0 \<and> k \<noteq> root \<longrightarrow> net k tr = of_bool (fd = k))"
proof (cases "root < 0 \<or> p = [] \<or> hd p = CHR ''/''")
  case True
  then show ?thesis using assms by (auto simp: static_serve_openat_beneath_nofollow_def split: if_splits)
next
  case False
  then have "open_walk root root p w = (fd, w')" "root \<ge> 0"
    using assms by (simp_all add: static_serve_openat_beneath_nofollow_def)
  from open_walk_calls [OF this this(2)] obtain tr where "os_calls w' = os_calls w @ tr" "fd \<ge> - 1"
    and conf: "\<forall>live. fresh_fds root tr \<and> (root = root \<or> root \<in> set live) \<longrightarrow> confined root live tr"
    and net: "\<forall>k. k \<ge> 0 \<and> k \<noteq> root \<longrightarrow> net k tr = of_bool (fd = k) - of_bool (root = k)"
    by blast
  moreover have "fresh_fds root tr \<longrightarrow> confined root [] tr" using conf by blast
  moreover have "\<forall>k. k \<ge> 0 \<and> k \<noteq> root \<longrightarrow> net k tr = of_bool (fd = k)" using net by auto
  ultimately show ?thesis by blast
qed

lemma openat_beneath_mallocs:
  "os_mallocs (snd (open_walk root cur p w)) = os_mallocs w"
proof (induction root cur p w rule: open_walk.induct)
  case (1 root cur p w)
  show ?case
    by (subst open_walk.simps)
      (auto simp: Let_def walk_fail_def close_unless_root_def os_close_def os_eff_def os_openat_def 1
        split: prod.splits if_splits list.splits)
qed

lemma sv_open_fd: "fst (sv_open root p s) \<ge> - 1"
  using openat_beneath_calls [of root p "sv_os s"]
  by (cases "static_serve_openat_beneath_nofollow root p (sv_os s)") (auto simp: sv_open_def)

lemma sv_open_bal [simp]:
  assumes "k \<ge> 0" "k \<noteq> root"
  shows "bal k (snd (sv_open root p s)) = bal k s + of_bool (fst (sv_open root p s) = k)"
  using openat_beneath_calls [of root p "sv_os s"] assms
  by (cases "static_serve_openat_beneath_nofollow root p (sv_os s)") (auto simp: sv_open_def bal_def)

lemma sv_open_tame [intro!]:
  assumes "tame root w (sv_os s)"
  shows "tame root w (sv_os (snd (sv_open root p s)))"
proof -
  obtain fd w' where o: "static_serve_openat_beneath_nofollow root p (sv_os s) = (fd, w')" by fastforce
  then have "tame root (sv_os s) w'" using openat_beneath_calls [OF o] by (auto simp: tame_def)
  then show ?thesis using tame_trans [OF assms] o by (simp add: sv_open_def)
qed

lemma sv_open_mallocs [simp]: "os_mallocs (sv_os (snd (sv_open root p s))) = os_mallocs (sv_os s)"
  by (simp add: sv_open_def static_serve_openat_beneath_nofollow_def openat_beneath_mallocs case_prod_beta)

lemma sv_open_tx [simp]: "sv_tx (snd (sv_open root p s)) = sv_tx s"
  by (simp add: sv_open_def split: prod.splits)

lemma sv_open_target_facts [simp]:
  "fst (sv_open_target root p s) = fst (sv_open root p s)"
  "bal k (snd (sv_open_target root p s)) = bal k (snd (sv_open root p s))"
  "os_mallocs (sv_os (snd (sv_open_target root p s))) = os_mallocs (sv_os s)"
  by (simp_all add: sv_open_target_def bal_def case_prod_beta Let_def)

lemma sv_open_target_tame [intro!]:
  "tame root w (sv_os s) \<Longrightarrow> tame root w (sv_os (snd (sv_open_target root p s)))"
  using sv_open_tame [of root w s p] by (simp add: sv_open_target_def case_prod_beta Let_def)

lemma sv_fstat_facts [simp]:
  "bal k (snd (sv_fstat s)) = bal k s"
  "os_mallocs (sv_os (snd (sv_fstat s))) = os_mallocs (sv_os s)"
  "tame root w (sv_os (snd (sv_fstat s))) = tame root w (sv_os s)"
  by (simp_all add: sv_fstat_def os_fstat_def bal_def tame_def)

lemma sv_close_mallocs [simp]: "os_mallocs (sv_os (sv_close fd s)) = os_mallocs (sv_os s)"
  by (simp add: sv_close_def os_close_def os_eff_def)

lemma tx_build_headers_effects:
  assumes "tx_build_headers mem now st ct ecl cl body n ka drain extra tx g = (r, (tx', g'), es)"
  shows "file_fd tx' = file_fd tx \<and> net k (map Sys_eff es) = 0"
  using assms
  by (auto simp: tx_build_headers_def free_dyn_def Let_def split: if_splits option.splits prod.splits)

lemma sv_build_bal [simp]:
  "bal k (snd (sv_build st ct ecl cl body n ka drain extra s)) = bal k s"
proof -
  obtain now w1 mem w2 where w: "os_time (sv_os s) = (now, w1)" "os_malloc w1 = (mem, w2)" by fastforce
  obtain r tx g es where b: "tx_build_headers mem now st ct ecl cl body n ka drain extra (sv_tx s) (sv_date s) = (r, (tx, g), es)"
    by (metis prod.collapse)
  have "os_calls w2 = os_calls (sv_os s)" using w by (auto simp: os_time_def os_malloc_def)
  then show ?thesis using w b tx_build_headers_effects [OF b, of k] by (simp add: sv_build_def bal_def os_eff_def)
qed

lemma sv_build_tame [intro!]:
  assumes "tame root w (sv_os s)"
  shows "tame root w (sv_os (snd (sv_build st ct ecl cl body n ka drain extra s)))"
proof -
  obtain now w1 mem w2 where w: "os_time (sv_os s) = (now, w1)" "os_malloc w1 = (mem, w2)" by fastforce
  then have "os_calls w2 = os_calls (sv_os s)" by (auto simp: os_time_def os_malloc_def)
  then have "tame root w w2" using assms by (simp add: tame_def)
  then show ?thesis using w by (simp add: sv_build_def tame_eff case_prod_beta)
qed

lemma sv_begin_facts [simp]:
  "sv_os (sv_begin rk buf ka drain s) = sv_os s"
  "bal k (sv_begin rk buf ka drain s) = bal k s"
  by (simp_all add: sv_begin_def bal_def tx_begin_headers_def case_prod_beta)

lemma sv_respond_bal [simp]: "bal k (snd (sv_respond rk st ct ecl cl body n ka extra s)) = bal k s"
  by (simp add: sv_respond_def case_prod_beta split: option.split)

lemma sv_respond_tame [intro!]:
  "tame root w (sv_os s) \<Longrightarrow> tame root w (sv_os (snd (sv_respond rk st ct ecl cl body n ka extra s)))"
  by (auto simp: sv_respond_def case_prod_beta split: option.split)

lemma dynamic_response_bal [simp]:
  "bal k (snd (static_serve_tx_set_dynamic_response_ex st ct cl body n ka extra s)) = bal k s"
  by (simp add: static_serve_tx_set_dynamic_response_ex_def)

lemma dynamic_response_tame [intro!]:
  "tame root w (sv_os s) \<Longrightarrow> tame root w (sv_os (snd (static_serve_tx_set_dynamic_response_ex st ct cl body n ka extra s)))"
  by (simp add: static_serve_tx_set_dynamic_response_ex_def sv_respond_tame)

lemma staged_open_bal [simp]:
  assumes "k \<ge> 0"
  shows "bal k (snd (staged_open fd off len s)) = bal k s - of_bool (fst (staged_open fd off len s) \<and> fd = k)"
  using assms by (auto simp: staged_open_def tx_attach_sendfile_def tx_close_attached_file_def bal_def os_eff_def Let_def)

lemma staged_open_tame [intro!]:
  "tame root w (sv_os s) \<Longrightarrow> tame root w (sv_os (snd (staged_open fd off len s)))"
  by (simp add: staged_open_def case_prod_beta tame_eff Let_def)

section \<open>The branches of the serving function\<close>

fun out_holds :: "int \<Rightarrow> serve_out \<Rightarrow> bool" where
  "out_holds k Out_served \<longleftrightarrow> False"
| "out_holds k (Out_done fd) \<longleftrightarrow> fd = k"
| "out_holds k (Out_after fd st) \<longleftrightarrow> fd = k"

text \<open>A branch that holds \<open>fd\<close> is sound if it accounts for it and stays confined.\<close>

definition sound_branch :: "int \<Rightarrow> int \<Rightarrow> serve \<Rightarrow> serve_out \<times> serve \<Rightarrow> bool" where
  "sound_branch root fd s r \<longleftrightarrow>
     tame root (sv_os s) (sv_os (snd r)) \<and>
     (\<forall>k. k \<ge> 0 \<and> k \<noteq> root \<longrightarrow> bal k (snd r) = bal k s - of_bool (fd = k) + of_bool (out_holds k (fst r)))"

lemma os_calls_unchanged [simp]:
  "os_calls (snd (os_malloc w)) = os_calls w"
  "os_calls (snd (os_lseek w)) = os_calls w"
  "os_calls (snd (os_read_all n w)) = os_calls w"
  by (simp_all add: os_malloc_def os_lseek_def os_read_all_def case_prod_beta Let_def)

lemma bal_world [simp]: "os_calls w = os_calls (sv_os s) \<Longrightarrow> bal k (s\<lparr>sv_os := w\<rparr>) = bal k s"
  by (simp add: bal_def)

lemma tame_world [simp]:
  "tame root w (snd (os_malloc w1)) = tame root w w1"
  "tame root w (snd (os_lseek w1)) = tame root w w1"
  "tame root w (snd (os_read_all n w1)) = tame root w w1"
  by (simp_all add: tame_def)

lemma sound_branchI:
  assumes "tame root (sv_os s) (sv_os s')"
    "\<And>k. k \<ge> 0 \<Longrightarrow> k \<noteq> root \<Longrightarrow> bal k s' = bal k s - of_bool (fd = k) + of_bool (out_holds k out)"
  shows "sound_branch root fd s (out, s')"
  using assms by (simp add: sound_branch_def)

definition opt_holds :: "int \<Rightarrow> int option \<Rightarrow> bool" where
  "opt_holds k r = (case r of None \<Rightarrow> False | Some fd \<Rightarrow> fd = k)"

lemma range_buffered_sound:
  "tame root w (sv_os s) \<Longrightarrow> tame root w (sv_os (snd (range_buffered ct extra len keep fd s)))"
  "k \<ge> 0 \<Longrightarrow> bal k (snd (range_buffered ct extra len keep fd s)) =
     bal k s - of_bool (fd = k) + of_bool (opt_holds k (fst (range_buffered ct extra len keep fd s)))"
  by (auto simp: range_buffered_def opt_holds_def case_prod_beta Let_def split: option.split)

lemma range_sendfile_sound:
  "sound_branch root fd s (range_sendfile ct extra start len keep fd s)"
  by (auto simp: range_sendfile_def sound_branch_def case_prod_beta Let_def)

lemma serve_unsatisfied_sound:
  "sound_branch root fd s (serve_unsatisfied hdrs fsz keep fd s)"
  by (auto simp: serve_unsatisfied_def sound_branch_def case_prod_beta Let_def)

lemma sound_branch_trans:
  assumes "tame root (sv_os s) (sv_os s1)"
    and "\<And>k. k \<ge> 0 \<Longrightarrow> k \<noteq> root \<Longrightarrow> bal k s1 = bal k s - of_bool (fd = k) + of_bool (fd1 = k)"
    and "sound_branch root fd1 s1 r"
  shows "sound_branch root fd s r"
  using assms tame_trans by (fastforce simp: sound_branch_def)

lemma serve_partial_sound:
  "sound_branch root fd s (serve_partial c root relpath ct hdrs rr fsz keep fd s)"
proof -
  define extra where "extra = take (fst (http_range_format_content_range 128 (rr_start rr) (rr_end rr) (of_nat fsz)))
    (snd (http_range_format_content_range 128 (rr_start rr) (rr_end rr) (of_nat fsz))) @ hdrs"
  define len where "len = unat (rr_length rr)"
  define st where "st = unat (rr_start rr)"
  define b where "b = range_buffered ct extra len keep fd s"
  have trivial: "sound_branch root fd s (Out_done fd, s)" by (simp add: sound_branch_def)
  have direct: "sound_branch root fd s (range_sendfile ct extra st len keep fd s)" by (rule range_sendfile_sound)
  have b1: "tame root (sv_os s) (sv_os (snd b))" unfolding b_def by (rule range_buffered_sound(1)) simp
  have b2: "k \<ge> 0 \<Longrightarrow> bal k (snd b) = bal k s - of_bool (fd = k) + of_bool (opt_holds k (fst b))" for k
    unfolding b_def by (rule range_buffered_sound(2))
  have served: "sound_branch root fd s (Out_served, snd b)" if "fst b = None"
    using b1 b2 that by (simp add: sound_branch_def opt_holds_def)
  have failed: "sound_branch root fd s (Out_done f, snd b)" if "fst b = Some f" for f
    using b1 b2 that by (simp add: sound_branch_def opt_holds_def)
  have again: "sound_branch root fd s (range_sendfile ct extra st len keep f (snd b))" if "fst b = Some f" for f
    by (rule sound_branch_trans [OF b1 _ range_sendfile_sound]) (simp add: b2 that opt_holds_def)
  let ?o = "sv_open_target root relpath (snd b)"
  have o1: "tame root (sv_os s) (sv_os (snd ?o))" using b1 by blast
  have o2: "bal k (snd ?o) = bal k s - of_bool (fd = k) + of_bool (fst ?o = k)"
    if "fst b = Some f" "f < 0" "k \<ge> 0" "k \<noteq> root" for f k
    using that b2 [of k] by (simp add: opt_holds_def)
  have reopen: "sound_branch root fd s (Out_done (fst ?o), snd ?o)"
    "sound_branch root fd s (range_sendfile ct extra st len keep (fst ?o) (snd ?o))" if "fst b = Some f" "f < 0" for f
    using o1 o2 [OF that] sound_branch_trans [OF o1 o2 [OF that] range_sendfile_sound]
    by (simp_all add: sound_branch_def del: sv_open_target_facts)
  show ?thesis
    unfolding serve_partial_def case_prod_beta Let_def extra_def [symmetric] len_def [symmetric] st_def [symmetric]
      b_def [symmetric]
    using trivial direct served failed again reopen by (auto split: option.split)
qed

lemma serve_range_sound:
  "serve_range c root relpath ct hdrs etag st fsz keep fd s = Some r \<Longrightarrow> sound_branch root fd s r"
  using serve_unsatisfied_sound serve_partial_sound
  by (auto simp: serve_range_def Let_def split: if_splits option.splits list.splits)

lemma compress_frees:
  "net k (map Sys_eff (snd (snd (compress_gzip z mem src l)))) = 0"
  "net k (map Sys_eff (snd (snd (compress_brotli b mem src l)))) = 0"
  by (simp_all add: compress_gzip_def compress_brotli_def Let_def case_prod_beta split: option.split)

text \<open>What compression leaves alone.\<close>

definition fd_quiet :: "int \<Rightarrow> serve \<Rightarrow> serve \<Rightarrow> bool" where
  "fd_quiet root s s' \<longleftrightarrow> tame root (sv_os s) (sv_os s') \<and> (\<forall>k. k \<ge> 0 \<longrightarrow> bal k s' = bal k s)"

lemma fd_quiet_refl: "fd_quiet root s s"
  by (simp add: fd_quiet_def)

lemma fd_quiet_trans: "fd_quiet root s s1 \<Longrightarrow> fd_quiet root s1 s2 \<Longrightarrow> fd_quiet root s s2"
  unfolding fd_quiet_def using tame_trans by auto

lemma fd_quiet_free: "fd_quiet root s s1 \<Longrightarrow> fd_quiet root s (sv_free p s1)"
  by (auto simp: fd_quiet_def)

lemma fd_quiet_frees: "os_calls w = os_calls (sv_os s) \<Longrightarrow> (\<And>k. net k (map Sys_eff es) = 0) \<Longrightarrow>
    fd_quiet root s (s\<lparr>sv_os := os_eff es w\<rparr>)"
  by (auto simp: fd_quiet_def bal_def os_eff_def tame_def confined_eff)

lemma dyn_one_fd_quiet: "fd_quiet root (snd ds) (snd (dyn_one c level acc enc ds))"
proof -
  obtain d s where ds: "ds = (d, s)" by fastforce
  define mw where "mw = os_malloc (sv_os s)"
  define r where "r = (case sc_brotli c of
                     Some b \<Rightarrow>
                       (if enc = COMP_ENC_BROTLI
                        then compress_brotli b (fst mw) (dy_body d) (if level \<le> 11 then level else 4)
                        else compress_gzip (sc_zlib c) (fst mw) (dy_body d) level)
                   | None \<Rightarrow> compress_gzip (sc_zlib c) (fst mw) (dy_body d) level)"
  have "net k (map Sys_eff (snd (snd r))) = 0" for k
    unfolding r_def using compress_frees by (simp split: option.split)
  then have q: "fd_quiet root s (s\<lparr>sv_os := os_eff (snd (snd r)) (snd mw)\<rparr>)"
    by (intro fd_quiet_frees) (simp_all add: mw_def)
  show ?thesis
    unfolding dyn_one_def ds case_prod_beta Let_def fst_conv snd_conv mw_def [symmetric] r_def [symmetric]
    using q fd_quiet_free [OF q] fd_quiet_refl by (simp split: option.split)
qed

lemma dyn_fold_fd_quiet: "fd_quiet root (snd ds) (snd (fold (dyn_one c level acc) encs ds))"
proof (induction encs arbitrary: ds)
  case (Cons e encs)
  show ?case using fd_quiet_trans [OF dyn_one_fd_quiet Cons.IH] by simp
qed (simp add: fd_quiet_refl)

fun buf_holds :: "int \<Rightarrow> buffered \<Rightarrow> bool" where
  "buf_holds k Buf_served \<longleftrightarrow> False"
| "buf_holds k Buf_abort \<longleftrightarrow> False"
| "buf_holds k (Buf_failed fd n) \<longleftrightarrow> fd = k"

lemma serve_buffered_sound:
  assumes r_def: "r = serve_buffered c acc el ct hdrs senc oenc fsz keep fd s"
  shows "tame root (sv_os s) (sv_os (snd r))"
    "k \<ge> 0 \<Longrightarrow> bal k (snd r) = bal k s - of_bool (fd = k) + of_bool (buf_holds k (fst r))"
    "fst (os_malloc (sv_os s)) \<noteq> None \<Longrightarrow> fst r = Buf_failed f n \<Longrightarrow> f = - 1"
proof -
  define mw where "mw = os_malloc (sv_os s)"
  define gw where "gw = os_read_all fsz (snd mw)"
  define s1 where "s1 = sv_close fd (s\<lparr>sv_os := snd gw\<rparr>)"
  define d0 where "d0 p = \<lparr>dy_ptr = p, dy_body = fst gw, dy_enc = senc\<rparr>" for p
  define ds where "ds p = (if el then fold (dyn_one c (dyn_level c) acc) (try_enc c) (d0 p, s1) else (d0 p, s1))" for p
  have t1: "tame root (sv_os s) (sv_os s1)" unfolding s1_def by (rule tame_close) (simp add: gw_def mw_def)
  have b1: "bal k s1 = bal k s - of_bool (fd = k)" for k
    by (simp add: s1_def gw_def mw_def)
  have q: "fd_quiet root s1 (snd (ds p))" for p
    unfolding ds_def using dyn_fold_fd_quiet [of root "(d0 p, s1)"] fd_quiet_refl by simp
  then have t2: "tame root (sv_os s) (sv_os (snd (ds p)))" and b2: "k \<ge> 0 \<Longrightarrow> bal k (snd (ds p)) = bal k s - of_bool (fd = k)"
    for p k
    using t1 b1 tame_trans unfolding fd_quiet_def by (blast, simp)
  note unf = r_def serve_buffered_def case_prod_beta Let_def mw_def [symmetric] gw_def [symmetric]
    s1_def [symmetric] d0_def [symmetric] ds_def [symmetric]
  show "tame root (sv_os s) (sv_os (snd r))"
    unfolding unf using t1 t2 by (auto simp: mw_def split: option.split)
  show "k \<ge> 0 \<Longrightarrow> bal k (snd r) = bal k s - of_bool (fd = k) + of_bool (buf_holds k (fst r))"
    unfolding unf using b1 b2 by (auto simp: mw_def split: option.split)
  show "fst (os_malloc (sv_os s)) \<noteq> None \<Longrightarrow> fst r = Buf_failed f n \<Longrightarrow> f = - 1"
    unfolding unf by (auto split: option.splits if_splits)
qed

lemma serve_sendfile_sound: "sound_branch root fd s (serve_sendfile ct hdrs fsz keep st fd s)"
  by (auto simp: serve_sendfile_def sound_branch_def case_prod_beta Let_def)

text \<open>
  The buffered branch over plain TCP forgets its descriptor when \<open>malloc\<close> fails; the accounts below
  assume that this first allocation succeeds, confinement does not.
\<close>

definition sound_if :: "bool \<Rightarrow> int \<Rightarrow> int \<Rightarrow> serve \<Rightarrow> serve_out \<times> serve \<Rightarrow> bool" where
  "sound_if ok root fd s r \<longleftrightarrow> tame root (sv_os s) (sv_os (snd r)) \<and> (ok \<longrightarrow> sound_branch root fd s r)"

definition buffer_ok :: "serve_ctx \<Rightarrow> serve \<Rightarrow> bool" where
  "buffer_ok c s \<longleftrightarrow> sc_tls c \<or> fst (os_malloc (sv_os s)) \<noteq> None"

lemma sound_branch_if: "sound_branch root fd s r \<Longrightarrow> sound_if ok root fd s r"
  by (simp add: sound_if_def sound_branch_def)

lemma sound_if_trans:
  assumes "tame root (sv_os s) (sv_os s1)"
    and "\<And>k. k \<ge> 0 \<Longrightarrow> k \<noteq> root \<Longrightarrow> bal k s1 = bal k s - of_bool (fd = k) + of_bool (fd1 = k)"
    and "sound_if ok root fd1 s1 r"
  shows "sound_if ok root fd s r"
  using assms sound_branch_trans [OF assms(1,2)] tame_trans unfolding sound_if_def by blast

lemma serve_full_sound:
  "sound_if (buffer_ok c s) root fd s (serve_full c root relpath ct hdrs acc senc oenc st fsz keep fd s)"
proof -
  define el where "el = dyn_eligible c senc acc ct fsz"
  define b where "b = serve_buffered c acc el ct hdrs senc oenc fsz keep fd s"
  note bs = serve_buffered_sound [OF b_def]
  define h where "h = static_serve_tx_set_dynamic_response_ex ''200 OK'' ct fsz None 0 keep hdrs (sv_close fd s)"
  have h1: "tame root (sv_os s) (sv_os (snd h))" by (auto simp: h_def)
  have h2: "bal k (snd h) = bal k s - of_bool (fd = k)" for k by (simp add: h_def)
  have head: "sound_if ok root fd s (Out_served, snd h)" "sound_if ok root fd s (Out_after (- 1) st, snd h)" for ok
    using h1 h2 by (simp_all add: sound_if_def sound_branch_def)
  have sent: "sound_if ok root fd s (serve_sendfile ct hdrs fsz keep st fd s)" for ok
    by (rule sound_branch_if [OF serve_sendfile_sound])
  have served: "sound_if ok root fd s (Out_served, snd b)" if "fst b = Buf_served" for ok
    using bs(1,2) that by (simp add: sound_if_def sound_branch_def)
  have abort: "sound_if ok root fd s (Out_after (- 1) st, snd b)" if "fst b = Buf_abort" for ok
    using bs(1,2) that by (simp add: sound_if_def sound_branch_def)
  have failed: "sound_if ok root fd s (Out_done f, snd b)" if "fst b = Buf_failed f n" for ok f n
    using bs(1,2) that by (simp add: sound_if_def sound_branch_def)
  let ?o = "sv_open_target root relpath (snd b)"
  have o1: "tame root (sv_os s) (sv_os (snd ?o))" using bs(1) by blast
  have o2: "bal k (snd ?o) = bal k s - of_bool (fd = k) + of_bool (fst ?o = k)"
    if "fst b = Buf_failed f n" "\<not> sc_tls c" "buffer_ok c s" "k \<ge> 0" "k \<noteq> root" for f n k
    using that bs(2) [of k] bs(3) [of f n] by (auto simp: buffer_ok_def)
  have reopen: "sound_if (buffer_ok c s) root fd s (serve_sendfile ct hdrs n keep st (fst ?o) (snd ?o))"
    if f: "fst b = Buf_failed f n" "\<not> sc_tls c" for f n
    using sound_branch_trans [OF o1 o2 [OF f] serve_sendfile_sound] serve_sendfile_sound tame_trans [OF o1]
    unfolding sound_if_def by (blast dest: sound_branch_def [THEN iffD1])
  show ?thesis
    unfolding serve_full_def case_prod_beta Let_def el_def [symmetric] b_def [symmetric] h_def [symmetric]
    using head sent served abort failed reopen
    by (auto split: request_static_serve_mode.split buffered.split)
qed

lemma serve_overflow_sound: "sound_branch root fd s (serve_overflow fd s)"
  by (auto simp: serve_overflow_def sound_branch_def case_prod_beta Let_def split: option.split)

lemma serve_content_sound:
  "sound_if (buffer_ok c s) root fd s (serve_content c root relpath ct acc senc oenc hdrs etag keep st fd s)"
proof -
  have "sound_branch root fd s (Out_served, snd (sv_respond RK_304 l None False 0 None 0 keep hdrs (sv_close fd s)))"
    "sound_branch root fd s (Out_done (- 1), snd (sv_respond RK_304 l None False 0 None 0 keep hdrs (sv_close fd s)))" for l
    by (auto simp: sound_branch_def)
  then show ?thesis
    using sound_branch_if serve_full_sound serve_range_sound
    by (auto simp: serve_content_def case_prod_beta Let_def split: option.split)
qed

section \<open>Compressed siblings and the whole function\<close>

definition probe_sound :: "int \<Rightarrow> probe \<times> serve \<Rightarrow> probe \<times> serve \<Rightarrow> bool" where
  "probe_sound root ps qs \<longleftrightarrow> tame root (sv_os (snd ps)) (sv_os (snd qs)) \<and>
     os_mallocs (sv_os (snd qs)) = os_mallocs (sv_os (snd ps)) \<and>
     (\<forall>k. k \<ge> 0 \<and> k \<noteq> root \<longrightarrow>
        bal k (snd qs) = bal k (snd ps) - of_bool (pr_fd (fst ps) = k) + of_bool (pr_fd (fst qs) = k))"

lemma probe_one_sound: "probe_sound root ps (probe_one root relpath acc enc ps)"
  by (auto simp: probe_sound_def probe_one_def case_prod_beta Let_def split: option.split)

lemma probe_sound_trans: "probe_sound root ps qs \<Longrightarrow> probe_sound root qs rs \<Longrightarrow> probe_sound root ps rs"
  using tame_trans by (auto simp: probe_sound_def)

lemma probe_siblings_sound: "probe_sound root (p, s) (probe_siblings root relpath acc p s)"
  unfolding probe_siblings_def by (rule probe_sound_trans [OF probe_one_sound probe_one_sound])

lemma buffer_ok_cong: "os_mallocs (sv_os s) = os_mallocs (sv_os s') \<Longrightarrow> buffer_ok c s = buffer_ok c s'"
  by (simp add: buffer_ok_def os_malloc_def)

lemma serve_regular_sound:
  "sound_if (buffer_ok c s) root fd s (serve_regular c root relpath st fd s)"
proof -
  let ?ct = "static_serve_mime_type_for_path (Some relpath)"
  define acc where "acc = accepted_encodings c ?ct"
  define p where "p = probe_siblings root relpath acc \<lparr>pr_fd = fd, pr_st = st, pr_enc = 0\<rparr> s"
  have ps: "probe_sound root (\<lparr>pr_fd = fd, pr_st = st, pr_enc = 0\<rparr>, s) p"
    unfolding p_def by (rule probe_siblings_sound)
  then have p1: "tame root (sv_os s) (sv_os (snd p))" and pm: "buffer_ok c (snd p) = buffer_ok c s"
    and p2: "\<And>k. k \<ge> 0 \<Longrightarrow> k \<noteq> root \<Longrightarrow> bal k (snd p) = bal k s - of_bool (fd = k) + of_bool (pr_fd (fst p) = k)"
    using buffer_ok_cong [of "snd p" s c] by (simp_all add: probe_sound_def)
  have pt: "sound_if ok root fd s r" if "sound_if ok root (pr_fd (fst p)) (snd p) r" for ok r
    using sound_if_trans [OF p1 p2 that] by blast
  define ot where "ot = sv_open_target root relpath (sv_close (pr_fd (fst p)) (snd p))"
  define f where "f = sv_fstat (snd ot)"
  have f1: "tame root (sv_os s) (sv_os (snd f))" "tame root (sv_os s) (sv_os (snd ot))"
    using p1 by (auto simp: f_def ot_def)
  have f2: "bal k (snd f) = bal k s - of_bool (fd = k) + of_bool (fst ot = k)"
    "bal k (snd ot) = bal k s - of_bool (fd = k) + of_bool (fst ot = k)" if "k \<ge> 0" "k \<noteq> root" for k
    using p2 [OF that] that by (simp_all add: f_def ot_def)
  have fm: "buffer_ok c (snd f) = buffer_ok c s"
    unfolding pm [symmetric] by (rule buffer_ok_cong) (simp add: f_def ot_def)
  have "sound_if ok root fd s (Out_done (fst ot), snd f)" "sound_if ok root fd s (Out_done (fst ot), snd ot)" for ok
    using f1 f2 by (simp_all add: sound_if_def sound_branch_def)
  moreover have "sound_if (buffer_ok c s) root fd s
    (serve_content c root relpath ?ct acc senc oenc hdrs etag keep st' (fst ot) (snd f))" for senc oenc hdrs etag keep st'
    using sound_if_trans [OF f1(1) f2(1) serve_content_sound [of c]] unfolding fm by blast
  moreover have "sound_if (buffer_ok c s) root fd s
    (serve_content c root relpath ?ct acc senc oenc hdrs etag keep st' (pr_fd (fst p)) (snd p))"
    for senc oenc hdrs etag keep st'
    using pt [OF serve_content_sound [of c]] unfolding pm by blast
  moreover have "sound_if ok root fd s (serve_overflow (pr_fd (fst p)) (snd p))" for ok
    by (rule pt [OF sound_branch_if [OF serve_overflow_sound]])
  ultimately show ?thesis
    unfolding serve_regular_def case_prod_beta Let_def acc_def [symmetric] p_def [symmetric] ot_def [symmetric] f_def [symmetric]
    by (simp split: option.split)
qed

lemma serve_after_sound: "sound_branch root fd s (serve_after c st fd s)"
  by (auto simp: serve_after_def sound_branch_def case_prod_beta Let_def)

text \<open>Leaving the function closes what is still held.\<close>

lemma serve_done_facts:
  "tame root w (sv_os (snd r)) \<Longrightarrow> tame root w (sv_os (snd (serve_done r)))"
  "k \<ge> 0 \<Longrightarrow> bal k (snd (serve_done r)) = bal k (snd r) - of_bool (out_holds k (fst r))"
  by (auto simp: serve_done_def split: prod.split serve_out.split)

lemma serve_done_sound:
  assumes "sound_if ok root fd s r"
  shows "tame root (sv_os s) (sv_os (snd (serve_done r)))"
    "ok \<Longrightarrow> k \<ge> 0 \<Longrightarrow> k \<noteq> root \<Longrightarrow> bal k (snd (serve_done r)) = bal k s - of_bool (fd = k)"
  using assms serve_done_facts(1) [of root "sv_os s" r] serve_done_facts(2) [of k r]
  by (auto simp: sound_if_def sound_branch_def)

lemma serve_tail_sound:
  assumes q: "sound_if ok root fd s q"
  shows "\<exists>q'. sound_if ok root fd s q' \<and>
    (case fst q of Out_after fd' st' \<Rightarrow> serve_done (serve_after c st' fd' (snd q)) | _ \<Rightarrow> serve_done (fst q, snd q)) =
    serve_done q'"
proof (cases "fst q")
  case (Out_after fd' st')
  have "sound_if ok root fd s (serve_after c st' fd' (snd q))"
    using q Out_after serve_after_sound [of root fd' "snd q" c st'] tame_trans
    unfolding sound_if_def sound_branch_def by auto
  then show ?thesis using Out_after by (intro exI [of _ "serve_after c st' fd' (snd q)"]) simp
qed (use q in \<open>cases q, auto\<close>)+

lemma serve_path_sound:
  shows "tame root (sv_os s) (sv_os (snd (serve_path c root rp s))) \<and>
    (buffer_ok c s \<and> k \<ge> 0 \<and> k \<noteq> root \<longrightarrow> bal k (snd (serve_path c root rp s)) = bal k s)"
proof -
  define P where "P r \<longleftrightarrow> tame root (sv_os s) (sv_os (snd r)) \<and>
    (buffer_ok c s \<and> k \<ge> 0 \<and> k \<noteq> root \<longrightarrow> bal k (snd r) = bal k s)" for r :: "bool \<times> serve"
  define ot where "ot = sv_open_target root rp s"
  define f where "f = sv_fstat (snd ot)"
  have f1: "tame root (sv_os s) (sv_os (snd f))" "tame root (sv_os s) (sv_os (snd ot))"
    by (auto simp: f_def ot_def)
  have f2: "bal k (snd f) = bal k s + of_bool (fst ot = k)" "bal k (snd ot) = bal k s + of_bool (fst ot = k)"
    if "k \<ge> 0" "k \<noteq> root"
    using that by (simp_all add: f_def ot_def)
  have fm: "buffer_ok c (snd f) = buffer_ok c s" by (rule buffer_ok_cong) (simp add: f_def ot_def)
  have fin: "P (serve_done q)" if q: "sound_if (buffer_ok c s) root (fst ot) (snd f) q" for q
    using serve_done_sound(1) [OF q] serve_done_sound(2) [OF q, of k] f1 f2 tame_trans unfolding P_def by auto
  have err: "P (False, snd ot)" if "fst ot < 0" using f1 f2 that by (auto simp: P_def)
  have stat_err: "P (serve_done (Out_done (fst ot), snd f))"
    by (rule fin) (simp add: sound_if_def sound_branch_def)
  have tail: "P (case fst q of Out_after fd' st' \<Rightarrow> serve_done (serve_after c st' fd' (snd q))
     | _ \<Rightarrow> serve_done (fst q, snd q))" if q: "sound_if (buffer_ok c s) root (fst ot) (snd f) q" for q
    using serve_tail_sound [OF q, of c] fin by auto
  define q where "q st = (if regular_ok st then serve_regular c root rp st (fst ot) (snd f)
    else (Out_after (fst ot) st, snd f))" for st
  have "sound_if (buffer_ok c s) root (fst ot) (snd f) (q st)" for st
    using serve_regular_sound [of c "snd f"] unfolding fm q_def by (simp add: sound_if_def sound_branch_def)
  note reg = tail [OF this]
  show ?thesis
    unfolding serve_path_def case_prod_beta Let_def ot_def [symmetric] f_def [symmetric] q_def [symmetric] P_def [symmetric]
    using err stat_err reg by (simp split: option.split)
qed

lemma static_serve_sound:
  assumes "static_serve_try_prepare_docroot_response c root s = (ok, s')"
  shows "tame root (sv_os s) (sv_os s')"
    and "buffer_ok c s \<Longrightarrow> k \<ge> 0 \<Longrightarrow> k \<noteq> root \<Longrightarrow> bal k s' = bal k s"
proof -
  let ?rp = "static_serve_build_docroot_relpath (h1_path (sc_h1 c)) (path_ends_with_slash (sc_h1 c))
    (case sc_vhost c of None \<Rightarrow> [] | Some vh \<Rightarrow> index_file vh)"
  consider "s' = s" | rp where "?rp = Some rp" "serve_path c root rp s = (ok, s')"
    using assms by (auto simp: static_serve_try_prepare_docroot_response_def Let_def split: if_splits option.splits)
  then have "tame root (sv_os s) (sv_os s') \<and> (buffer_ok c s \<and> k \<ge> 0 \<and> k \<noteq> root \<longrightarrow> bal k s' = bal k s)"
    using serve_path_sound [of root s c _ k] by cases (simp, metis snd_conv)
  then show "tame root (sv_os s) (sv_os s')"
    and "buffer_ok c s \<Longrightarrow> k \<ge> 0 \<Longrightarrow> k \<noteq> root \<Longrightarrow> bal k s' = bal k s"
    by simp_all
qed

section \<open>Dispatching a request\<close>

lemma sv_step_calls: "\<exists>es. os_calls (sv_os (snd (sv_step f s))) = os_calls (sv_os s) @ map Sys_eff es"
  by (auto simp: sv_step_def os_time_def os_malloc_def os_eff_def split: prod.split)

lemma sv_step_tame: "tame root w (sv_os s) \<Longrightarrow> tame root w (sv_os (snd (sv_step f s)))"
  by (rule tame_trans, assumption) (use sv_step_calls [of f s] in \<open>auto simp: tame_def confined_eff\<close>)

definition docroot_of :: "serve_ctx \<Rightarrow> int" where
  "docroot_of c = (case sc_vhost c of None \<Rightarrow> - 1 | Some vh \<Rightarrow> docroot_fd vh)"

lemma dispatch_tame: "tame (docroot_of c) (sv_os s) (sv_os (snd (request_dispatch_ok crypt c s)))"
proof -
  define a where "a = sv_step (\<lambda>mem now. request_try_cors_preflight mem now (sc_vhost c) (sc_h1 c)) s"
  define b where "b = sv_step (\<lambda>mem now. request_check_effective_auth crypt mem now (sc_vhost c) (sc_h1 c)) (snd a)"
  have a: "tame (docroot_of c) (sv_os s) (sv_os (snd a))" unfolding a_def by (rule sv_step_tame) simp
  have b: "tame (docroot_of c) (sv_os s) (sv_os (snd b))" unfolding b_def by (rule sv_step_tame [OF a])
  define d where "d vh = static_serve_try_prepare_docroot_response c (docroot_fd vh) (snd b\<lparr>sv_open_err := 0\<rparr>)" for vh :: vhost_t
  have "tame (docroot_of c) (sv_os (snd b\<lparr>sv_open_err := 0\<rparr>)) (sv_os (snd (d vh)))" if "sc_vhost c = Some vh" for vh
    using static_serve_sound(1) [of c "docroot_fd vh" "snd b\<lparr>sv_open_err := 0\<rparr>" "fst (d vh)" "snd (d vh)"] that
    by (simp add: docroot_of_def d_def)
  then have d: "tame (docroot_of c) (sv_os s) (sv_os (snd (d vh)))" if "sc_vhost c = Some vh" for vh
    using that tame_trans [OF b] by simp
  show ?thesis
    unfolding request_dispatch_ok_def case_prod_beta Let_def a_def [symmetric] b_def [symmetric] d_def [symmetric]
    using a b d by (simp split: option.split)
qed

text \<open>
  C1: whatever a request asks for, the server opens nothing outside the document root. For every
  request and every sequence of results of the operating system, each \<open>openat\<close> made while the
  request is dispatched names one path component that is not empty, not \<open>.\<close>, not \<open>..\<close> and
  without a slash, relative to the document root or to a directory below it that was opened in
  the same way and has not been closed since. The kernel is trusted not to hand out a descriptor
  that is in use.
\<close>

theorem dispatch_confined:
  assumes "request_dispatch_ok crypt c s = (r, s')"
  shows "\<exists>tr. os_calls (sv_os s') = os_calls (sv_os s) @ tr \<and>
    (fresh_fds (docroot_of c) tr \<longrightarrow> confined (docroot_of c) [] tr)"
  using dispatch_tame [of c s crypt] assms by (simp add: tame_def)

definition sample_path :: "string \<Rightarrow> http1_state" where
  "sample_path p = h1_zero\<lparr>h1_method := HTTP_GET, path_norm := Some p, path_norm_len := length p\<rparr>"

definition sample_site :: "u64 \<Rightarrow> vhost_t" where
  "sample_site feats = (sample_vhost [])\<lparr>features := feats, docroot := ''/srv'', docroot_fd := 3\<rparr>"

definition sample_ctx :: "vhost_t \<Rightarrow> http1_state \<Rightarrow> serve_ctx" where
  "sample_ctx vh h =
     \<lparr>sc_vhost = Some vh, sc_h1 = h, sc_tls = False,
      sc_zlib = \<lparr>deflate_init = \<lambda>l. False, deflate_bound = \<lambda>n. n, deflate_finish = \<lambda>l s n. (False, [])\<rparr>,
      sc_brotli = None\<rparr>"

definition sample_serve :: "nat option list \<Rightarrow> int list \<Rightarrow> stat option list \<Rightarrow> serve" where
  "sample_serve ms opens stats =
     \<lparr>sv_os = \<lparr>os_opens = opens, os_fstats = stats, os_mallocs = ms, os_reads = [],
              os_lseeks = [], os_clock = [], os_errno = 0, os_calls = []\<rparr>,
      sv_tx = tx_init, sv_date = date_cache_empty, sv_open_err = 0\<rparr>"

lemmas sample_defs = sample_path_def sample_site_def sample_ctx_def sample_serve_def sample_vhost_def
  h1_zero_def vhost_zero_def

lemmas dispatch_eval = request_dispatch_ok_def sv_step_def os_time_def os_malloc_def os_eff_def os_close_def
  request_try_cors_preflight_def request_check_effective_auth_def request_build_route_plan_def
  policy_shared_resolve_route_rule_def h1_path_def CFG_FEAT_STATIC_def
  static_serve_try_prepare_docroot_response_def static_serve_build_docroot_relpath_def PATH_MAX_def NAME_MAX_def
  serve_path_def sv_open_target_def sv_open_def static_serve_openat_beneath_nofollow_def open_walk.simps
  os_openat_def close_unless_root_def

theorem dispatch_confined_witness:
  "os_calls (sv_os (snd (request_dispatch_ok sample_crypt (sample_ctx (sample_site CFG_FEAT_STATIC) (sample_path ''/a/b''))
     (sample_serve [Some 1, Some 2] [5, - 2] [])))) =
     [Sys_openat 3 ''a'' True 5, Sys_openat 5 ''b'' False (- 2), Sys_eff (Close_fd 5)] \<and>
   confined 3 [] [Sys_openat 3 ''a'' True 5, Sys_openat 5 ''b'' False (- 2), Sys_eff (Close_fd 5)]"
proof -
  let ?c = "sample_ctx (sample_site CFG_FEAT_STATIC) (sample_path ''/a/b'')"
  let ?s = "sample_serve [Some 1, Some 2] [5, - 2] []"
  let ?tr = "[Sys_openat 3 ''a'' True 5, Sys_openat 5 ''b'' False (- 2), Sys_eff (Close_fd 5)]"
  have calls: "os_calls (sv_os (snd (request_dispatch_ok sample_crypt ?c ?s))) = ?tr"
    by (simp add: dispatch_eval sample_defs Let_def)
  obtain r s' where "request_dispatch_ok sample_crypt ?c ?s = (r, s')" by fastforce
  from dispatch_confined [OF this] calls this show ?thesis
    by (simp add: sample_defs docroot_of_def fresh_fds_def)
qed










text \<open>
  Without that allocation a descriptor is lost: the code opens the file a second time and overwrites
  the first descriptor.
\<close>

lemma buffered_malloc_failure_leaks:
  "os_calls (sv_os (snd (static_serve_try_prepare_docroot_response
       (sample_ctx (sample_site 0) (sample_path ''/a'')) 3
       (sample_serve [None] [5, - 2]
         [Some \<lparr>st_ino = 1, st_size = 3, st_kind = S_IFREG, st_mtim_sec = 0, st_mtim_nsec = 0\<rparr>])))) =
   [Sys_openat 3 ''a'' False 5, Sys_openat 3 ''a'' False (- 2)]"
  by (simp add: dispatch_eval sample_defs sv_fstat_def os_fstat_def serve_done_def sv_close_def Let_def
      regular_ok_def SIZE_MAX_def serve_regular_def static_serve_mime_type_for_path_def last_dot_def
      accepted_encodings_def ctx_feature_def probe_siblings_def probe_one_def
      policy_shared_collect_headers_def collect_security_def collect_cors_def cors_zero_def
      policy_shared_resolve_effective_cors_def policy_shared_resolve_effective_cors_for_route_def
      static_serve_assemble_extra_headers_ex_def serve_content_def
      serve_range_def serve_full_def dyn_eligible_def serve_mode_def request_build_static_serve_plan_def
      serve_buffered_def serve_sendfile_def serve_after_def)

end
