(* ===== verification/Static_Validators.thy ===== *)
theory Static_Validators
  imports Static_Files Tokens
begin

unbundle bit_operations_syntax

text \<open>
  The validators of \<^verbatim>\<open>src/src/static_serve_utils.c\<close> agree with each other: the date parser inverts
  the formatter, an entity tag identifies a version of a file, and the scan of \<open>If-None-Match\<close> is
  the list reading of the header.
\<close>

section \<open>Dates\<close>

lemma pad0_digits: "c \<in> set (pad0 w n) \<Longrightarrow> is_digit c"
  using show_nat_digits by (auto simp: pad0_def Let_def is_digit_def)

lemma pad0_2:
  assumes "n < 100"
  obtains a b where "pad0 2 n = [a, b]" "is_digit a" "is_digit b" "digit_val a * 10 + digit_val b = n"
proof -
  have "length (pad0 2 n) = 2" using assms by (intro length_pad0) simp_all
  then obtain a b where ab: "pad0 2 n = [a, b]"
    by (cases "pad0 2 n"; cases "tl (pad0 2 n)") auto
  moreover have "is_digit a" "is_digit b" using pad0_digits [of _ 2 n] ab by auto
  moreover have "dec_value [a, b] = n" using dec_value_pad0 [of 2 n] ab by simp
  ultimately show thesis using that by (simp add: dec_value_def)
qed

lemma pad0_4:
  assumes "n < 10000"
  obtains a b c d where "pad0 4 n = [a, b, c, d]" "is_digit a" "is_digit b" "is_digit c" "is_digit d"
    "(digit_val a * 10 + digit_val b) * 100 + (digit_val c * 10 + digit_val d) = n"
proof -
  have "length (pad0 4 n) = 4" using assms by (intro length_pad0) simp_all
  then obtain a b c d where ab: "pad0 4 n = [a, b, c, d]"
    by (auto simp: numeral_eq_Suc length_Suc_conv)
  moreover have "is_digit a" "is_digit b" "is_digit c" "is_digit d" using pad0_digits [of _ 4 n] ab by auto
  moreover have "dec_value [a, b, c, d] = n" using dec_value_pad0 [of 4 n] ab by simp
  ultimately show thesis using that [of a b c d] by (simp add: dec_value_def algebra_simps)
qed

lemma month_index_name:
  assumes "m \<le> 11"
  shows "\<exists>a b c. month_names ! m = [a, b, c] \<and> month_index month_names 0 [a, b, c] = Some m"
proof -
  have "\<forall>m\<in>set [0..<12]. month_index month_names 0 (month_names ! m) = Some m \<and> length (month_names ! m) = 3"
    by code_simp
  then have m: "month_index month_names 0 (month_names ! m) = Some m" "length (month_names ! m) = 3"
    using assms by auto
  then obtain a b c where "month_names ! m = [a, b, c]" by (auto simp: numeral_eq_Suc length_Suc_conv)
  with m show ?thesis by auto
qed

lemma day_name_chars:
  assumes "d \<le> 6"
  shows "\<exists>a b c. day_names ! d = [a, b, c] \<and> a \<noteq> NUL \<and> b \<noteq> NUL \<and> c \<noteq> NUL"
proof -
  have "\<forall>d\<in>set [0..<7]. NUL \<notin> set (day_names ! d) \<and> length (day_names ! d) = 3" by code_simp
  then have "NUL \<notin> set (day_names ! d)" "length (day_names ! d) = 3" using assms by auto
  then show ?thesis by (auto simp: numeral_eq_Suc length_Suc_conv)
qed

lemma month_name_no_NUL: "m \<le> 11 \<Longrightarrow> NUL \<notin> set (month_names ! m)"
proof -
  have "\<forall>m\<in>set [0..<12]. NUL \<notin> set (month_names ! m)" by code_simp
  then show "m \<le> 11 \<Longrightarrow> NUL \<notin> set (month_names ! m)" by auto
qed

lemma year_start_sum: "year_start y = int (\<Sum>i<y. year_days i)"
proof -
  have "int (\<Sum>i<y. year_days i) + int ((y + 99) div 100) = int (365 * y + (y + 3) div 4 + (y + 399) div 400)"
    using sum_year_days [of y] by (simp only: of_nat_add [symmetric])
  then show ?thesis unfolding year_start_def by linarith
qed

lemma timegm_c_eq:
  assumes "1970 \<le> y" "1 \<le> d"
  shows "timegm_c y m d h mi s =
    int (timegm \<lparr>tm_year = y - 1900, tm_mon = m, tm_mday = d, tm_wday = w, tm_hour = h, tm_min = mi, tm_sec = s\<rparr>)"
proof -
  have "{..<y} = {..<1970} \<union> {1970..<y}" using assms(1) by auto
  then have "(\<Sum>i<y. year_days i) = (\<Sum>i<1970. year_days i) + (\<Sum>i\<in>{1970..<y}. year_days i)"
    by (simp add: sum.union_disjoint ivl_disj_int)
  then have "year_start y - year_start 1970 = int (\<Sum>i\<in>{1970..<y}. year_days i)"
    unfolding year_start_sum by simp
  then show ?thesis using assms
    by (simp add: timegm_c_def timegm_def days_before_def of_nat_diff algebra_simps)
qed

lemma parse_http_date_text:
  assumes "t < 253402300800"
  shows "static_serve_parse_http_date (http_date_text (gmtime_r t)) = Some (int t)"
proof -
  let ?x = "gmtime_r t"
  note f = gmtime_r_fields [of t] gmtime_r_year [OF assms]
  obtain w0 w1 w2 where w: "day_names ! tm_wday ?x = [w0, w1, w2]" "w0 \<noteq> NUL" "w1 \<noteq> NUL" "w2 \<noteq> NUL"
    using day_name_chars [OF f(1)] by blast
  obtain m0 m1 m2 where m: "month_names ! tm_mon ?x = [m0, m1, m2]"
    "month_index month_names 0 [m0, m1, m2] = Some (tm_mon ?x)"
    using month_index_name [OF f(2)] by blast
  obtain d0 d1 where d: "pad0 2 (tm_mday ?x) = [d0, d1]" "is_digit d0" "is_digit d1"
    "digit_val d0 * 10 + digit_val d1 = tm_mday ?x" using pad0_2 [of "tm_mday ?x"] f by auto
  obtain y0 y1 y2 y3 where y: "pad0 4 (1900 + tm_year ?x) = [y0, y1, y2, y3]" "is_digit y0" "is_digit y1"
    "is_digit y2" "is_digit y3"
    "(digit_val y0 * 10 + digit_val y1) * 100 + (digit_val y2 * 10 + digit_val y3) = 1900 + tm_year ?x"
    by (rule pad0_4 [OF f(10)])
  obtain h0 h1 where h: "pad0 2 (tm_hour ?x) = [h0, h1]" "is_digit h0" "is_digit h1"
    "digit_val h0 * 10 + digit_val h1 = tm_hour ?x" using pad0_2 [of "tm_hour ?x"] f by auto
  obtain i0 i1 where i: "pad0 2 (tm_min ?x) = [i0, i1]" "is_digit i0" "is_digit i1"
    "digit_val i0 * 10 + digit_val i1 = tm_min ?x" using pad0_2 [of "tm_min ?x"] f by auto
  obtain s0 s1 where s: "pad0 2 (tm_sec ?x) = [s0, s1]" "is_digit s0" "is_digit s1"
    "digit_val s0 * 10 + digit_val s1 = tm_sec ?x" using pad0_2 [of "tm_sec ?x"] f by auto
  have "static_serve_parse_http_date (http_date_text ?x) =
    Some (timegm_c (1900 + tm_year ?x) (tm_mon ?x) (tm_mday ?x) (tm_hour ?x) (tm_min ?x) (tm_sec ?x))"
    using f w(2-) m(2) d(2-) y(2-) h(2-) i(2-) s(2-)
    by (simp add: static_serve_parse_http_date_def http_date_text_def w m d y h i s c_at_def two_digits_def)
  also have "\<dots> = Some (int (timegm ?x))"
    using timegm_c_eq [of "1900 + tm_year ?x" "tm_mday ?x" "tm_mon ?x" "tm_hour ?x" "tm_min ?x" "tm_sec ?x" "tm_wday ?x"] f(6,9)
    by (simp add: timegm_def)
  finally show ?thesis using f(8) by simp
qed

section \<open>Entity tags\<close>

definition hex_value :: "string \<Rightarrow> nat" where
  "hex_value = foldl (\<lambda>v c. v * 16 + (if byte c < 58 then byte c - 48 else byte c - 87)) 0"

lemma byte_hex_digit: "n < 16 \<Longrightarrow> byte (hex_digit n) = (if n < 10 then 48 + n else 87 + n)"
  by (simp add: hex_digit_def)

lemma hex_value_snoc: "hex_value (s @ [hex_digit d]) = hex_value s * 16 + d" if "d < 16"
  using that by (simp add: hex_value_def byte_hex_digit)

lemma hex_value_show_hex [simp]: "hex_value (show_hex n) = n"
proof (induction n rule: show_hex.induct)
  case (1 n)
  show ?case
  proof (cases "n < 16")
    case True
    then show ?thesis using hex_value_snoc [of n "[]"] by (subst show_hex.simps) (simp add: hex_value_def)
  next
    case False
    with 1 show ?thesis by (subst show_hex.simps) (simp add: hex_value_snoc)
  qed
qed

lemma show_hex_chars: "c \<in> set (show_hex n) \<Longrightarrow> (48 \<le> byte c \<and> byte c \<le> 57) \<or> (97 \<le> byte c \<and> byte c \<le> 102)"
proof (induction n rule: show_hex.induct)
  case (1 n)
  have d: "m < 16 \<Longrightarrow> (48 \<le> byte (hex_digit m) \<and> byte (hex_digit m) \<le> 57) \<or> (97 \<le> byte (hex_digit m) \<and> byte (hex_digit m) \<le> 102)"
    for m by (simp add: byte_hex_digit)
  show ?case
  proof (cases "n < 16")
    case True
    with 1(2) d show ?thesis by (subst (asm) show_hex.simps) auto
  next
    case False
    then have "c \<in> set (show_hex (n div 16)) \<or> c = hex_digit (n mod 16)"
      using 1(2) by (subst (asm) show_hex.simps) auto
    then show ?thesis using 1(1) [OF False] d [of "n mod 16"] by auto
  qed
qed

lemma show_hex_plain: "CHR ''-'' \<notin> set (show_hex n)" "CHR 0x22 \<notin> set (show_hex n)" "CHR '','' \<notin> set (show_hex n)"
  "HT \<notin> set (show_hex n)" "CHR '' '' \<notin> set (show_hex n)"
  using show_hex_chars [of "CHR ''-''" n] show_hex_chars [of "CHR 0x22" n] show_hex_chars [of "CHR '',''" n]
    show_hex_chars [of HT n] show_hex_chars [of "CHR '' ''" n] by auto

lemma length_show_hex: "n < 16 ^ w \<Longrightarrow> 0 < w \<Longrightarrow> length (show_hex n) \<le> w"
proof (induction w arbitrary: n)
  case (Suc w)
  show ?case
  proof (cases "n < 16")
    case True
    then show ?thesis by (subst show_hex.simps) simp
  next
    case False
    then have "0 < w" using Suc.prems by (cases w) auto
    moreover have "n div 16 < 16 ^ w" using Suc.prems by (simp add: less_mult_imp_div_less mult.commute)
    ultimately show ?thesis using Suc.IH False by (subst show_hex.simps) simp
  qed
qed simp

lemma length_show_hex_u64: "length (show_hex (unat (w :: u64))) \<le> 16"
  using unsigned_less [of w, where ?'a = nat] by (intro length_show_hex) simp_all

definition etag_text :: "stat \<Rightarrow> string" where
  "etag_text st = [CHR 0x22] @ show_hex (unat (st_ino st)) @ ''-'' @ show_hex (unat (of_int (st_size st) :: u64)) @ ''-'' @
     show_hex (unat (mtime_us st)) @ [CHR 0x22]"

lemma format_etag_eq: "static_serve_format_etag 64 st = Some (etag_text st)"
  using length_show_hex_u64 [of "st_ino st"] length_show_hex_u64 [of "of_int (st_size st)"]
    length_show_hex_u64 [of "mtime_us st"]
  by (simp add: static_serve_format_etag_def etag_text_def Let_def)

lemma append_sep_inject:
  assumes "c \<notin> set a" "c \<notin> set b" "a @ c # r = b @ c # s"
  shows "a = b \<and> r = s"
  using assms by (induction a arbitrary: b) (case_tac b; auto)+

lemma etag_text_inject:
  "etag_text st = etag_text st' \<longleftrightarrow>
     st_ino st = st_ino st' \<and> (of_int (st_size st) :: u64) = of_int (st_size st') \<and> mtime_us st = mtime_us st'"
  (is "?l = ?r")
proof
  assume ?l
  then have "show_hex (unat (st_ino st)) @ CHR ''-'' # show_hex (unat (of_int (st_size st) :: u64)) @ CHR ''-'' #
     show_hex (unat (mtime_us st)) @ [CHR 0x22] = show_hex (unat (st_ino st')) @ CHR ''-'' #
     show_hex (unat (of_int (st_size st') :: u64)) @ CHR ''-'' # show_hex (unat (mtime_us st')) @ [CHR 0x22]"
    by (simp add: etag_text_def)
  from append_sep_inject [OF show_hex_plain(1) show_hex_plain(1) this]
  have "show_hex (unat (st_ino st)) = show_hex (unat (st_ino st'))"
    and r: "show_hex (unat (of_int (st_size st) :: u64)) @ CHR ''-'' # show_hex (unat (mtime_us st)) @ [CHR 0x22] =
     show_hex (unat (of_int (st_size st') :: u64)) @ CHR ''-'' # show_hex (unat (mtime_us st')) @ [CHR 0x22]"
    by blast+
  moreover from append_sep_inject [OF show_hex_plain(1) show_hex_plain(1) r]
  have "show_hex (unat (of_int (st_size st) :: u64)) = show_hex (unat (of_int (st_size st') :: u64))"
    "show_hex (unat (mtime_us st)) = show_hex (unat (mtime_us st'))" by auto
  ultimately show ?r by (metis hex_value_show_hex word_unat_eq_iff)
qed (simp add: etag_text_def)

section \<open>\<open>If-None-Match\<close>\<close>

definition is_comma :: "char \<Rightarrow> bool" where
  "is_comma c \<longleftrightarrow> c = CHR '',''"

text \<open>The elements of a comma-separated list, without the whitespace around them.\<close>

definition list_elements :: "string \<Rightarrow> string list" where
  "list_elements v = map (\<lambda>e. trim_right (dropWhile is_ows e)) (split_on is_comma v)"

definition tag_matches :: "string \<Rightarrow> string \<Rightarrow> bool" where
  "tag_matches etag tok \<longleftrightarrow> tok = ''*'' \<or> strip_weak tok = etag"

lemma takeWhile_skip_ows:
  "takeWhile (\<lambda>c. c \<noteq> CHR '','') (dropWhile is_ows p) = dropWhile is_ows (takeWhile (\<lambda>c. c \<noteq> CHR '','') p)"
  "dropWhile (\<lambda>c. c \<noteq> CHR '','') (dropWhile is_ows p) = dropWhile (\<lambda>c. c \<noteq> CHR '','') p"
  by (induction p) (auto simp: is_ows_def)

lemma list_elements_unfold:
  "list_elements p =
     trim_right (dropWhile is_ows (takeWhile (\<lambda>c. c \<noteq> CHR '','') p)) #
     (case dropWhile (\<lambda>c. c \<noteq> CHR '','') p of [] \<Rightarrow> [] | c # r \<Rightarrow> list_elements r)"
proof -
  let ?w = "takeWhile (\<lambda>c. c \<noteq> CHR '','') p" and ?r = "dropWhile (\<lambda>c. c \<noteq> CHR '','') p"
  have "split_on is_comma (?w @ ?r) = (if ?r = [] then [?w] else ?w # split_on is_comma (tl ?r))"
  proof (rule split_on_word)
    show "\<forall>c\<in>set ?w. \<not> is_comma c" by (auto simp: is_comma_def dest: set_takeWhileD)
    show "?r = [] \<or> is_comma (hd ?r)" using hd_dropWhile [of "\<lambda>c. c \<noteq> CHR '',''" p] by (auto simp: is_comma_def)
  qed
  then have "split_on is_comma p = (if ?r = [] then [?w] else ?w # split_on is_comma (tl ?r))"
    by (simp only: takeWhile_dropWhile_id)
  then show ?thesis
    by (cases ?r) (simp_all add: list_elements_def del: dropWhile_eq_Nil_conv)
qed

lemma inm_loop_step:
  "inm_loop (Some e) p =
     (dropWhile is_ows p \<noteq> [] \<and>
      (let tok = trim_right (dropWhile is_ows (takeWhile (\<lambda>c. c \<noteq> CHR '','') p)); rest = dropWhile (\<lambda>c. c \<noteq> CHR '','') p
       in tok = ''*'' \<or> e \<noteq> [] \<and> strip_weak tok = e \<or> rest \<noteq> [] \<and> inm_loop (Some e) (tl rest)))"
  by (subst inm_loop.simps)
    (auto simp: Let_def takeWhile_skip_ows simp del: dropWhile_eq_Nil_conv)

lemma inm_loop_list:
  assumes "e \<noteq> []"
  shows "inm_loop (Some e) p \<longleftrightarrow> (\<exists>tok\<in>set (list_elements p). tag_matches e tok)"
proof (induction "length p" arbitrary: p rule: less_induct)
  case less
  let ?w = "takeWhile (\<lambda>c. c \<noteq> CHR '','') p" and ?r = "dropWhile (\<lambda>c. c \<noteq> CHR '','') p"
  show ?case
  proof (cases "dropWhile is_ows p = []")
    case True
    then have "\<forall>c\<in>set p. is_ows c" by simp
    moreover have "\<not> is_ows (CHR '','')" by (simp add: is_ows_def)
    ultimately have nc: "\<forall>c\<in>set p. c \<noteq> CHR '',''" by blast
    have w: "?w = p" and r: "?r = []" using nc by (simp_all add: takeWhile_eq_all_conv)
    have "list_elements p = [[]]"
      unfolding list_elements_unfold [of p] w r True by (simp add: trim_right_def)
    moreover have "\<not> inm_loop (Some e) p" using True unfolding inm_loop_step [of e p] by blast
    ultimately show ?thesis using assms by (simp add: tag_matches_def strip_weak_def)
  next
    case False
    show ?thesis
    proof (cases ?r)
      case Nil
      then show ?thesis using False assms
        unfolding inm_loop_step [of e p] list_elements_unfold [of p]
        by (simp add: Let_def tag_matches_def del: dropWhile_eq_Nil_conv)
    next
      case (Cons c r)
      then have "length r < length p" using length_dropWhile_le [of "\<lambda>c. c \<noteq> CHR '',''" p] by simp
      from less [OF this] show ?thesis using False assms Cons
        unfolding inm_loop_step [of e p] list_elements_unfold [of p]
        by (simp add: Let_def tag_matches_def del: dropWhile_eq_Nil_conv)
    qed
  qed
qed

text \<open>
  C13: revalidation is exact. For every file time up to the year 9999 both validators exist; the tag
  of another state of a file is the same exactly when inode, size and modification time in
  microseconds agree; a non-empty \<open>If-None-Match\<close> leads to 304 exactly when one element of its
  comma-separated list is \<open>*\<close> or, up to the weakness mark, the current tag; without it, sending
  back the \<open>Last-Modified\<close> date of a state of the file leads to 304 exactly when the file is not
  newer than that state.
\<close>

theorem revalidation_exact:
  assumes "st_mtim_sec st0 < 253402300800"
  shows "\<exists>e e0 d0. static_serve_format_etag 64 st = Some e \<and> static_serve_format_etag 64 st0 = Some e0 \<and>
      static_serve_format_last_modified 64 st0 = Some d0 \<and>
      (e = e0 \<longleftrightarrow> st_ino st = st_ino st0 \<and> (of_int (st_size st) :: u64) = of_int (st_size st0) \<and>
         mtime_us st = mtime_us st0) \<and>
      (\<forall>hdrs v. http_header_find_value hdrs HDR_ID_IF_NONE_MATCH = Some v \<and> v \<noteq> [] \<longrightarrow>
         static_serve_check_not_modified hdrs st (Some e) = (\<exists>tok\<in>set (list_elements v). tag_matches e tok)) \<and>
      (\<forall>hdrs. http_header_find_value hdrs HDR_ID_IF_NONE_MATCH = None \<and>
         http_header_find_value hdrs HDR_ID_IF_MODIFIED_SINCE = Some d0 \<longrightarrow>
         static_serve_check_not_modified hdrs st (Some e) = (st_mtim_sec st \<le> st_mtim_sec st0))"
proof -
  let ?d = "http_date_text (gmtime_r (st_mtim_sec st0))"
  note f = gmtime_r_fields [of "st_mtim_sec st0"]
  have len: "length ?d = 29" by (rule http_date_text_length [OF assms])
  then have d: "static_serve_format_last_modified 64 st0 = Some ?d"
    using f(1,2) by (auto simp: static_serve_format_last_modified_def time_format_http_date_def Let_def)
  have "NUL \<notin> set ?d"
  proof -
    obtain a b c where "day_names ! tm_wday (gmtime_r (st_mtim_sec st0)) = [a, b, c]" "NUL \<notin> {a, b, c}"
      using day_name_chars [OF f(1)] by blast
    moreover have "NUL \<notin> set (month_names ! tm_mon (gmtime_r (st_mtim_sec st0)))"
      using month_name_no_NUL [OF f(2)] .
    ultimately show ?thesis using pad0_digits by (fastforce simp: http_date_text_def is_digit_def)
  qed
  then have copy: "date_copy ?d = ?d" using len by (auto simp: date_copy_def c_string_def takeWhile_eq_all_conv)
  have inm: "static_serve_check_not_modified hdrs st (Some (etag_text st)) =
      (\<exists>tok\<in>set (list_elements v). tag_matches (etag_text st) tok)"
    if "http_header_find_value hdrs HDR_ID_IF_NONE_MATCH = Some v" "v \<noteq> []" for hdrs v
    using that inm_loop_list [of "etag_text st" v]
    by (auto simp: static_serve_check_not_modified_def etag_text_def split: list.split)
  have ims: "static_serve_check_not_modified hdrs st (Some (etag_text st)) = (st_mtim_sec st \<le> st_mtim_sec st0)"
    if "http_header_find_value hdrs HDR_ID_IF_NONE_MATCH = None"
      "http_header_find_value hdrs HDR_ID_IF_MODIFIED_SINCE = Some ?d" for hdrs
    using that len parse_http_date_text [OF assms] copy
    by (cases ?d) (auto simp: static_serve_check_not_modified_def)
  show ?thesis
    using format_etag_eq d inm ims etag_text_inject by blast
qed

definition sample_stat :: stat where
  "sample_stat = \<lparr>st_ino = 7, st_size = 3, st_kind = S_IFREG, st_mtim_sec = 784111777, st_mtim_nsec = 0\<rparr>"

definition sample_inm :: "string \<Rightarrow> req_hdr_entry" where
  "sample_inm v = \<lparr>e_name = ''if-none-match'', e_id = HDR_ID_IF_NONE_MATCH, e_truncated = False, e_value = v\<rparr>"

theorem revalidation_exact_witness:
  "\<exists>e. static_serve_format_etag 64 sample_stat = Some e \<and>
     static_serve_check_not_modified [sample_inm ''x, *''] sample_stat (Some e)"
proof -
  have h: "http_header_find_value [sample_inm ''x, *''] HDR_ID_IF_NONE_MATCH = Some ''x, *'' \<and> ''x, *'' \<noteq> []"
    by (simp add: http_header_find_value_def sample_inm_def)
  have l: "list_elements ''x, *'' = [''x'', ''*'']"
    by (simp add: list_elements_def is_comma_def trim_right_def is_ows_def)
  have "st_mtim_sec sample_stat < 253402300800" by (simp add: sample_stat_def)
  from revalidation_exact [OF this, of sample_stat] obtain e where
    e: "static_serve_format_etag 64 sample_stat = Some e" and
    inm: "\<forall>hdrs v. http_header_find_value hdrs HDR_ID_IF_NONE_MATCH = Some v \<and> v \<noteq> [] \<longrightarrow>
      static_serve_check_not_modified hdrs sample_stat (Some e) = (\<exists>tok\<in>set (list_elements v). tag_matches e tok)"
    by blast
  show ?thesis using e inm [rule_format, OF h] by (simp add: l tag_matches_def)
qed

end
