(* ===== verification/Worker_State.thy ===== *)
theory Worker_State
  imports Request_Dispatch Rx_Stash Http1_Safety Http_Pipeline
begin

unbundle bit_operations_syntax

text \<open>
  The state of a worker thread: \<^verbatim>\<open>src/include/worker_ctx.h\<close>, \<^verbatim>\<open>src/include/conn.h\<close> and the
  thread-local variables of \<^verbatim>\<open>src/src/conn_lifecycle.c\<close> and \<^verbatim>\<open>src/src/buffer_pool.c\<close>.

  Connections live in a store of addresses (\<open>w_conns\<close>), because the timing wheel, the freelist and
  the operations in flight point to them; an access to an address that is not allocated is the
  result \<open>None\<close> of the operation. The descriptor table is the map it implements (see
  \<open>Conn_Store\<close>). What the kernel answers is a list of results to come, after whose end calls fail;
  what the worker asks of it is recorded in order in \<open>w_trace\<close>.
\<close>

section \<open>Connections\<close>

record deadline_state =
  last_active_ms :: u64
  header_start_ms :: u64
  header_start_us :: u64
  write_start_ms :: u64
  ka_idle :: bool
  closing :: bool
  draining :: bool
  abortive_close :: bool
  drain_deadline_ms :: u64
  dl_kind :: deadline_kind
  deadline_ms :: u64
  deadline_active :: bool

record worker_link =
  in_active_set :: bool
  active_idx :: int
  tw_prev :: "nat option"
  tw_next :: "nat option"
  tw_slot :: nat

text \<open>
  \<open>c_fed\<close> stands for the internal state of the llhttp parser: the bytes it has been given since it
  was initialised.
\<close>

record conn =
  c_h1 :: http1_state
  c_rx :: rx_state
  c_tx :: tx_state_t
  c_dl :: deadline_state
  noselect_streak :: nat
  c_link :: worker_link
  c_fd :: int
  refcnt :: int
  generation :: u32
  op_close_fd :: int
  free_next :: "nat option"
  c_vhost :: "vhost_t option"
  tls_enabled :: bool
  tls_handshake_done :: bool
  tls_want_read :: bool
  tls_want_write :: bool
  tls_handle :: bool
  c_fed :: string

definition dl_zero :: deadline_state where
  "dl_zero =
     \<lparr>last_active_ms = 0, header_start_ms = 0, header_start_us = 0, write_start_ms = 0, ka_idle = False,
      closing = False, draining = False, abortive_close = False, drain_deadline_ms = 0, dl_kind = DK_NONE,
      deadline_ms = 0, deadline_active = False\<rparr>"

definition link_zero :: worker_link where
  "link_zero = \<lparr>in_active_set = False, active_idx = 0, tw_prev = None, tw_next = None, tw_slot = 0\<rparr>"

definition rx_zero :: rx_state where
  "rx_zero = \<lparr>rx_tail = [], rx_stash_len = 0, rx_stash = None\<rparr>"

text \<open>A zeroed connection after \<open>tx_init\<close>.\<close>

definition conn_zero :: conn where
  "conn_zero =
     \<lparr>c_h1 = h1_zero, c_rx = rx_zero, c_tx = tx_init, c_dl = dl_zero, noselect_streak = 0, c_link = link_zero,
      c_fd = 0, refcnt = 0, generation = 0, op_close_fd = 0, free_next = None, c_vhost = None,
      tls_enabled = False, tls_handshake_done = False, tls_want_read = False, tls_want_write = False,
      tls_handle = False, c_fed = []\<rparr>"

section \<open>Configuration of the worker\<close>

text \<open>The run-time tunables a worker reads; \<open>None\<close> where the key is absent from the configuration.\<close>

record worker_config =
  wc_keepalive_idle_close_ms :: "u32 option"
  wc_initial_idle_timeout_ms :: "u32 option"
  wc_header_timeout_ms :: "u32 option"
  wc_body_timeout_ms :: "u32 option"
  wc_write_timeout_ms :: "u32 option"
  wc_drain_timeout_ms :: "u32 option"
  wc_accept_backoff_ms :: "u32 option"
  wc_max_header_bytes :: "u32 option"
  wc_default_max_body_bytes :: "u64 option"

definition cfg_or :: "(worker_config \<Rightarrow> 'a option) \<Rightarrow> 'a \<Rightarrow> worker_config option \<Rightarrow> 'a" where
  "cfg_or f d g = (case Option.bind g f of None \<Rightarrow> d | Some v \<Rightarrow> v)"

definition DEFAULT_INITIAL_IDLE_TIMEOUT_MS :: u32 where "DEFAULT_INITIAL_IDLE_TIMEOUT_MS = 1000"
definition DEFAULT_KEEPALIVE_IDLE_CLOSE_MS :: u32 where "DEFAULT_KEEPALIVE_IDLE_CLOSE_MS = 5000"
definition DEFAULT_HEADER_TIMEOUT_MS :: u32 where "DEFAULT_HEADER_TIMEOUT_MS = 30000"
definition DEFAULT_BODY_TIMEOUT_MS :: u32 where "DEFAULT_BODY_TIMEOUT_MS = 30000"
definition DEFAULT_WRITE_TIMEOUT_MS :: u32 where "DEFAULT_WRITE_TIMEOUT_MS = 10000"
definition DEFAULT_DRAIN_TIMEOUT_MS :: u32 where "DEFAULT_DRAIN_TIMEOUT_MS = 2000"
definition DEFAULT_ACCEPT_BACKOFF_MS :: u32 where "DEFAULT_ACCEPT_BACKOFF_MS = 5"

section \<open>The worker\<close>

text \<open>
  Requests to the ring, with the connection their \<open>user_data\<close> points into where there is one, and
  the direct system calls.
\<close>

datatype sqe =
    Sqe_send nat int string | Sqe_recv nat int | Sqe_poll_in nat int | Sqe_poll_out nat int
  | Sqe_poll_remove nat | Sqe_close nat int | Sqe_cancel_fd int | Sqe_accept bool int
  | Sqe_timeout op_type u64 | Sqe_wake_poll int

datatype action =
    Act_sqe sqe | Act_submit | Act_eff eff | Act_shutdown int bool | Act_linger int
  | Act_sendfile int int nat int | Act_tls_send nat string int | Act_tls_shutdown nat | Act_tls_destroy nat
  | Act_access_log nat

record worker_ctx =
  w_conns :: "nat \<Rightarrow> conn option"
  conn_free_list :: "nat option"
  conn_free_count :: nat
  w_store :: "int \<Rightarrow> nat option"
  g_active_conns :: nat
  active_fds :: "int list"
  active_cap :: nat
  w_cfg :: "worker_config option"
  listen_fds :: "int list"
  accept_inited :: "bool list"
  need_submit :: bool
  sqes_pending :: nat
  now_cached_ms :: u64
  is_draining :: bool
  accept_paused :: bool
  accept_backoff_armed :: bool
  accept_multishot :: bool
  accept_cancel_inflight :: bool
  tw_slots :: u32
  tw_mask :: u32
  tw_tick_ms :: u32
  tw_now_tick :: u64
  next_tick_deadline_ms :: u64
  tw_buckets :: "nat option list"
  next_conn_generation :: u32
  w_rx_pool :: rx_pool
  w_arena :: req_arena
  w_os :: os_state
  w_date :: date_cache
  w_callocs :: "nat option list"
  w_reallocs :: "bool list"
  w_puts :: "bool list"
  w_get_sqes :: "bool list"
  w_submits :: "int list"
  w_sq_space :: "nat list"
  w_clock_ms :: "u64 list"
  w_clock_us :: "u64 list"
  w_trace :: "action list"

section \<open>Access\<close>

definition getc :: "nat \<Rightarrow> worker_ctx \<Rightarrow> conn option" where
  "getc p w = w_conns w p"

definition updc :: "nat \<Rightarrow> (conn \<Rightarrow> conn) \<Rightarrow> worker_ctx \<Rightarrow> worker_ctx option" where
  "updc p f w =
     (case w_conns w p of
        None \<Rightarrow> None
      | Some c \<Rightarrow> Some (w\<lparr>w_conns := (w_conns w)(p := Some (f c))\<rparr>))"

definition upd_dl :: "nat \<Rightarrow> (deadline_state \<Rightarrow> deadline_state) \<Rightarrow> worker_ctx \<Rightarrow> worker_ctx option" where
  "upd_dl p f = updc p (\<lambda>c. c\<lparr>c_dl := f (c_dl c)\<rparr>)"

definition upd_link :: "nat \<Rightarrow> (worker_link \<Rightarrow> worker_link) \<Rightarrow> worker_ctx \<Rightarrow> worker_ctx option" where
  "upd_link p f = updc p (\<lambda>c. c\<lparr>c_link := f (c_link c)\<rparr>)"

definition act :: "action \<Rightarrow> worker_ctx \<Rightarrow> worker_ctx" where
  "act a w = w\<lparr>w_trace := w_trace w @ [a]\<rparr>"

definition acts :: "eff list \<Rightarrow> worker_ctx \<Rightarrow> worker_ctx" where
  "acts es w = w\<lparr>w_trace := w_trace w @ map Act_eff es\<rparr>"

text \<open>An operation on the transmit state with its \<open>free\<close> and \<open>close\<close> calls.\<close>

definition upd_tx :: "nat \<Rightarrow> (tx_state_t \<Rightarrow> tx_state_t \<times> eff list) \<Rightarrow> worker_ctx \<Rightarrow> worker_ctx option" where
  "upd_tx p f w = do {
     c \<leftarrow> getc p w;
     let (tx, es) = f (c_tx c);
     w1 \<leftarrow> updc p (\<lambda>c. c\<lparr>c_tx := tx\<rparr>) w;
     Some (acts es w1)
   }"

definition next_ms :: "worker_ctx \<Rightarrow> u64 \<times> worker_ctx" where
  "next_ms w = ((case w_clock_ms w of [] \<Rightarrow> 0 | t # ts \<Rightarrow> t), w\<lparr>w_clock_ms := tl (w_clock_ms w)\<rparr>)"

definition next_us :: "worker_ctx \<Rightarrow> u64 \<times> worker_ctx" where
  "next_us w = ((case w_clock_us w of [] \<Rightarrow> 0 | t # ts \<Rightarrow> t), w\<lparr>w_clock_us := tl (w_clock_us w)\<rparr>)"

text \<open>The cached time, or the clock when there is none.\<close>

definition now_or_clock :: "worker_ctx \<Rightarrow> u64 \<times> worker_ctx" where
  "now_or_clock w = (if now_cached_ms w \<noteq> 0 then (now_cached_ms w, w) else next_ms w)"

end
