(* ===== verification/Ring_Ops.thy ===== *)
theory Ring_Ops
  imports Worker_State
begin

text \<open>
  \<^verbatim>\<open>src/include/ring_ops.h\<close>: obtaining submission entries and flushing them in batches.
\<close>

definition SUBMIT_BATCH_SZ :: nat where "SUBMIT_BATCH_SZ = 64"
definition SUBMIT_LOW_SPACE :: nat where "SUBMIT_LOW_SPACE = 16"

definition io_uring_get_sqe :: "worker_ctx \<Rightarrow> bool \<times> worker_ctx" where
  "io_uring_get_sqe w =
     ((case w_get_sqes w of [] \<Rightarrow> False | b # bs \<Rightarrow> b), w\<lparr>w_get_sqes := tl (w_get_sqes w)\<rparr>)"

definition io_uring_submit :: "worker_ctx \<Rightarrow> int \<times> worker_ctx" where
  "io_uring_submit w =
     ((case w_submits w of [] \<Rightarrow> - 1 | r # rs \<Rightarrow> r), act Act_submit (w\<lparr>w_submits := tl (w_submits w)\<rparr>))"

definition io_uring_sq_space_left :: "worker_ctx \<Rightarrow> nat \<times> worker_ctx" where
  "io_uring_sq_space_left w =
     ((case w_sq_space w of [] \<Rightarrow> 0 | n # ns \<Rightarrow> n), w\<lparr>w_sq_space := tl (w_sq_space w)\<rparr>)"

definition get_sqe_retry_once :: "worker_ctx \<Rightarrow> bool \<times> worker_ctx" where
  "get_sqe_retry_once w =
     (let (ok, w1) = io_uring_get_sqe w
      in if ok then (True, w1) else io_uring_get_sqe (snd (io_uring_submit w1)))"

definition get_sqe_batching :: "worker_ctx \<Rightarrow> bool \<times> worker_ctx" where
  "get_sqe_batching w =
     (let (ok, w1) = io_uring_get_sqe w
      in if ok then (True, w1)
         else io_uring_get_sqe ((snd (io_uring_submit w1))\<lparr>need_submit := False, sqes_pending := 0\<rparr>))"

definition mark_post :: "worker_ctx \<Rightarrow> worker_ctx" where
  "mark_post w = w\<lparr>need_submit := True, sqes_pending := sqes_pending w + 1\<rparr>"

definition flush_now :: "worker_ctx \<Rightarrow> worker_ctx" where
  "flush_now w = (snd (io_uring_submit w))\<lparr>need_submit := False, sqes_pending := 0\<rparr>"

definition maybe_flush :: "bool \<Rightarrow> worker_ctx \<Rightarrow> worker_ctx" where
  "maybe_flush urgent w =
     (if \<not> need_submit w then w
      else if urgent \<or> sqes_pending w \<ge> SUBMIT_BATCH_SZ then flush_now w
      else (let (n, w1) = io_uring_sq_space_left w in if n < SUBMIT_LOW_SPACE then flush_now w1 else w1))"

definition submit_if_pending :: "worker_ctx \<Rightarrow> worker_ctx" where
  "submit_if_pending w = (if need_submit w then flush_now w else w)"

text \<open>Filling an entry that was obtained, and marking it for submission.\<close>

definition post :: "sqe \<Rightarrow> worker_ctx \<Rightarrow> worker_ctx" where
  "post s w = mark_post (act (Act_sqe s) w)"

section \<open>What the ring operations leave alone\<close>

text \<open>\<open>same_conns\<close>: connections, wheel, table, freelist and active set are untouched.\<close>

definition same_conns :: "worker_ctx \<Rightarrow> worker_ctx \<Rightarrow> bool" where
  "same_conns w w' \<longleftrightarrow>
     w_conns w' = w_conns w \<and> conn_free_list w' = conn_free_list w \<and> conn_free_count w' = conn_free_count w \<and>
     w_store w' = w_store w \<and> active_fds w' = active_fds w \<and> active_cap w' = active_cap w \<and>
     tw_slots w' = tw_slots w \<and> tw_mask w' = tw_mask w \<and> tw_tick_ms w' = tw_tick_ms w \<and> tw_now_tick w' = tw_now_tick w \<and>
     tw_buckets w' = tw_buckets w \<and> g_active_conns w' = g_active_conns w \<and> w_cfg w' = w_cfg w"

lemma same_conns_refl [simp]: "same_conns w w"
  by (simp add: same_conns_def)

lemma same_conns_trans: "same_conns w w1 \<Longrightarrow> same_conns w1 w2 \<Longrightarrow> same_conns w w2"
  by (simp add: same_conns_def)

lemma same_conns_act [simp]: "same_conns w (act a w)" "same_conns w (acts es w)"
  by (simp_all add: same_conns_def act_def acts_def)

lemma ring_same_conns [simp]:
  "same_conns w (snd (io_uring_get_sqe w))"
  "same_conns w (snd (io_uring_submit w))"
  "same_conns w (snd (get_sqe_retry_once w))"
  "same_conns w (snd (get_sqe_batching w))"
  "same_conns w (mark_post w)"
  "same_conns w (flush_now w)"
  "same_conns w (maybe_flush urgent w)"
  "same_conns w (submit_if_pending w)"
  "same_conns w (post s w)"
  by (simp_all add: same_conns_def io_uring_get_sqe_def io_uring_submit_def get_sqe_retry_once_def
      get_sqe_batching_def mark_post_def flush_now_def maybe_flush_def submit_if_pending_def post_def
      io_uring_sq_space_left_def act_def case_prod_beta Let_def)

end
