(* ===== verification/Timing_Wheel.thy ===== *)
theory Timing_Wheel
  imports Ring_Ops
begin

text \<open>
  Deadlines of connections: the state predicates of \<^verbatim>\<open>src/include/conn_deadline.h\<close>, the
  transitions of \<^verbatim>\<open>src/src/conn_deadline.c\<close>, and the hashed timing wheel of
  \<^verbatim>\<open>src/src/timing_wheel.c\<close>, whose buckets are doubly linked lists threaded through the
  connections. The tick itself, which closes connections, is in \<open>Wheel_Tick\<close>.
\<close>

section \<open>The model\<close>

subsection \<open>Connection state\<close>

definition conn_is_closing_no_deadline :: "conn \<Rightarrow> bool" where
  "conn_is_closing_no_deadline c \<longleftrightarrow> closing (c_dl c) \<and> \<not> draining (c_dl c)"

definition conn_is_keepalive_idle :: "conn \<Rightarrow> bool" where
  "conn_is_keepalive_idle c \<longleftrightarrow> ka_idle (c_dl c) \<and> parser_bytes (c_h1 c) = 0"

definition conn_is_initial_idle :: "conn \<Rightarrow> bool" where
  "conn_is_initial_idle c \<longleftrightarrow> \<not> ka_idle (c_dl c) \<and> \<not> headers_done (c_h1 c) \<and> parser_bytes (c_h1 c) = 0"

definition conn_is_header_in_progress :: "conn \<Rightarrow> bool" where
  "conn_is_header_in_progress c \<longleftrightarrow>
     \<not> ka_idle (c_dl c) \<and> \<not> headers_done (c_h1 c) \<and> parser_bytes (c_h1 c) > 0"

definition conn_tls_handshake_pending :: "conn \<Rightarrow> bool" where
  "conn_tls_handshake_pending c \<longleftrightarrow> tls_enabled c \<and> \<not> tls_handshake_done c"

definition tw_conn_is_body_in_progress :: "conn \<Rightarrow> bool" where
  "tw_conn_is_body_in_progress c \<longleftrightarrow>
     \<not> ka_idle (c_dl c) \<and> headers_done (c_h1 c) \<and> \<not> message_done (c_h1 c)"

definition tw_conn_is_write_in_progress :: "conn \<Rightarrow> bool" where
  "tw_conn_is_write_in_progress c \<longleftrightarrow>
     write_start_ms (c_dl c) \<noteq> 0 \<and>
     (write_buf (c_tx c) \<noteq> None \<and> write_len (c_tx c) > write_off (c_tx c) \<or> tx_sendfile_is_active (c_tx c))"

datatype tw_conn_state =
    TW_CONN_STATE_NONE | TW_CONN_STATE_KA_IDLE | TW_CONN_STATE_INITIAL_IDLE
  | TW_CONN_STATE_HEADER_IN_PROGRESS | TW_CONN_STATE_BODY_IN_PROGRESS
  | TW_CONN_STATE_WRITE_IN_PROGRESS | TW_CONN_STATE_DRAINING | TW_CONN_STATE_CLOSING_NO_DEADLINE

definition tw_conn_get_state :: "conn \<Rightarrow> tw_conn_state" where
  "tw_conn_get_state c =
     (if c_fd c < 0 then TW_CONN_STATE_NONE
      else if draining (c_dl c) then TW_CONN_STATE_DRAINING
      else if conn_tls_handshake_pending c then TW_CONN_STATE_INITIAL_IDLE
      else if conn_is_closing_no_deadline c then
        (if tw_conn_is_write_in_progress c then TW_CONN_STATE_WRITE_IN_PROGRESS
         else TW_CONN_STATE_CLOSING_NO_DEADLINE)
      else if conn_is_keepalive_idle c then TW_CONN_STATE_KA_IDLE
      else if conn_is_initial_idle c then TW_CONN_STATE_INITIAL_IDLE
      else if conn_is_header_in_progress c then TW_CONN_STATE_HEADER_IN_PROGRESS
      else if tw_conn_is_body_in_progress c then TW_CONN_STATE_BODY_IN_PROGRESS
      else if tw_conn_is_write_in_progress c then TW_CONN_STATE_WRITE_IN_PROGRESS
      else TW_CONN_STATE_NONE)"

text \<open>The kind of the deadline and its time, 0 for none.\<close>

definition tw_compute_conn_deadline :: "worker_config option \<Rightarrow> conn \<Rightarrow> deadline_kind \<times> u64" where
  "tw_compute_conn_deadline g c =
     (let dl = c_dl c in
      case tw_conn_get_state c of
        TW_CONN_STATE_DRAINING \<Rightarrow> (DK_DRAIN, drain_deadline_ms dl)
      | TW_CONN_STATE_KA_IDLE \<Rightarrow>
          (DK_KA_IDLE,
           last_active_ms dl + ucast (cfg_or wc_keepalive_idle_close_ms DEFAULT_KEEPALIVE_IDLE_CLOSE_MS g))
      | TW_CONN_STATE_INITIAL_IDLE \<Rightarrow>
          (DK_INITIAL_IDLE,
           last_active_ms dl + ucast (cfg_or wc_initial_idle_timeout_ms DEFAULT_INITIAL_IDLE_TIMEOUT_MS g))
      | TW_CONN_STATE_HEADER_IN_PROGRESS \<Rightarrow>
          (DK_HEADER_TIMEOUT,
           header_start_ms dl + ucast (cfg_or wc_header_timeout_ms DEFAULT_HEADER_TIMEOUT_MS g))
      | TW_CONN_STATE_BODY_IN_PROGRESS \<Rightarrow>
          (DK_BODY_TIMEOUT,
           last_active_ms dl + ucast (cfg_or wc_body_timeout_ms DEFAULT_BODY_TIMEOUT_MS g))
      | TW_CONN_STATE_WRITE_IN_PROGRESS \<Rightarrow>
          (DK_WRITE_TIMEOUT,
           (if write_start_ms dl \<noteq> 0 then write_start_ms dl else last_active_ms dl) +
           ucast (cfg_or wc_write_timeout_ms DEFAULT_WRITE_TIMEOUT_MS g))
      | TW_CONN_STATE_CLOSING_NO_DEADLINE \<Rightarrow> (DK_NONE, 0)
      | TW_CONN_STATE_NONE \<Rightarrow> (DK_NONE, 0))"

subsection \<open>The wheel\<close>

definition tw_slot_for :: "worker_ctx \<Rightarrow> u64 \<Rightarrow> u64 \<Rightarrow> nat" where
  "tw_slot_for w now deadline =
     (let dt = (if deadline > now then deadline - now else 0);
          ticks_ahead = (if tw_tick_ms w \<noteq> 0 then dt div ucast (tw_tick_ms w) else 0)
      in unat (ucast ((tw_now_tick w + ticks_ahead) AND ucast (tw_mask w)) :: u32))"

definition set_bucket :: "nat \<Rightarrow> nat option \<Rightarrow> worker_ctx \<Rightarrow> worker_ctx option" where
  "set_bucket i v w =
     (if i < length (tw_buckets w) then Some (w\<lparr>tw_buckets := (tw_buckets w)[i := v]\<rparr>) else None)"

definition get_bucket :: "nat \<Rightarrow> worker_ctx \<Rightarrow> nat option option" where
  "get_bucket i w = (if i < length (tw_buckets w) then Some (tw_buckets w ! i) else None)"

definition tw_remove_internal :: "nat \<Rightarrow> worker_ctx \<Rightarrow> worker_ctx option" where
  "tw_remove_internal p w = do {
     c \<leftarrow> getc p w;
     if \<not> deadline_active (c_dl c) then Some w
     else do {
       w1 \<leftarrow> (case tw_prev (c_link c) of
                Some q \<Rightarrow> upd_link q (\<lambda>l. l\<lparr>tw_next := tw_next (c_link c)\<rparr>) w
              | None \<Rightarrow> set_bucket (tw_slot (c_link c)) (tw_next (c_link c)) w);
       w2 \<leftarrow> (case tw_next (c_link c) of
                Some q \<Rightarrow> upd_link q (\<lambda>l. l\<lparr>tw_prev := tw_prev (c_link c)\<rparr>) w1
              | None \<Rightarrow> Some w1);
       w3 \<leftarrow> upd_link p (\<lambda>l. l\<lparr>tw_prev := None, tw_next := None\<rparr>) w2;
       upd_dl p (\<lambda>d. d\<lparr>deadline_active := False\<rparr>) w3
     }
   }"

definition tw_insert_internal :: "nat \<Rightarrow> u64 \<Rightarrow> u64 \<Rightarrow> worker_ctx \<Rightarrow> worker_ctx option" where
  "tw_insert_internal p now deadline w = do {
     c \<leftarrow> getc p w;
     if c_fd c < 0 then Some w
     else do {
       w1 \<leftarrow> upd_dl p (\<lambda>d. d\<lparr>deadline_ms := deadline\<rparr>) w;
       let slot = tw_slot_for w1 now deadline;
       w2 \<leftarrow> upd_link p (\<lambda>l. l\<lparr>tw_slot := slot\<rparr>) w1;
       head \<leftarrow> get_bucket slot w2;
       w3 \<leftarrow> upd_link p (\<lambda>l. l\<lparr>tw_next := head, tw_prev := None\<rparr>) w2;
       w4 \<leftarrow> (case head of None \<Rightarrow> Some w3 | Some q \<Rightarrow> upd_link q (\<lambda>l. l\<lparr>tw_prev := Some p\<rparr>) w3);
       w5 \<leftarrow> set_bucket slot (Some p) w4;
       upd_dl p (\<lambda>d. d\<lparr>deadline_active := True\<rparr>) w5
     }
   }"

text \<open>The array of buckets has \<open>TW_SLOTS\<close> places; the loop clears the first \<open>slots\<close> of them.\<close>

definition tw_init :: "u32 \<Rightarrow> u32 \<Rightarrow> u64 \<Rightarrow> worker_ctx \<Rightarrow> worker_ctx option" where
  "tw_init slots tick_ms now w =
     (if unat slots \<le> length (tw_buckets w) then
        Some (w\<lparr>tw_slots := slots, tw_mask := slots - 1, tw_tick_ms := tick_ms, tw_now_tick := 0,
                tw_buckets := replicate (unat slots) None @ drop (unat slots) (tw_buckets w),
                next_tick_deadline_ms := now + ucast tick_ms\<rparr>)
      else None)"

definition tw_store_deadline :: "nat \<Rightarrow> worker_ctx \<Rightarrow> (u64 \<times> worker_ctx) option" where
  "tw_store_deadline p w = do {
     c \<leftarrow> getc p w;
     let (k, d) = tw_compute_conn_deadline (w_cfg w) c;
     w1 \<leftarrow> upd_dl p (\<lambda>x. x\<lparr>dl_kind := k\<rparr>) w;
     Some (d, w1)
   }"

definition tw_reschedule :: "nat \<Rightarrow> u64 \<Rightarrow> worker_ctx \<Rightarrow> worker_ctx option" where
  "tw_reschedule p now w = do {
     (d, w1) \<leftarrow> tw_store_deadline p w;
     w2 \<leftarrow> tw_remove_internal p w1;
     if d \<noteq> 0 then tw_insert_internal p now d w2 else Some w2
   }"

definition tw_cancel :: "nat \<Rightarrow> worker_ctx \<Rightarrow> worker_ctx option" where
  "tw_cancel p w = do {
     w1 \<leftarrow> tw_remove_internal p w;
     upd_dl p (\<lambda>d. d\<lparr>dl_kind := DK_NONE, deadline_ms := 0\<rparr>) w1
   }"

subsection \<open>Transitions\<close>

definition conn_enter_keepalive_idle :: "nat \<Rightarrow> u64 \<Rightarrow> worker_ctx \<Rightarrow> worker_ctx option" where
  "conn_enter_keepalive_idle p now w =
     (let (us, w1) = next_us w
      in upd_dl p (\<lambda>d. d\<lparr>last_active_ms := now, ka_idle := True, closing := False,
                         header_start_ms := now, header_start_us := us\<rparr>) w1)"

definition conn_mark_activity :: "nat \<Rightarrow> u64 \<Rightarrow> worker_ctx \<Rightarrow> worker_ctx option" where
  "conn_mark_activity p now = upd_dl p (\<lambda>d. d\<lparr>last_active_ms := now, ka_idle := False\<rparr>)"

definition conn_start_draining :: "nat \<Rightarrow> u64 \<Rightarrow> worker_ctx \<Rightarrow> worker_ctx option" where
  "conn_start_draining p now w =
     upd_dl p (\<lambda>d. d\<lparr>draining := True,
       drain_deadline_ms := now + ucast (cfg_or wc_drain_timeout_ms DEFAULT_DRAIN_TIMEOUT_MS (w_cfg w))\<rparr>) w"

definition conn_clear_draining :: "nat \<Rightarrow> worker_ctx \<Rightarrow> worker_ctx option" where
  "conn_clear_draining p = upd_dl p (\<lambda>d. d\<lparr>draining := False, drain_deadline_ms := 0\<rparr>)"

definition conn_mark_closing :: "nat \<Rightarrow> worker_ctx \<Rightarrow> worker_ctx option" where
  "conn_mark_closing p = upd_dl p (\<lambda>d. d\<lparr>closing := True\<rparr>)"

definition conn_prepare_close_after_send :: "nat \<Rightarrow> worker_ctx \<Rightarrow> worker_ctx option" where
  "conn_prepare_close_after_send p w = do { w1 \<leftarrow> conn_mark_closing p w; tw_cancel p w1 }"

definition conn_arm_write_timeout :: "nat \<Rightarrow> worker_ctx \<Rightarrow> worker_ctx option" where
  "conn_arm_write_timeout p w =
     (let (now, w1) = now_or_clock w in do {
        w2 \<leftarrow> upd_dl p (\<lambda>d. d\<lparr>write_start_ms := now\<rparr>) w1;
        tw_reschedule p now w2
      })"

definition conn_clear_write_timeout :: "nat \<Rightarrow> worker_ctx \<Rightarrow> worker_ctx option" where
  "conn_clear_write_timeout p w = do {
     c \<leftarrow> getc p w;
     if write_start_ms (c_dl c) = 0 then Some w
     else do {
       w1 \<leftarrow> upd_dl p (\<lambda>d. d\<lparr>write_start_ms := 0\<rparr>) w;
       let (now, w2) = now_or_clock w1;
       tw_reschedule p now w2
     }
   }"

definition conn_prepare_431_draining :: "nat \<Rightarrow> u64 \<Rightarrow> u64 \<Rightarrow> worker_ctx \<Rightarrow> worker_ctx option" where
  "conn_prepare_431_draining p start_ms resched_ms w = do {
     w1 \<leftarrow> conn_start_draining p start_ms w;
     tw_reschedule p resched_ms w1
   }"

section \<open>Buckets as lists\<close>

fun first :: "nat list \<Rightarrow> nat option \<Rightarrow> nat option" where
  "first [] nx = nx"
| "first (p # ps) nx = Some p"

definition final :: "nat option \<Rightarrow> nat list \<Rightarrow> nat option" where
  "final pr ps = (if ps = [] then pr else Some (last ps))"

text \<open>
  \<open>linked H pr ps nx\<close>: the connections \<open>ps\<close> are chained in this order, the first has predecessor
  \<open>pr\<close> and the last has successor \<open>nx\<close>.
\<close>

fun linked :: "(nat \<Rightarrow> conn option) \<Rightarrow> nat option \<Rightarrow> nat list \<Rightarrow> nat option \<Rightarrow> bool" where
  "linked H pr [] nx = True"
| "linked H pr (p # ps) nx =
     (case H p of
        None \<Rightarrow> False
      | Some c \<Rightarrow> tw_prev (c_link c) = pr \<and> tw_next (c_link c) = first ps nx \<and> linked H (Some p) ps nx)"

lemma first_append [simp]: "first (xs @ ys) nx = first xs (first ys nx)"
  by (cases xs) auto

lemma first_eq_None [simp]: "first xs None = None \<longleftrightarrow> xs = []"
  by (cases xs) auto

lemma final_simps [simp]:
  "final pr [] = pr" "final pr (x # xs) = final (Some x) xs" "final pr (xs @ [x]) = Some x"
  by (auto simp: final_def)

lemma linked_append [simp]:
  "linked H pr (xs @ ys) nx \<longleftrightarrow> linked H pr xs (first ys nx) \<and> linked H (final pr xs) ys nx"
  by (induction xs arbitrary: pr) (auto split: option.splits)

lemma linked_cong:
  assumes "linked H pr ps nx"
    and "\<And>p c. p \<in> set ps \<Longrightarrow> H p = Some c \<Longrightarrow>
           \<exists>c'. H' p = Some c' \<and> tw_prev (c_link c') = tw_prev (c_link c) \<and> tw_next (c_link c') = tw_next (c_link c)"
  shows "linked H' pr ps nx"
  using assms by (induction ps arbitrary: pr) (fastforce split: option.splits)+

lemma linked_other [simp]: "p \<notin> set ps \<Longrightarrow> linked (H(p := v)) pr ps nx = linked H pr ps nx"
  by (induction ps arbitrary: pr) (auto split: option.splits)

lemma linked_alloc: "linked H pr ps nx \<Longrightarrow> p \<in> set ps \<Longrightarrow> \<exists>c. H p = Some c"
  by (induction ps arbitrary: pr) (auto split: option.splits)

text \<open>
  A chain a tick has taken from its bucket and not yet walked: only the successors still matter.
\<close>

fun chained :: "(nat \<Rightarrow> conn option) \<Rightarrow> nat list \<Rightarrow> bool" where
  "chained H [] = True"
| "chained H (p # ps) =
     (case H p of None \<Rightarrow> False | Some c \<Rightarrow> tw_next (c_link c) = first ps None \<and> chained H ps)"

definition armed_in :: "(nat \<Rightarrow> conn option) \<Rightarrow> nat \<Rightarrow> nat \<Rightarrow> bool" where
  "armed_in H i p \<longleftrightarrow>
     (case H p of None \<Rightarrow> False | Some c \<Rightarrow> deadline_active (c_dl c) \<and> tw_slot (c_link c) = i)"

definition is_armed :: "(nat \<Rightarrow> conn option) \<Rightarrow> nat \<Rightarrow> bool" where
  "is_armed H p \<longleftrightarrow> (case H p of None \<Rightarrow> False | Some c \<Rightarrow> deadline_active (c_dl c))"

definition pending :: "nat list \<Rightarrow> worker_ctx \<Rightarrow> nat list list \<Rightarrow> bool" where
  "pending pend w L \<longleftrightarrow>
     distinct pend \<and> chained (w_conns w) pend \<and> (\<forall>p\<in>set pend. is_armed (w_conns w) p) \<and>
     (\<forall>i < length L. set (L ! i) \<inter> set pend = {})"

text \<open>
  The buckets of the worker hold the lists \<open>L\<close>, each connection in the bucket its \<open>tw_slot\<close> names,
  and the armed connections are exactly the members, apart from the chain \<open>pend\<close> of a tick in
  progress (empty at all other times).
\<close>

definition wheel_rep :: "nat list \<Rightarrow> worker_ctx \<Rightarrow> nat list list \<Rightarrow> bool" where
  "wheel_rep pend w L \<longleftrightarrow>
     length L = length (tw_buckets w) \<and>
     (\<forall>i < length L. tw_buckets w ! i = first (L ! i) None \<and> linked (w_conns w) None (L ! i) None \<and>
        distinct (L ! i)) \<and>
     (\<forall>i p. p \<notin> set pend \<longrightarrow> (armed_in (w_conns w) i p \<longleftrightarrow> i < length L \<and> p \<in> set (L ! i))) \<and>
     pending pend w L"

definition link_view :: "conn \<Rightarrow> nat option \<times> nat option \<times> nat \<times> bool" where
  "link_view c = (tw_prev (c_link c), tw_next (c_link c), tw_slot (c_link c), deadline_active (c_dl c))"

text \<open>What the wheel sees of a worker.\<close>

definition same_wheel :: "worker_ctx \<Rightarrow> worker_ctx \<Rightarrow> bool" where
  "same_wheel w w' \<longleftrightarrow>
     tw_buckets w' = tw_buckets w \<and> (\<forall>p. map_option link_view (w_conns w' p) = map_option link_view (w_conns w p))"

lemma linked_same:
  assumes "\<And>p. map_option link_view (H' p) = map_option link_view (H p)"
  shows "linked H' pr ps nx = linked H pr ps nx"
proof (induction ps arbitrary: pr)
  case (Cons p ps)
  show ?case
    using assms [of p] Cons.IH by (cases "H p"; cases "H' p") (auto simp: link_view_def)
qed simp

lemma armed_in_same:
  assumes "\<And>p. map_option link_view (H' p) = map_option link_view (H p)"
  shows "armed_in H' i p = armed_in H i p"
  using assms [of p] by (cases "H p"; cases "H' p") (auto simp: link_view_def armed_in_def)

lemma chained_same:
  assumes "\<And>p. map_option link_view (H' p) = map_option link_view (H p)"
  shows "chained H' ps = chained H ps"
proof (induction ps)
  case (Cons p ps)
  show ?case
    using assms [of p] Cons.IH by (cases "H p"; cases "H' p") (auto simp: link_view_def)
qed simp

lemma is_armed_same:
  assumes "\<And>p. map_option link_view (H' p) = map_option link_view (H p)"
  shows "is_armed H' p = is_armed H p"
  using assms [of p] by (cases "H p"; cases "H' p") (auto simp: link_view_def is_armed_def)

lemma chained_cong: "(\<And>p. p \<in> set ps \<Longrightarrow> H' p = H p) \<Longrightarrow> chained H' ps = chained H ps"
  by (induction ps) (auto split: option.splits)

lemma chained_other [simp]: "p \<notin> set ps \<Longrightarrow> chained (H(p := v)) ps = chained H ps"
  by (rule chained_cong) auto

lemma wheel_rep_same:
  assumes "same_wheel w w'"
  shows "wheel_rep pend w' L = wheel_rep pend w L"
  using assms linked_same [of "w_conns w'" "w_conns w"] armed_in_same [of "w_conns w'" "w_conns w"]
    chained_same [of "w_conns w'" "w_conns w"] is_armed_same [of "w_conns w'" "w_conns w"]
  unfolding same_wheel_def wheel_rep_def pending_def by simp

section \<open>Unlinking and linking\<close>

definition set_next :: "nat option \<Rightarrow> nat option \<Rightarrow> (nat \<Rightarrow> conn option) \<Rightarrow> nat \<Rightarrow> conn option" where
  "set_next q n H =
     (case q of
        None \<Rightarrow> H
      | Some q \<Rightarrow> H(q := map_option (\<lambda>c. c\<lparr>c_link := (c_link c)\<lparr>tw_next := n\<rparr>\<rparr>) (H q)))"

definition set_prev :: "nat option \<Rightarrow> nat option \<Rightarrow> (nat \<Rightarrow> conn option) \<Rightarrow> nat \<Rightarrow> conn option" where
  "set_prev q n H =
     (case q of
        None \<Rightarrow> H
      | Some q \<Rightarrow> H(q := map_option (\<lambda>c. c\<lparr>c_link := (c_link c)\<lparr>tw_prev := n\<rparr>\<rparr>) (H q)))"

lemma linked_set_next:
  assumes "linked H pr xs nx" "distinct xs"
  shows "linked (set_next (final None xs) nx' H) pr xs nx'"
  using assms by (cases xs rule: rev_cases) (auto simp: set_next_def split: option.splits)

lemma linked_set_prev:
  assumes "linked H pr xs nx" "distinct xs"
  shows "linked (set_prev (first xs None) pr' H) pr' xs nx"
  using assms by (cases xs) (auto simp: set_prev_def split: option.splits)

lemma linked_set_next_other:
  "q \<notin> Some ` set ps \<Longrightarrow> linked (set_next q n H) pr ps nx = linked H pr ps nx"
  by (cases q) (auto simp: set_next_def image_iff)

lemma linked_set_prev_other:
  "q \<notin> Some ` set ps \<Longrightarrow> linked (set_prev q n H) pr ps nx = linked H pr ps nx"
  by (cases q) (auto simp: set_prev_def image_iff)

lemma first_mem: "first ps None = Some q \<Longrightarrow> q \<in> set ps"
  by (cases ps) auto

lemma final_mem: "final None ps = Some q \<Longrightarrow> q \<in> set ps"
  by (auto simp: final_def split: if_splits)

text \<open>A connection without its place in a bucket.\<close>

definition core :: "conn \<Rightarrow> conn" where
  "core c = c\<lparr>c_link := (c_link c)\<lparr>tw_prev := None, tw_next := None\<rparr>\<rparr>"

lemma set_next_core [simp]: "map_option core (set_next q n H x) = map_option core (H x)"
  by (cases q; cases "H x") (auto simp: set_next_def core_def)

lemma set_prev_core [simp]: "map_option core (set_prev q n H x) = map_option core (H x)"
  by (cases q; cases "H x") (auto simp: set_prev_def core_def)

lemma core_eqD:
  assumes "core c = core c'"
  shows "c_dl c = c_dl c'" "tw_slot (c_link c) = tw_slot (c_link c')" "c_fd c = c_fd c'" "refcnt c = refcnt c'"
    "in_active_set (c_link c) = in_active_set (c_link c')" "active_idx (c_link c) = active_idx (c_link c')"
    "free_next c = free_next c'" "c_tx c = c_tx c'" "c_h1 c = c_h1 c'" "c_rx c = c_rx c'"
  using arg_cong [OF assms, of c_dl] arg_cong [OF assms, of "\<lambda>c. tw_slot (c_link c)"]
    arg_cong [OF assms, of c_fd] arg_cong [OF assms, of refcnt]
    arg_cong [OF assms, of "\<lambda>c. in_active_set (c_link c)"] arg_cong [OF assms, of "\<lambda>c. active_idx (c_link c)"]
    arg_cong [OF assms, of free_next] arg_cong [OF assms, of c_tx] arg_cong [OF assms, of c_h1]
    arg_cong [OF assms, of c_rx]
  by (simp_all add: core_def)

lemma armed_in_core:
  assumes "map_option core (H' p) = map_option core (H p)"
  shows "armed_in H' i p = armed_in H i p"
  using assms by (cases "H p"; cases "H' p") (auto simp: armed_in_def dest: core_eqD)

text \<open>Only wheel links of the other connections and buckets change.\<close>

definition rest :: "worker_ctx \<Rightarrow> worker_ctx" where
  "rest w = w\<lparr>w_conns := Map.empty, tw_buckets := []\<rparr>"

definition wheel_frame :: "nat \<Rightarrow> worker_ctx \<Rightarrow> worker_ctx \<Rightarrow> bool" where
  "wheel_frame p w w' \<longleftrightarrow>
     rest w' = rest w \<and>
     (\<forall>q. q \<noteq> p \<longrightarrow> map_option core (w_conns w' q) = map_option core (w_conns w q))"

definition detached :: "conn \<Rightarrow> conn" where
  "detached c = c\<lparr>c_link := (c_link c)\<lparr>tw_prev := None, tw_next := None\<rparr>,
                  c_dl := (c_dl c)\<lparr>deadline_active := False\<rparr>\<rparr>"

definition unlink_heap :: "nat list \<Rightarrow> nat \<Rightarrow> nat list \<Rightarrow> (nat \<Rightarrow> conn option) \<Rightarrow> nat \<Rightarrow> conn option" where
  "unlink_heap xs p ys H =
     (set_prev (first ys None) (final None xs) (set_next (final None xs) (first ys None) H))
       (p := map_option detached (H p))"

lemma linked_unlink:
  assumes "linked H None (xs @ p # ys) None" "distinct (xs @ p # ys)"
  shows "linked (unlink_heap xs p ys H) None (xs @ ys) None"
proof -
  let ?f = "final None xs" and ?n = "first ys None"
  have x: "linked H None xs (Some p)" and y: "linked H (Some p) ys None"
    using assms(1) by (auto split: option.splits)
  have "linked (set_prev ?n ?f (set_next ?f ?n H)) None xs ?n"
    using linked_set_next [OF x, of ?n] assms(2)
    by (subst linked_set_prev_other) (auto dest: first_mem)
  moreover have "linked (set_prev ?n ?f (set_next ?f ?n H)) ?f ys None"
    using assms(2) y linked_set_next_other [of ?f ys ?n H "Some p" None]
    by (intro linked_set_prev) (auto dest: final_mem)
  ultimately show ?thesis
    using assms(2) by (simp add: unlink_heap_def)
qed

lemma linked_unlink_other:
  assumes "set zs \<inter> set (xs @ p # ys) = {}"
  shows "linked (unlink_heap xs p ys H) pr zs nx = linked H pr zs nx"
proof -
  have "first ys None \<notin> Some ` set zs" "final None xs \<notin> Some ` set zs" "p \<notin> set zs"
    using assms first_mem [of ys] final_mem [of xs] by fastforce+
  then show ?thesis
    by (simp add: unlink_heap_def linked_set_prev_other linked_set_next_other)
qed

lemma wheel_rep_disjoint: "wheel_rep pend w L \<Longrightarrow> i < length L \<Longrightarrow> p \<in> set (L ! i) \<Longrightarrow> p \<notin> set pend"
  unfolding wheel_rep_def pending_def by blast

lemma wheel_rep_armed:
  assumes "wheel_rep pend w L" "i < length L" "p \<in> set (L ! i)"
  shows "armed_in (w_conns w) i p"
  using wheel_rep_disjoint [OF assms] assms unfolding wheel_rep_def by blast

lemma wheel_rep_armed_iff:
  "wheel_rep pend w L \<Longrightarrow> p \<notin> set pend \<Longrightarrow> armed_in (w_conns w) i p \<longleftrightarrow> i < length L \<and> p \<in> set (L ! i)"
  unfolding wheel_rep_def by blast

lemma wheel_rep_pend:
  assumes "wheel_rep pend w L"
  shows "distinct pend" "chained (w_conns w) pend" "p \<in> set pend \<Longrightarrow> is_armed (w_conns w) p"
  using assms unfolding wheel_rep_def pending_def by blast+

lemma wheel_rep_unarmed: "wheel_rep pend w L \<Longrightarrow> w_conns w p = Some c \<Longrightarrow> \<not> deadline_active (c_dl c) \<Longrightarrow> p \<notin> set pend"
  using wheel_rep_pend(3) [of pend w L p] by (auto simp: is_armed_def)

lemma wheel_rep_unique:
  assumes "wheel_rep pend w L" "i < length L" "j < length L" "p \<in> set (L ! i)" "p \<in> set (L ! j)"
  shows "i = j"
proof -
  have "armed_in (w_conns w) i p" "armed_in (w_conns w) j p"
    using assms wheel_rep_armed by blast+
  then show ?thesis
    by (auto simp: armed_in_def split: option.splits)
qed

lemma wheel_rep_bucket:
  assumes "wheel_rep pend w L" "i < length L"
  shows "tw_buckets w ! i = first (L ! i) None" "linked (w_conns w) None (L ! i) None" "distinct (L ! i)"
  using assms by (simp_all add: wheel_rep_def)

lemma wheel_rep_member:
  assumes "wheel_rep pend w L" "w_conns w p = Some c" "deadline_active (c_dl c)" "p \<notin> set pend"
  shows "tw_slot (c_link c) < length L" "p \<in> set (L ! tw_slot (c_link c))"
proof -
  have "armed_in (w_conns w) (tw_slot (c_link c)) p"
    using assms by (simp add: armed_in_def)
  then show "tw_slot (c_link c) < length L" "p \<in> set (L ! tw_slot (c_link c))"
    using wheel_rep_armed_iff [OF assms(1,4)] by simp_all
qed

lemma wheel_rep_not_member:
  assumes "wheel_rep pend w L" "w_conns w p = Some c" "\<not> deadline_active (c_dl c)" "i < length L"
  shows "p \<notin> set (L ! i)"
proof -
  have "\<not> armed_in (w_conns w) i p"
    using assms(2,3) by (simp add: armed_in_def)
  then show ?thesis
    using wheel_rep_armed [OF assms(1,4)] by blast
qed

lemma tw_remove_heap:
  assumes rep: "wheel_rep pend w L" and c: "w_conns w p = Some c" and a: "deadline_active (c_dl c)"
    and np: "p \<notin> set pend" and s: "s = tw_slot (c_link c)" and split: "L ! s = xs @ p # ys"
  shows "tw_remove_internal p w =
    Some (w\<lparr>w_conns := unlink_heap xs p ys (w_conns w),
            tw_buckets := (tw_buckets w)[s := first (xs @ ys) None]\<rparr>)"
proof -
  have l: "s < length L" "s < length (tw_buckets w)"
    using wheel_rep_member [OF rep c a np] rep s by (auto simp: wheel_rep_def)
  have k: "linked (w_conns w) None (xs @ p # ys) None" "distinct (xs @ p # ys)"
    "tw_buckets w ! s = first (xs @ p # ys) None"
    using wheel_rep_bucket [OF rep l(1)] split by auto
  then have pn: "tw_prev (c_link c) = final None xs" "tw_next (c_link c) = first ys None"
    using c by auto
  show ?thesis
  proof (cases xs rule: rev_cases)
    case Nil
    then show ?thesis
      using k l a c pn s
      by (cases ys) (auto simp: tw_remove_internal_def getc_def set_bucket_def upd_link_def upd_dl_def
          updc_def unlink_heap_def set_prev_def set_next_def detached_def split: option.splits)
  next
    case (snoc us u)
    have "(tw_buckets w)[s := first (xs @ ys) None] = tw_buckets w"
      using k(3) snoc by (metis append_assoc first_append first.simps(2) list_update_id append_Cons append_Nil neq_Nil_conv append_is_Nil_conv)
    then show ?thesis
      using k l a c pn s snoc
      by (cases ys) (auto simp: tw_remove_internal_def getc_def set_bucket_def upd_link_def upd_dl_def
          updc_def unlink_heap_def set_prev_def set_next_def detached_def fun_upd_twist split: option.splits)
  qed
qed

lemma map_removeAll:
  assumes "s < length L" "L ! s = xs @ p # ys" "p \<notin> set (xs @ ys)"
    and "\<And>i. i < length L \<Longrightarrow> i \<noteq> s \<Longrightarrow> p \<notin> set (L ! i)"
  shows "map (removeAll p) L = L[s := xs @ ys]"
proof (rule nth_equalityI)
  fix i
  assume "i < length (map (removeAll p) L)"
  then show "map (removeAll p) L ! i = L[s := xs @ ys] ! i"
    using assms by (cases "i = s") simp_all
qed simp

lemma unlink_core:
  "q \<noteq> p \<Longrightarrow> map_option core (unlink_heap xs p ys H q) = map_option core (H q)"
  by (simp add: unlink_heap_def)

lemma unlink_self [simp]: "unlink_heap xs p ys H p = map_option detached (H p)"
  by (simp add: unlink_heap_def)

lemma wheel_rep_update:
  assumes rep: "wheel_rep pend w L" and s: "s < length L" and d: "distinct zs"
    and lin: "linked H None zs None" "\<And>i. i < length L \<Longrightarrow> i \<noteq> s \<Longrightarrow> linked H None (L ! i) None"
    and arm: "\<And>i q. q \<notin> set pend \<Longrightarrow> armed_in H i q \<longleftrightarrow> i < length L \<and> q \<in> set (L[s := zs] ! i)"
    and pn: "\<And>q. q \<in> set pend \<Longrightarrow> H q = w_conns w q \<and> q \<notin> set zs"
  shows "wheel_rep pend (w\<lparr>w_conns := H, tw_buckets := (tw_buckets w)[s := first zs None]\<rparr>) (L[s := zs])"
proof -
  have len: "length L = length (tw_buckets w)"
    using rep by (simp add: wheel_rep_def)
  have "(tw_buckets w)[s := first zs None] ! i = first (L[s := zs] ! i) None \<and>
        linked H None (L[s := zs] ! i) None \<and> distinct (L[s := zs] ! i)" if "i < length L" for i
    using that s d lin len wheel_rep_bucket [OF rep] by (cases "i = s") simp_all
  moreover have "pending pend (w\<lparr>w_conns := H, tw_buckets := (tw_buckets w)[s := first zs None]\<rparr>) (L[s := zs])"
  proof -
    have "set (L[s := zs] ! i) \<inter> set pend = {}" if "i < length L" for i
      using that pn wheel_rep_disjoint [OF rep that] by (cases "i = s") auto
    then show ?thesis
      using wheel_rep_pend [OF rep] pn chained_cong [of pend H "w_conns w"] by (simp add: pending_def is_armed_def)
  qed
  ultimately show ?thesis
    using arm len by (simp add: wheel_rep_def)
qed

lemma unlink_apart: "q \<notin> set (xs @ p # ys) \<Longrightarrow> unlink_heap xs p ys H q = H q"
  using first_mem [of ys q] final_mem [of xs q]
  by (cases "first ys None"; cases "final None xs") (auto simp: unlink_heap_def set_prev_def set_next_def)

lemma wheel_rep_unlink:
  assumes rep: "wheel_rep pend w L" and s: "s < length L" and split: "L ! s = xs @ p # ys"
  shows "wheel_rep pend (w\<lparr>w_conns := unlink_heap xs p ys (w_conns w),
           tw_buckets := (tw_buckets w)[s := first (xs @ ys) None]\<rparr>) (L[s := xs @ ys])"
proof -
  let ?H = "unlink_heap xs p ys (w_conns w)"
  have b: "linked (w_conns w) None (xs @ p # ys) None" "distinct (xs @ p # ys)"
    using wheel_rep_bucket [OF rep s] split by auto
  have dis: "set (L ! i) \<inter> set (xs @ p # ys) = {}" if "i < length L" "i \<noteq> s" for i
    using that wheel_rep_unique [OF rep that(1) s] split by (metis disjoint_iff)
  have arm: "armed_in ?H i q \<longleftrightarrow> i < length L \<and> q \<in> set (L[s := xs @ ys] ! i)" if pn: "q \<notin> set pend" for i q
  proof (cases "q = p")
    case True
    have "p \<notin> set (L[s := xs @ ys] ! i)" if "i < length L"
      using that dis [of i] b(2) by (cases "i = s") auto
    then show ?thesis
      using True by (auto simp: armed_in_def detached_def split: option.splits)
  next
    case False
    have "armed_in ?H i q \<longleftrightarrow> i < length L \<and> q \<in> set (L ! i)"
      using wheel_rep_armed_iff [OF rep pn] armed_in_core [of ?H q "w_conns w" i]
        unlink_core [OF False, of xs ys "w_conns w"] by simp
    then show ?thesis
      using False split s by (cases "i = s") auto
  qed
  have "?H q = w_conns w q \<and> q \<notin> set (xs @ ys)" if "q \<in> set pend" for q
    using that wheel_rep_disjoint [OF rep s, of q] split unlink_apart [of q xs p ys] by auto
  then show ?thesis
    using b(2) linked_unlink [OF b] linked_unlink_other [OF dis] wheel_rep_bucket(2) [OF rep] arm
    by (intro wheel_rep_update [OF rep s]) (simp_all del: linked_append)
qed

text \<open>\<open>remove\<close> takes the connection out of the bucket it is in, whichever that is.\<close>

lemma tw_remove_rep:
  assumes rep: "wheel_rep pend w L" and c: "w_conns w p = Some c" and np: "p \<notin> set pend"
  shows "\<exists>w'. tw_remove_internal p w = Some w' \<and> wheel_rep pend w' (map (removeAll p) L) \<and> wheel_frame p w w' \<and>
           w_conns w' p = Some (if deadline_active (c_dl c) then detached c else c)"
proof (cases "deadline_active (c_dl c)")
  case True
  let ?s = "tw_slot (c_link c)"
  have s: "?s < length L" and m: "p \<in> set (L ! ?s)"
    using wheel_rep_member [OF rep c True np] by auto
  obtain xs ys where split: "L ! ?s = xs @ p # ys"
    using split_list [OF m] by blast
  have "p \<notin> set (xs @ ys)"
    using wheel_rep_bucket(3) [OF rep s] split by auto
  then have L: "map (removeAll p) L = L[?s := xs @ ys]"
    using map_removeAll [OF s split] wheel_rep_unique [OF rep _ s _ m] by blast
  let ?w = "w\<lparr>w_conns := unlink_heap xs p ys (w_conns w), tw_buckets := (tw_buckets w)[?s := first (xs @ ys) None]\<rparr>"
  have "wheel_frame p w ?w"
    by (simp add: wheel_frame_def rest_def unlink_core)
  moreover have "w_conns ?w p = Some (if deadline_active (c_dl c) then detached c else c)"
    using c True by simp
  ultimately show ?thesis
    unfolding L using tw_remove_heap [OF rep c True np refl split] wheel_rep_unlink [OF rep s split] by blast
next
  case False
  have "map (removeAll p) L = L"
    using wheel_rep_not_member [OF rep c False] by (intro nth_equalityI) simp_all
  moreover have "tw_remove_internal p w = Some w" "wheel_frame p w w"
    using c False by (simp_all add: tw_remove_internal_def getc_def wheel_frame_def)
  ultimately show ?thesis
    using rep c False by simp
qed

definition link_heap :: "nat \<Rightarrow> nat \<Rightarrow> u64 \<Rightarrow> nat list \<Rightarrow> (nat \<Rightarrow> conn option) \<Rightarrow> nat \<Rightarrow> conn option" where
  "link_heap p s d xs H =
     (set_prev (first xs None) (Some p) H)
       (p := map_option (\<lambda>c. c\<lparr>c_link := (c_link c)\<lparr>tw_slot := s, tw_next := first xs None, tw_prev := None\<rparr>,
                               c_dl := (c_dl c)\<lparr>deadline_ms := d, deadline_active := True\<rparr>\<rparr>) (H p))"

lemma link_core: "q \<noteq> p \<Longrightarrow> map_option core (link_heap p s d xs H q) = map_option core (H q)"
  by (simp add: link_heap_def)

lemma tw_slot_for_cong [simp]:
  "tw_slot_for (w\<lparr>w_conns := H\<rparr>) now d = tw_slot_for w now d"
  "tw_slot_for (w\<lparr>tw_buckets := B\<rparr>) now d = tw_slot_for w now d"
  by (simp_all add: tw_slot_for_def Let_def)

lemma tw_insert_heap:
  assumes rep: "wheel_rep pend w L" and c: "w_conns w p = Some c" and f: "c_fd c \<ge> 0"
    and s: "s = tw_slot_for w now d" "s < length L" and n: "\<not> deadline_active (c_dl c)"
  shows "tw_insert_internal p now d w =
    Some (w\<lparr>w_conns := link_heap p s d (L ! s) (w_conns w), tw_buckets := (tw_buckets w)[s := Some p]\<rparr>)"
proof -
  have b: "tw_buckets w ! s = first (L ! s) None" "linked (w_conns w) None (L ! s) None"
    "s < length (tw_buckets w)"
    using wheel_rep_bucket [OF rep s(2)] rep s(2) by (auto simp: wheel_rep_def)
  have np: "p \<notin> set (L ! s)"
    by (rule wheel_rep_not_member [OF rep c n s(2)])
  show ?thesis
    using b np c f s(1)
    by (cases "L ! s")
      (auto simp: tw_insert_internal_def getc_def upd_dl_def upd_link_def updc_def get_bucket_def
        set_bucket_def link_heap_def set_prev_def Let_def fun_upd_twist split: option.splits)
qed

lemma wheel_rep_link:
  assumes rep: "wheel_rep pend w L" and c: "w_conns w p = Some c" and n: "\<not> deadline_active (c_dl c)"
    and s: "s < length L"
  shows "wheel_rep pend (w\<lparr>w_conns := link_heap p s d (L ! s) (w_conns w), tw_buckets := (tw_buckets w)[s := Some p]\<rparr>)
           (L[s := p # L ! s])"
proof -
  let ?H = "link_heap p s d (L ! s) (w_conns w)"
  have np: "p \<notin> set (L ! i)" if "i < length L" for i
    by (rule wheel_rep_not_member [OF rep c n that])
  have lin: "linked ?H None (p # L ! s) None"
    using linked_set_prev [OF wheel_rep_bucket(2,3) [OF rep s], of "Some p"] np [OF s] c
    by (simp add: link_heap_def)
  have other: "linked ?H None (L ! i) None" if i: "i < length L" "i \<noteq> s" for i
  proof -
    have "first (L ! s) None \<notin> Some ` set (L ! i)"
      using i wheel_rep_unique [OF rep i(1) s] first_mem [of "L ! s"] by fastforce
    then show ?thesis
      using wheel_rep_bucket(2) [OF rep i(1)] np [OF i(1)] by (simp add: link_heap_def linked_set_prev_other)
  qed
  have arm: "armed_in ?H i q \<longleftrightarrow> i < length L \<and> q \<in> set (L[s := p # L ! s] ! i)" if pn: "q \<notin> set pend" for i q
  proof (cases "q = p")
    case True
    then show ?thesis
      using c s np by (cases "i = s") (auto simp: armed_in_def link_heap_def)
  next
    case False
    have "armed_in ?H i q = armed_in (w_conns w) i q"
      by (rule armed_in_core) (rule link_core [OF False])
    also have "\<dots> \<longleftrightarrow> i < length L \<and> q \<in> set (L ! i)"
      by (rule wheel_rep_armed_iff [OF rep pn])
    also have "\<dots> \<longleftrightarrow> i < length L \<and> q \<in> set (L[s := p # L ! s] ! i)"
      using False s by (cases "i = s") auto
    finally show ?thesis .
  qed
  have d: "distinct (p # L ! s)"
    using np [OF s] wheel_rep_bucket(3) [OF rep s] by simp
  have "?H q = w_conns w q \<and> q \<notin> set (p # L ! s)" if "q \<in> set pend" for q
  proof -
    have "q \<notin> set (L ! s)" "q \<noteq> p"
      using that wheel_rep_disjoint [OF rep s] wheel_rep_unarmed [OF rep c n] by auto
    then show ?thesis
      using first_mem [of "L ! s" q] by (cases "first (L ! s) None") (auto simp: link_heap_def set_prev_def)
  qed
  then show ?thesis
    using wheel_rep_update [OF rep s d lin other arm] by simp
qed

definition TW_SLOTS :: nat where "TW_SLOTS = 1024"
definition TW_TICK_MS :: u32 where "TW_TICK_MS = 100"

text \<open>The wheel as \<open>tw_init\<close> leaves it when it is called with the build's constants.\<close>

definition wheel_wf :: "worker_ctx \<Rightarrow> bool" where
  "wheel_wf w \<longleftrightarrow> length (tw_buckets w) = TW_SLOTS \<and> tw_mask w = 1023 \<and> tw_tick_ms w = TW_TICK_MS"

lemma unat_mask_slots: "unat (ucast (x AND 1023) :: u32) = unat (x :: u64) mod 1024"
proof -
  have m: "(1023 :: u64) = mask 10"
    by (simp add: mask_eq_exp_minus_1)
  have x: "unat (x AND mask 10 :: u64) = unat x mod 1024"
    by (simp add: take_bit_eq_mask [symmetric] take_bit_eq_mod unat_mod)
  have "unat x mod 1024 < 1024"
    by simp
  then have "unat (x AND mask 10 :: u64) < 2 ^ 32"
    unfolding x by simp
  then show ?thesis
    unfolding m x [symmetric] by (simp add: unsigned_ucast_eq take_bit_nat_eq_self)
qed

lemma tw_slot_for_eq:
  assumes "wheel_wf w"
  shows "tw_slot_for w now d =
    unat (tw_now_tick w + (if d > now then d - now else 0) div 100) mod 1024"
  using assms by (simp add: tw_slot_for_def wheel_wf_def TW_TICK_MS_def Let_def unat_mask_slots)

lemma tw_slot_for_less:
  assumes "wheel_wf w" "wheel_rep pend w L"
  shows "tw_slot_for w now d < length L"
  using assms by (simp add: tw_slot_for_eq wheel_rep_def) (simp add: wheel_wf_def TW_SLOTS_def)

definition armed_at :: "nat \<Rightarrow> u64 \<Rightarrow> nat option \<Rightarrow> conn \<Rightarrow> conn" where
  "armed_at s d nx c =
     c\<lparr>c_link := (c_link c)\<lparr>tw_slot := s, tw_next := nx, tw_prev := None\<rparr>,
       c_dl := (c_dl c)\<lparr>deadline_ms := d, deadline_active := True\<rparr>\<rparr>"

lemma tw_insert_rep:
  assumes rep: "wheel_rep pend w L" and wf: "wheel_wf w" and c: "w_conns w p = Some c"
    and n: "\<not> deadline_active (c_dl c)" and f: "c_fd c \<ge> 0" and s: "s = tw_slot_for w now d"
  shows "\<exists>w'. tw_insert_internal p now d w = Some w' \<and> wheel_rep pend w' (L[s := p # L ! s]) \<and>
           wheel_frame p w w' \<and> w_conns w' p = Some (armed_at s d (first (L ! s) None) c)"
proof -
  have l: "s < length L"
    using tw_slot_for_less [OF wf rep] s by simp
  let ?w = "w\<lparr>w_conns := link_heap p s d (L ! s) (w_conns w), tw_buckets := (tw_buckets w)[s := Some p]\<rparr>"
  have "wheel_frame p w ?w"
    by (simp add: wheel_frame_def rest_def link_core)
  moreover have "w_conns ?w p = Some (armed_at s d (first (L ! s) None) c)"
    using c by (simp add: link_heap_def armed_at_def)
  ultimately show ?thesis
    using tw_insert_heap [OF rep c f s l n] wheel_rep_link [OF rep c n l] by blast
qed

lemma wheel_frame_refl [simp]: "wheel_frame p w w"
  by (simp add: wheel_frame_def)

lemma wheel_frame_trans: "wheel_frame p w w1 \<Longrightarrow> wheel_frame p w1 w2 \<Longrightarrow> wheel_frame p w w2"
  by (simp add: wheel_frame_def)

lemma upd_dl_eq:
  assumes "w_conns w p = Some c"
  shows "upd_dl p f w = Some (w\<lparr>w_conns := (w_conns w)(p := Some (c\<lparr>c_dl := f (c_dl c)\<rparr>))\<rparr>)"
  using assms by (simp add: upd_dl_def updc_def)

text \<open>Writing fields of a connection other than its wheel links leaves the buckets as they are.\<close>

lemma wheel_rep_upd:
  assumes "wheel_rep pend w L" "w_conns w p = Some c" "link_view c' = link_view c"
  shows "wheel_rep pend (w\<lparr>w_conns := (w_conns w)(p := Some c')\<rparr>) L"
proof -
  have "same_wheel w (w\<lparr>w_conns := (w_conns w)(p := Some c')\<rparr>)"
    using assms(2,3) by (simp add: same_wheel_def)
  then show ?thesis
    using wheel_rep_same assms(1) by blast
qed

lemma deadline_fd: "snd (tw_compute_conn_deadline g c) \<noteq> 0 \<Longrightarrow> c_fd c \<ge> 0"
  by (auto simp: tw_compute_conn_deadline_def tw_conn_get_state_def Let_def split: if_splits)

text \<open>What the wheel is meant to do with its lists.\<close>

definition rearm :: "nat \<Rightarrow> nat \<Rightarrow> u64 \<Rightarrow> nat list list \<Rightarrow> nat list list" where
  "rearm p s d L =
     (let L' = map (removeAll p) L in if d = 0 then L' else L'[s := p # L' ! s])"

lemma rest_eqD:
  assumes "rest w' = rest w"
  shows "w_cfg w' = w_cfg w" "tw_mask w' = tw_mask w" "tw_tick_ms w' = tw_tick_ms w"
    "tw_now_tick w' = tw_now_tick w" "w_store w' = w_store w" "w_trace w' = w_trace w"
    "conn_free_list w' = conn_free_list w" "conn_free_count w' = conn_free_count w"
    "active_fds w' = active_fds w" "tw_slots w' = tw_slots w"
    "next_tick_deadline_ms w' = next_tick_deadline_ms w"
  using arg_cong [OF assms, of w_cfg] arg_cong [OF assms, of tw_mask] arg_cong [OF assms, of tw_tick_ms]
    arg_cong [OF assms, of tw_now_tick] arg_cong [OF assms, of w_store] arg_cong [OF assms, of w_trace]
    arg_cong [OF assms, of conn_free_list] arg_cong [OF assms, of conn_free_count]
    arg_cong [OF assms, of active_fds] arg_cong [OF assms, of tw_slots]
    arg_cong [OF assms, of next_tick_deadline_ms]
  by (simp_all add: rest_def)

lemma wheel_wf_frame:
  assumes "wheel_frame p w w'" "wheel_rep pend w L" "wheel_rep pend w' L'" "length L' = length L" "wheel_wf w"
  shows "wheel_wf w'"
  using assms rest_eqD [of w' w] by (auto simp: wheel_wf_def wheel_frame_def wheel_rep_def)

lemma tw_slot_for_frame: "wheel_frame p w w' \<Longrightarrow> tw_slot_for w' now d = tw_slot_for w now d"
  using rest_eqD [of w' w] by (simp add: wheel_frame_def tw_slot_for_def)

lemma length_rearm [simp]: "length (rearm p s d L) = length L"
  by (simp add: rearm_def Let_def)

text \<open>The connection after it has been rescheduled.\<close>

definition rescheduled :: "worker_ctx \<Rightarrow> u64 \<Rightarrow> conn \<Rightarrow> conn \<Rightarrow> bool" where
  "rescheduled w now c c' \<longleftrightarrow>
     (let (k, d) = tw_compute_conn_deadline (w_cfg w) c in
        dl_kind (c_dl c') = k \<and> (deadline_active (c_dl c') \<longleftrightarrow> d \<noteq> 0) \<and>
        (d \<noteq> 0 \<longrightarrow> deadline_ms (c_dl c') = d) \<and>
        c_dl c' = (c_dl c)\<lparr>dl_kind := dl_kind (c_dl c'), deadline_ms := deadline_ms (c_dl c'),
                           deadline_active := deadline_active (c_dl c')\<rparr> \<and>
        c' = c\<lparr>c_link := (c_link c)\<lparr>tw_prev := tw_prev (c_link c'), tw_next := tw_next (c_link c'),
                                   tw_slot := tw_slot (c_link c')\<rparr>, c_dl := c_dl c'\<rparr>)"

lemma tw_reschedule_rep:
  assumes rep: "wheel_rep pend w L" and wf: "wheel_wf w" and c: "w_conns w p = Some c"
    and np: "p \<notin> set pend" and kd: "tw_compute_conn_deadline (w_cfg w) c = (k, d)"
  shows "\<exists>w' c'. tw_reschedule p now w = Some w' \<and>
    wheel_rep pend w' (rearm p (tw_slot_for w now d) d L) \<and> wheel_frame p w w' \<and>
    w_conns w' p = Some c' \<and> rescheduled w now c c'"
proof -
  define c1 where "c1 = c\<lparr>c_dl := (c_dl c)\<lparr>dl_kind := k\<rparr>\<rparr>"
  define w1 where "w1 = w\<lparr>w_conns := (w_conns w)(p := Some c1)\<rparr>"
  have s: "tw_store_deadline p w = Some (d, w1)"
    using c kd by (simp add: tw_store_deadline_def getc_def upd_dl_eq w1_def c1_def)
  have r1: "wheel_rep pend w1 L" and f1: "wheel_frame p w w1" and c1: "w_conns w1 p = Some c1"
    using wheel_rep_upd [OF rep c, of c1] by (simp_all add: w1_def c1_def link_view_def wheel_frame_def rest_def)
  obtain w2 where w2: "tw_remove_internal p w1 = Some w2" "wheel_rep pend w2 (map (removeAll p) L)"
      "wheel_frame p w1 w2" "w_conns w2 p = Some (if deadline_active (c_dl c1) then detached c1 else c1)"
    using tw_remove_rep [OF r1 c1 np] by blast
  define c2 where "c2 = (if deadline_active (c_dl c1) then detached c1 else c1)"
  have c2: "w_conns w2 p = Some c2" "\<not> deadline_active (c_dl c2)" "c_fd c2 = c_fd c"
    using w2(4) by (simp_all add: c2_def detached_def c1_def)
  have f2: "wheel_frame p w w2"
    using wheel_frame_trans [OF f1 w2(3)] .
  show ?thesis
  proof (cases "d = 0")
    case True
    have "rescheduled w now c c2"
      using kd True by (simp add: rescheduled_def c2_def c1_def detached_def)
    then show ?thesis
      using True s w2(1,2) f2 c2(1) by (auto simp: tw_reschedule_def rearm_def Let_def)
  next
    case False
    have fd: "c_fd c2 \<ge> 0"
      using deadline_fd [of "w_cfg w" c] kd False c2(3) by simp
    have wf2: "wheel_wf w2"
      using wheel_wf_frame [OF f2 rep w2(2) _ wf] by simp
    define sl where "sl = tw_slot_for w2 now d"
    obtain w3 where w3: "tw_insert_internal p now d w2 = Some w3"
        "wheel_rep pend w3 ((map (removeAll p) L)[sl := p # map (removeAll p) L ! sl])" "wheel_frame p w2 w3"
        "w_conns w3 p = Some (armed_at sl d (first (map (removeAll p) L ! sl) None) c2)"
      using tw_insert_rep [OF w2(2) wf2 c2(1,2) fd sl_def] by blast
    have "rescheduled w now c (armed_at sl d (first (map (removeAll p) L ! sl) None) c2)"
      using kd False by (simp add: rescheduled_def c2_def c1_def detached_def armed_at_def)
    then show ?thesis
      using False s w2(1) w3 wheel_frame_trans [OF f2 w3(3)] tw_slot_for_frame [OF f2, of now d]
      by (auto simp: tw_reschedule_def rearm_def Let_def sl_def)
  qed
qed

end
