(* ===== verification/Conn_Lifecycle.thy ===== *)
theory Conn_Lifecycle
  imports Timing_Wheel
begin

text \<open>
  \<^verbatim>\<open>src/src/conn_lifecycle.c\<close>: allocation and reference counts of connections, the freelist, the
  set of active descriptors, initialisation, the reset at a keep-alive boundary, and closing; with
  the per-connection TLS teardown of \<^verbatim>\<open>src/src/tls.c\<close> and the poll cancellation of
  \<^verbatim>\<open>src/src/worker_loop.c\<close> it calls. Peer addresses, which only the access log reads, are left out.
\<close>

section \<open>The model\<close>

subsection \<open>Allocation\<close>

definition CONN_FREELIST_CAP :: nat where "CONN_FREELIST_CAP = 32768"

definition active_conns_inc :: "worker_ctx \<Rightarrow> worker_ctx" where
  "active_conns_inc w = w\<lparr>g_active_conns := g_active_conns w + 1\<rparr>"

definition active_conns_dec :: "worker_ctx \<Rightarrow> worker_ctx" where
  "active_conns_dec w =
     (if g_active_conns w = 0 then w else w\<lparr>g_active_conns := g_active_conns w - 1\<rparr>)"

text \<open>The outcome of \<open>calloc\<close> is the next entry of \<open>w_callocs\<close>.\<close>

definition conn_alloc :: "worker_ctx \<Rightarrow> (nat option \<times> worker_ctx) option" where
  "conn_alloc w =
     (case conn_free_list w of
        Some p \<Rightarrow> do {
          c \<leftarrow> getc p w;
          Some (Some p, w\<lparr>conn_free_list := free_next c, conn_free_count := conn_free_count w - 1,
                          w_conns := (w_conns w)(p := Some conn_zero)\<rparr>)
        }
      | None \<Rightarrow>
          (case w_callocs w of
             Some p # ms \<Rightarrow> Some (Some p, w\<lparr>w_callocs := ms, w_conns := (w_conns w)(p := Some conn_zero)\<rparr>)
           | _ \<Rightarrow> Some (None, w\<lparr>w_callocs := tl (w_callocs w)\<rparr>)))"

definition load_arena :: "worker_ctx \<Rightarrow> http1_state \<Rightarrow> http1_state" where
  "load_arena w h =
     h\<lparr>arena := (arena h)\<lparr>ar_cache := ar_cache (w_arena w), ar_cache_count := ar_cache_count (w_arena w),
                         ar_freed := ar_freed (w_arena w)\<rparr>\<rparr>"

definition save_arena :: "http1_state \<Rightarrow> worker_ctx \<Rightarrow> worker_ctx" where
  "save_arena h w =
     w\<lparr>w_arena := (w_arena w)\<lparr>ar_cache := ar_cache (arena h), ar_cache_count := ar_cache_count (arena h),
                             ar_freed := ar_freed (arena h)\<rparr>\<rparr>"

definition tls_conn_shutdown :: "nat \<Rightarrow> conn \<Rightarrow> worker_ctx \<Rightarrow> worker_ctx" where
  "tls_conn_shutdown p c w = (if tls_handle c then act (Act_tls_shutdown p) w else w)"

definition tls_conn_destroy :: "nat \<Rightarrow> worker_ctx \<Rightarrow> worker_ctx option" where
  "tls_conn_destroy p w = do {
     c \<leftarrow> getc p w;
     updc p (\<lambda>c. c\<lparr>tls_enabled := False, tls_handshake_done := False, tls_want_read := False,
                    tls_want_write := False, tls_handle := False\<rparr>)
       (if tls_handle c then act (Act_tls_destroy p) w else w)
   }"

definition conn_recycle_stash :: "nat \<Rightarrow> worker_ctx \<Rightarrow> worker_ctx option" where
  "conn_recycle_stash p w = do {
     c \<leftarrow> getc p w;
     (case rx_stash (c_rx c) of
        None \<Rightarrow> Some w
      | Some (b, _) \<Rightarrow>
          updc p (\<lambda>c. c\<lparr>c_rx := (c_rx c)\<lparr>rx_stash := None, rx_stash_len := 0\<rparr>\<rparr>)
            (w\<lparr>w_rx_pool := rx_stash_free (Some b) (w_rx_pool w)\<rparr>))
   }"

definition conn_recycle_arena :: "nat \<Rightarrow> worker_ctx \<Rightarrow> worker_ctx option" where
  "conn_recycle_arena p w = do {
     c \<leftarrow> getc p w;
     let h = load_arena w (c_h1 c);
     let h' = h\<lparr>arena := req_arena_destroy (arena h), target := None, path_dec := None,
               path_norm := None, req_hdrs := []\<rparr>;
     updc p (\<lambda>c. c\<lparr>c_h1 := h'\<rparr>) (save_arena h' w)
   }"

definition conn_recycle :: "nat \<Rightarrow> worker_ctx \<Rightarrow> worker_ctx option" where
  "conn_recycle p w = do {
     c \<leftarrow> getc p w;
     w1 \<leftarrow> (if tls_enabled c \<or> tls_handle c then tls_conn_destroy p w else Some w);
     w2 \<leftarrow> conn_recycle_stash p w1;
     w3 \<leftarrow> upd_tx p tx_reset w2;
     w4 \<leftarrow> conn_recycle_arena p w3;
     w5 \<leftarrow> updc p (\<lambda>c. c\<lparr>c_dl := (c_dl c)\<lparr>deadline_active := False\<rparr>,
                         c_link := (c_link c)\<lparr>tw_prev := None, tw_next := None, in_active_set := False,
                                             active_idx := - 1\<rparr>,
                         c_fd := - 1\<rparr>) w4;
     if conn_free_count w5 \<ge> CONN_FREELIST_CAP then
       Some (act (Act_eff (Free p)) (w5\<lparr>w_conns := (w_conns w5)(p := None)\<rparr>))
     else do {
       w6 \<leftarrow> updc p (\<lambda>c. c\<lparr>free_next := conn_free_list w5\<rparr>) w5;
       Some (w6\<lparr>conn_free_list := Some p, conn_free_count := conn_free_count w5 + 1\<rparr>)
     }
   }"

definition conn_ref :: "nat \<Rightarrow> worker_ctx \<Rightarrow> worker_ctx option" where
  "conn_ref p = updc p (\<lambda>c. c\<lparr>refcnt := refcnt c + 1\<rparr>)"

definition conn_put :: "nat \<Rightarrow> worker_ctx \<Rightarrow> worker_ctx option" where
  "conn_put p w = do {
     w1 \<leftarrow> updc p (\<lambda>c. c\<lparr>refcnt := refcnt c - 1\<rparr>) w;
     c \<leftarrow> getc p w1;
     if refcnt c = 0 then conn_recycle p w1 else Some w1
   }"

partial_function (option) conn_freelist_drain :: "worker_ctx \<Rightarrow> worker_ctx option" where
  "conn_freelist_drain w =
     (case conn_free_list w of
        None \<Rightarrow> Some (w\<lparr>conn_free_count := 0\<rparr>)
      | Some p \<Rightarrow>
          Option.bind (getc p w)
            (\<lambda>c. conn_freelist_drain
                   (act (Act_eff (Free p)) (w\<lparr>w_conns := (w_conns w)(p := None), conn_free_list := free_next c\<rparr>))))"

subsection \<open>The set of active descriptors\<close>

definition conn_get :: "int \<Rightarrow> worker_ctx \<Rightarrow> nat option" where
  "conn_get fd w = w_store w fd"

definition conn_store_remove :: "int \<Rightarrow> worker_ctx \<Rightarrow> worker_ctx" where
  "conn_store_remove fd w = w\<lparr>w_store := (w_store w)(fd := None)\<rparr>"

text \<open>A new key may need a larger table; \<open>w_puts\<close> holds the outcomes.\<close>

definition conn_store_insert :: "int \<Rightarrow> nat \<Rightarrow> worker_ctx \<Rightarrow> bool \<times> worker_ctx" where
  "conn_store_insert fd p w =
     (let w1 = w\<lparr>w_puts := tl (w_puts w)\<rparr>
      in if w_puts w \<noteq> [] \<and> hd (w_puts w) then (True, w1\<lparr>w_store := (w_store w)(fd \<mapsto> p)\<rparr>) else (False, w1))"

definition worker_active_grow :: "worker_ctx \<Rightarrow> bool \<times> worker_ctx" where
  "worker_active_grow w =
     (if length (active_fds w) = active_cap w then
        (let w1 = w\<lparr>w_reallocs := tl (w_reallocs w)\<rparr>
         in if w_reallocs w \<noteq> [] \<and> hd (w_reallocs w)
            then (True, w1\<lparr>active_cap := (if active_cap w \<noteq> 0 then active_cap w * 2 else 1024)\<rparr>)
            else (False, w1))
      else (True, w))"

definition worker_active_add :: "int \<Rightarrow> worker_ctx \<Rightarrow> worker_ctx option" where
  "worker_active_add fd w =
     (case conn_get fd w of
        None \<Rightarrow> Some w
      | Some p \<Rightarrow> do {
          c \<leftarrow> getc p w;
          if in_active_set (c_link c) then Some w
          else
            (let (ok, w1) = worker_active_grow w
             in if \<not> ok then Some w1
                else upd_link p (\<lambda>l. l\<lparr>in_active_set := True, active_idx := int (length (active_fds w))\<rparr>)
                       (w1\<lparr>active_fds := active_fds w @ [fd]\<rparr>))
        })"

text \<open>The stored index, or the first place of the descriptor when the index is stale.\<close>

definition active_place :: "int \<Rightarrow> int \<Rightarrow> int list \<Rightarrow> nat option" where
  "active_place fd idx fds =
     (if 0 \<le> idx \<and> nat idx < length fds \<and> fds ! nat idx = fd then Some (nat idx)
      else (let i = length (takeWhile (\<lambda>x. x \<noteq> fd) fds) in if i < length fds then Some i else None))"

definition worker_active_remove :: "int \<Rightarrow> worker_ctx \<Rightarrow> worker_ctx option" where
  "worker_active_remove fd w =
     (case conn_get fd w of
        None \<Rightarrow> Some w
      | Some p \<Rightarrow> do {
          c \<leftarrow> getc p w;
          if \<not> in_active_set (c_link c) then Some w
          else
            (case active_place fd (active_idx (c_link c)) (active_fds w) of
               None \<Rightarrow> upd_link p (\<lambda>l. l\<lparr>in_active_set := False, active_idx := - 1\<rparr>) w
             | Some idx \<Rightarrow> do {
                 let last = length (active_fds w) - 1;
                 let swapped = active_fds w ! last;
                 let w1 = w\<lparr>active_fds := take last ((active_fds w)[idx := swapped])\<rparr>;
                 w2 \<leftarrow> (if idx \<noteq> last then
                          (case conn_get swapped w1 of
                             None \<Rightarrow> Some w1
                           | Some q \<Rightarrow> upd_link q (\<lambda>l. l\<lparr>active_idx := int idx\<rparr>) w1)
                        else Some w1);
                 upd_link p (\<lambda>l. l\<lparr>in_active_set := False, active_idx := - 1\<rparr>) w2
               })
        })"

subsection \<open>Initialisation and reset\<close>

definition conn_default_max_body_bytes :: "worker_ctx \<Rightarrow> u64" where
  "conn_default_max_body_bytes w = cfg_or wc_default_max_body_bytes DEFAULT_MAX_BODY_BYTES (w_cfg w)"

definition conn_default_max_header_bytes :: "worker_ctx \<Rightarrow> nat" where
  "conn_default_max_header_bytes w =
     cfg_or (\<lambda>g. map_option unat (wc_max_header_bytes g)) DEFAULT_MAX_HEADER_BYTES (w_cfg w)"

text \<open>\<open>ms\<close> are the outcomes of the arena's later allocations for this connection.\<close>

definition conn_init_fields ::
    "nat option list \<Rightarrow> int \<Rightarrow> vhost_t option \<Rightarrow> u64 \<Rightarrow> u64 \<Rightarrow> worker_ctx \<Rightarrow> conn \<Rightarrow> conn" where
  "conn_init_fields ms fd vhost now us w c =
     c\<lparr>c_h1 := conn_init_h1 vhost (conn_default_max_header_bytes w) (conn_default_max_body_bytes w)
                 (w_arena w) ms,
       c_vhost := vhost, c_fed := [],
       c_dl := (c_dl c)\<lparr>last_active_ms := now, ka_idle := False, header_start_ms := now,
                       header_start_us := us\<rparr>,
       c_fd := fd, refcnt := 1, c_link := (c_link c)\<lparr>active_idx := - 1\<rparr>, c_tx := tx_init,
       generation := next_conn_generation w + 1, op_close_fd := - 1\<rparr>"

definition conn_init ::
    "nat option list \<Rightarrow> int \<Rightarrow> vhost_t option \<Rightarrow> worker_ctx \<Rightarrow> (bool \<times> worker_ctx) option" where
  "conn_init ms fd vhost w = do {
     (r, w1) \<leftarrow> conn_alloc w;
     (case r of
        None \<Rightarrow> Some (False, w1)
      | Some p \<Rightarrow> do {
          let (now, w2) = now_or_clock w1;
          let (us, w3) = next_us w2;
          w4 \<leftarrow> updc p (conn_init_fields ms fd vhost now us w3) w3;
          let (ok, w5) = conn_store_insert fd p
                           (w4\<lparr>next_conn_generation := next_conn_generation w4 + 1\<rparr>);
          if \<not> ok then do { w6 \<leftarrow> conn_recycle p w5; Some (False, w6) }
          else do {
            w6 \<leftarrow> worker_active_add fd (active_conns_inc w5);
            w7 \<leftarrow> tw_reschedule p now w6;
            Some (True, w7)
          }
        })
   }"

definition conn_reset_request :: "nat \<Rightarrow> worker_ctx \<Rightarrow> worker_ctx option" where
  "conn_reset_request p w = do {
     c \<leftarrow> getc p w;
     let h = conn_reset_h1 (conn_default_max_header_bytes w) (conn_default_max_body_bytes w)
               (load_arena w (c_h1 c));
     w1 \<leftarrow> updc p (\<lambda>c. c\<lparr>c_h1 := h, c_fed := [], c_rx := (c_rx c)\<lparr>rx_tail := []\<rparr>\<rparr>) (save_arena h w);
     let (now, w2) = now_or_clock w1;
     w3 \<leftarrow> conn_enter_keepalive_idle p now w2;
     w4 \<leftarrow> updc p (\<lambda>c. c\<lparr>c_dl := (c_dl c)\<lparr>write_start_ms := 0\<rparr>, noselect_streak := 0\<rparr>) w3;
     w5 \<leftarrow> upd_tx p tx_reset w4;
     w6 \<leftarrow> conn_clear_draining p w5;
     w7 \<leftarrow> updc p (\<lambda>c. c\<lparr>op_close_fd := - 1\<rparr>) w6;
     tw_reschedule p now w7
   }"

subsection \<open>Closing\<close>

definition worker_loop_cancel_write_poll_if_armed :: "nat \<Rightarrow> worker_ctx \<Rightarrow> (bool \<times> worker_ctx) option" where
  "worker_loop_cancel_write_poll_if_armed p w = do {
     c \<leftarrow> getc p w;
     if \<not> write_poll_armed (c_tx c) then Some (False, w)
     else
       (let (ok, w1) = get_sqe_batching w
        in if \<not> ok then Some (False, w1)
           else do {
             w2 \<leftarrow> updc p (\<lambda>c. c\<lparr>c_tx := tx_notify_poll_disarmed_staged (c_tx c)\<rparr>)
                     (post (Sqe_poll_remove p) w1);
             Some (True, w2)
           })
   }"

definition accept_is_fd_pressure :: "worker_ctx \<Rightarrow> bool" where
  "accept_is_fd_pressure w \<longleftrightarrow> accept_paused w \<or> accept_cancel_inflight w"

text \<open>Leaving the active set, the table and the count, which every way of closing ends with.\<close>

definition close_forget :: "int \<Rightarrow> worker_ctx \<Rightarrow> worker_ctx option" where
  "close_forget fd w = do {
     w1 \<leftarrow> worker_active_remove fd w;
     Some (active_conns_dec (conn_store_remove fd w1))
   }"

definition close_begin :: "nat \<Rightarrow> worker_ctx \<Rightarrow> worker_ctx option" where
  "close_begin p w = do {
     w1 \<leftarrow> upd_dl p (\<lambda>d. d\<lparr>abortive_close := False\<rparr>) w;
     w2 \<leftarrow> tw_cancel p w1;
     w3 \<leftarrow> conn_mark_closing p w2;
     w4 \<leftarrow> upd_tx p tx_close_attached_file w3;
     c \<leftarrow> getc p w4;
     Some (if tls_enabled c then tls_conn_shutdown p c w4 else w4)
   }"

definition close_now :: "bool \<Rightarrow> nat \<Rightarrow> int \<Rightarrow> worker_ctx \<Rightarrow> worker_ctx option" where
  "close_now abortive p fd w = do {
     w1 \<leftarrow> updc p (\<lambda>c. c\<lparr>c_fd := - 1\<rparr>) w;
     (_, w2) \<leftarrow> worker_loop_cancel_write_poll_if_armed p w1;
     let w3 = maybe_flush False w2;
     let w4 = act (Act_eff (Close_fd fd)) (act (if abortive then Act_linger fd else Act_shutdown fd True) w3);
     w5 \<leftarrow> close_forget fd w4;
     w6 \<leftarrow> conn_put p w5;
     conn_put p w6
   }"

definition close_without_sqe :: "nat \<Rightarrow> int \<Rightarrow> worker_ctx \<Rightarrow> worker_ctx option" where
  "close_without_sqe p fd w = do {
     w1 \<leftarrow> updc p (\<lambda>c. c\<lparr>c_fd := - 1\<rparr>) w;
     w2 \<leftarrow> close_forget fd (act (Act_eff (Close_fd fd)) w1);
     w3 \<leftarrow> conn_put p w2;
     conn_put p w3
   }"

definition close_async :: "nat \<Rightarrow> int \<Rightarrow> worker_ctx \<Rightarrow> worker_ctx option" where
  "close_async p fd w = do {
     w1 \<leftarrow> updc p (\<lambda>c. c\<lparr>c_fd := - 1, op_close_fd := fd\<rparr>) (act (Act_sqe (Sqe_close p fd)) w);
     (_, w2) \<leftarrow> worker_loop_cancel_write_poll_if_armed p w1;
     let w3 = mark_post w2;
     w4 \<leftarrow> close_forget fd (maybe_flush (accept_is_fd_pressure w3) w3);
     conn_put p w4
   }"

text \<open>The result is true when the asynchronous close was staged (return value 0).\<close>

definition schedule_or_sync_close :: "int \<Rightarrow> worker_ctx \<Rightarrow> (bool \<times> worker_ctx) option" where
  "schedule_or_sync_close fd w =
     (case conn_get fd w of
        None \<Rightarrow> Some (False, w)
      | Some p \<Rightarrow> do {
          c \<leftarrow> getc p w;
          let dk = dl_kind (c_dl c);
          let abortive = abortive_close (c_dl c);
          w1 \<leftarrow> close_begin p w;
          if c_fd c < 0 then do { w2 \<leftarrow> close_forget fd w1; Some (False, w2) }
          else do {
            w2 \<leftarrow> conn_ref p w1;
            if dk = DK_INITIAL_IDLE \<or> dk = DK_KA_IDLE \<or> dk = DK_DRAIN \<or> abortive then do {
              w3 \<leftarrow> close_now abortive p (c_fd c) w2;
              Some (False, w3)
            } else
              (let (ok, w3) = get_sqe_batching w2
               in if \<not> ok then do { w4 \<leftarrow> close_without_sqe p (c_fd c) w3; Some (False, w4) }
                  else do { w4 \<leftarrow> close_async p (c_fd c) w3; Some (True, w4) })
          }
        })"

end
