(* ===== verification/Conn_Live.thy ===== *)
theory Conn_Live
  imports Conn_Lifecycle "HOL-Library.Sublist"
begin

text \<open>
  Invariants of the connection store: the descriptor table, the set of active descriptors, the
  freelist and the wheel agree, and every operation of \<open>Conn_Lifecycle\<close> keeps_life them so. The
  exception set \<open>X\<close> names connections that are being set up or torn down.
\<close>

section \<open>The invariant\<close>

fun free_chain :: "(nat \<Rightarrow> conn option) \<Rightarrow> nat option \<Rightarrow> nat list \<Rightarrow> bool" where
  "free_chain H h [] \<longleftrightarrow> h = None"
| "free_chain H h (p # ps) \<longleftrightarrow>
     h = Some p \<and> (case H p of None \<Rightarrow> False | Some c \<Rightarrow> free_chain H (free_next c) ps)"

definition idle_conn :: "conn \<Rightarrow> bool" where
  "idle_conn c \<longleftrightarrow> c_fd c < 0 \<and> refcnt c = 0 \<and> \<not> in_active_set (c_link c) \<and> \<not> deadline_active (c_dl c)"

definition store_ok :: "nat set \<Rightarrow> worker_ctx \<Rightarrow> bool" where
  "store_ok X w \<longleftrightarrow>
     (\<forall>fd p. w_store w fd = Some p \<longrightarrow> w_conns w p \<noteq> None) \<and>
     (\<forall>fd fd' p. w_store w fd = Some p \<and> w_store w fd' = Some p \<longrightarrow> fd = fd') \<and>
     (\<forall>fd p c. w_store w fd = Some p \<and> w_conns w p = Some c \<and> p \<notin> X \<longrightarrow>
        c_fd c = fd \<and> 0 \<le> fd \<and> 1 \<le> refcnt c) \<and>
     (\<forall>p c. w_conns w p = Some c \<and> 0 \<le> c_fd c \<and> p \<notin> X \<longrightarrow> w_store w (c_fd c) = Some p) \<and>
     (\<forall>p c. w_conns w p = Some c \<and> deadline_active (c_dl c) \<and> p \<notin> X \<longrightarrow> 0 \<le> c_fd c)"

definition active_ok :: "worker_ctx \<Rightarrow> bool" where
  "active_ok w \<longleftrightarrow>
     (\<forall>i < length (active_fds w). \<exists>p c. w_store w (active_fds w ! i) = Some p \<and> w_conns w p = Some c \<and>
        in_active_set (c_link c) \<and> active_idx (c_link c) = int i) \<and>
     (\<forall>p c. w_conns w p = Some c \<and> in_active_set (c_link c) \<longrightarrow>
        (\<exists>i < length (active_fds w). active_idx (c_link c) = int i \<and> w_store w (active_fds w ! i) = Some p))"

definition free_ok :: "worker_ctx \<Rightarrow> bool" where
  "free_ok w \<longleftrightarrow>
     (\<exists>ps. free_chain (w_conns w) (conn_free_list w) ps \<and> distinct ps \<and> length ps = conn_free_count w \<and>
        (\<forall>p\<in>set ps. \<forall>c. w_conns w p = Some c \<longrightarrow> idle_conn c))"

definition live :: "nat set \<Rightarrow> worker_ctx \<Rightarrow> bool" where
  "live X w \<longleftrightarrow> store_ok X w \<and> active_ok w \<and> free_ok w"

lemma store_okD:
  assumes "store_ok X w"
  shows store_ok_alloc: "w_store w fd = Some p \<Longrightarrow> w_conns w p \<noteq> None"
    and store_ok_inj: "w_store w fd = Some p \<Longrightarrow> w_store w fd' = Some p \<Longrightarrow> fd = fd'"
    and store_ok_fd: "w_store w fd = Some p \<Longrightarrow> w_conns w p = Some c \<Longrightarrow> p \<notin> X \<Longrightarrow>
      c_fd c = fd \<and> 0 \<le> fd \<and> 1 \<le> refcnt c"
    and store_ok_open: "w_conns w p = Some c \<Longrightarrow> 0 \<le> c_fd c \<Longrightarrow> p \<notin> X \<Longrightarrow> w_store w (c_fd c) = Some p"
    and store_ok_armed: "w_conns w p = Some c \<Longrightarrow> deadline_active (c_dl c) \<Longrightarrow> p \<notin> X \<Longrightarrow> 0 \<le> c_fd c"
  using assms unfolding store_ok_def by blast+

section \<open>What the invariant sees\<close>

definition life_view :: "conn \<Rightarrow> int \<times> int \<times> bool \<times> int \<times> nat option \<times> bool" where
  "life_view c =
     (c_fd c, refcnt c, in_active_set (c_link c), active_idx (c_link c), free_next c, deadline_active (c_dl c))"

definition life_globals :: "worker_ctx \<Rightarrow> nat option \<times> nat \<times> (int \<Rightarrow> nat option) \<times> int list" where
  "life_globals w = (conn_free_list w, conn_free_count w, w_store w, active_fds w)"

definition same_view :: "nat \<Rightarrow> worker_ctx \<Rightarrow> worker_ctx \<Rightarrow> bool" where
  "same_view q w w' \<longleftrightarrow> map_option life_view (w_conns w' q) = map_option life_view (w_conns w q)"

lemma same_viewE:
  assumes "same_view q w w'" "w_conns w' q = Some c'"
  obtains c where "w_conns w q = Some c" "life_view c' = life_view c"
  using assms unfolding same_view_def by (metis map_option_eq_Some)

lemma same_view_sym: "same_view q w w' \<Longrightarrow> same_view q w' w"
  by (simp add: same_view_def)

lemma free_chain_other:
  assumes "\<And>q. q \<in> set ps \<Longrightarrow> map_option life_view (H' q) = map_option life_view (H q)" "free_chain H h ps"
  shows "free_chain H' h ps"
  using assms
proof (induction ps arbitrary: h)
  case (Cons q ps)
  then show ?case
    using Cons.prems(1) [of q] by (cases "H q"; cases "H' q") (auto simp: life_view_def)
qed simp

lemma free_chain_alloc: "free_chain H h ps \<Longrightarrow> q \<in> set ps \<Longrightarrow> \<exists>c. H q = Some c"
  by (induction ps arbitrary: h) (auto split: option.splits)

lemma free_ok_other:
  assumes "free_ok w" and g: "conn_free_list w' = conn_free_list w" "conn_free_count w' = conn_free_count w"
    and v: "\<And>q. q \<notin> P \<Longrightarrow> same_view q w w'"
    and n: "\<And>q c. q \<in> P \<Longrightarrow> w_conns w q = Some c \<Longrightarrow> \<not> idle_conn c"
  shows "free_ok w'"
proof -
  obtain ps where ps: "free_chain (w_conns w) (conn_free_list w) ps" "distinct ps"
      "length ps = conn_free_count w" "\<forall>p\<in>set ps. \<forall>c. w_conns w p = Some c \<longrightarrow> idle_conn c"
    using assms(1) unfolding free_ok_def by blast
  have nP: "q \<notin> P" if "q \<in> set ps" for q
    using that n free_chain_alloc [OF ps(1) that] ps(4) by blast
  have "free_chain (w_conns w') (conn_free_list w') ps"
    using free_chain_other [OF _ ps(1)] v nP g unfolding same_view_def by simp
  moreover have "idle_conn c" if m: "q \<in> set ps" "w_conns w' q = Some c" for q c
  proof -
    obtain c0 where "w_conns w q = Some c0" "life_view c = life_view c0"
      using same_viewE [OF v [OF nP [OF m(1)]] m(2)] .
    then show ?thesis
      using ps(4) m(1) by (simp add: idle_conn_def life_view_def)
  qed
  ultimately show ?thesis
    unfolding free_ok_def using ps(2,3) g(2) by (intro exI [of _ ps]) simp
qed

lemma store_ok_other:
  assumes ok: "store_ok X w" and g: "w_store w' = w_store w" and XY: "X \<subseteq> Y"
    and v: "\<And>q. q \<notin> P \<Longrightarrow> same_view q w w'"
    and a: "\<And>q. q \<in> P \<Longrightarrow> w_conns w' q \<noteq> None"
    and n: "\<And>q c'. q \<in> P \<Longrightarrow> q \<notin> Y \<Longrightarrow> w_conns w' q = Some c' \<Longrightarrow>
              (\<exists>c. w_conns w q = Some c \<and> c_fd c' = c_fd c) \<and> 1 \<le> refcnt c' \<and> (deadline_active (c_dl c') \<longrightarrow> 0 \<le> c_fd c')"
  shows "store_ok Y w'"
proof -
  have old: "\<exists>c. w_conns w q = Some c \<and> c_fd c' = c_fd c \<and> (q \<notin> P \<longrightarrow> refcnt c' = refcnt c \<and>
        deadline_active (c_dl c') = deadline_active (c_dl c))"
    if "q \<notin> Y" "w_conns w' q = Some c'" for q c'
    using that n [of q c'] same_viewE [OF v that(2)] by (cases "q \<in> P") (auto simp: life_view_def)
  have alloc: "w_conns w' q \<noteq> None" if "w_store w fd = Some q" for fd q
  proof (cases "q \<in> P")
    case False
    have "w_conns w q \<noteq> None"
      using ok that unfolding store_ok_def by blast
    then show ?thesis
      using v [OF False] by (auto simp: same_view_def)
  qed (use a in blast)
  have one: "c_fd c' = fd \<and> 0 \<le> fd \<and> 1 \<le> refcnt c'"
    if m: "w_store w fd = Some q" "w_conns w' q = Some c'" "q \<notin> Y" for fd q c'
  proof -
    obtain c where c: "w_conns w q = Some c" "c_fd c' = c_fd c" "q \<notin> P \<longrightarrow> refcnt c' = refcnt c"
      using old [OF m(3,2)] by blast
    have "c_fd c = fd \<and> 0 \<le> fd \<and> 1 \<le> refcnt c"
      using ok m(1,3) c(1) XY unfolding store_ok_def by blast
    then show ?thesis
      using c n [OF _ m(3,2)] by auto
  qed
  have two: "w_store w (c_fd c') = Some q" if m: "w_conns w' q = Some c'" "0 \<le> c_fd c'" "q \<notin> Y" for q c'
  proof -
    obtain c where "w_conns w q = Some c" "c_fd c' = c_fd c"
      using old [OF m(3,1)] by blast
    moreover have "\<forall>p c. w_conns w p = Some c \<and> 0 \<le> c_fd c \<and> p \<notin> X \<longrightarrow> w_store w (c_fd c) = Some p"
      using ok unfolding store_ok_def by blast
    ultimately show ?thesis
      using m(2,3) XY by auto
  qed
  have three: "0 \<le> c_fd c'" if m: "w_conns w' q = Some c'" "deadline_active (c_dl c')" "q \<notin> Y" for q c'
  proof (cases "q \<in> P")
    case False
    then obtain c where "w_conns w q = Some c" "c_fd c' = c_fd c" "deadline_active (c_dl c)"
      using old [OF m(3,1)] m(2) by blast
    moreover have "\<forall>p c. w_conns w p = Some c \<and> deadline_active (c_dl c) \<and> p \<notin> X \<longrightarrow> 0 \<le> c_fd c"
      using ok unfolding store_ok_def by blast
    ultimately show ?thesis
      using m(3) XY by auto
  qed (use n m in blast)
  have "\<forall>fd fd' p. w_store w fd = Some p \<and> w_store w fd' = Some p \<longrightarrow> fd = fd'"
    using ok unfolding store_ok_def by blast
  then show ?thesis
    unfolding store_ok_def g using alloc one two three by blast
qed

lemma active_ok_other:
  assumes ok: "active_ok w" and g: "w_store w' = w_store w" "active_fds w' = active_fds w"
    and v: "\<And>q. map_option (\<lambda>c. (in_active_set (c_link c), active_idx (c_link c))) (w_conns w' q) =
                map_option (\<lambda>c. (in_active_set (c_link c), active_idx (c_link c))) (w_conns w q)"
  shows "active_ok w'"
proof -
  have fwd: "\<exists>c'. w_conns w' q = Some c' \<and> in_active_set (c_link c') = in_active_set (c_link c) \<and>
      active_idx (c_link c') = active_idx (c_link c)" if "w_conns w q = Some c" for q c
    using v [of q] that by (cases "w_conns w' q") auto
  have bwd: "\<exists>c. w_conns w q = Some c \<and> in_active_set (c_link c') = in_active_set (c_link c) \<and>
      active_idx (c_link c') = active_idx (c_link c)" if "w_conns w' q = Some c'" for q c'
    using v [of q] that by (cases "w_conns w q") auto
  show ?thesis
    unfolding active_ok_def g
  proof (intro conjI allI impI)
    fix i assume "i < length (active_fds w)"
    then obtain p c where "w_store w (active_fds w ! i) = Some p" "w_conns w p = Some c"
        "in_active_set (c_link c)" "active_idx (c_link c) = int i"
      using ok unfolding active_ok_def by blast
    then show "\<exists>p c. w_store w (active_fds w ! i) = Some p \<and> w_conns w' p = Some c \<and>
        in_active_set (c_link c) \<and> active_idx (c_link c) = int i"
      using fwd by metis
  next
    fix p c' assume "w_conns w' p = Some c' \<and> in_active_set (c_link c')"
    then show "\<exists>i<length (active_fds w). active_idx (c_link c') = int i \<and> w_store w (active_fds w ! i) = Some p"
      using bwd [of p c'] ok unfolding active_ok_def by metis
  qed
qed

lemma live_step:
  assumes l: "live X w" and g: "life_globals w' = life_globals w" and XY: "X \<subseteq> Y"
    and v: "\<And>q. q \<noteq> p \<Longrightarrow> same_view q w w'"
    and c: "w_conns w p = Some c" "refcnt c \<noteq> 0" and c': "w_conns w' p = Some c'"
    and k: "in_active_set (c_link c') = in_active_set (c_link c)" "active_idx (c_link c') = active_idx (c_link c)"
    and y: "p \<in> Y \<or> c_fd c' = c_fd c \<and> 1 \<le> refcnt c' \<and> (deadline_active (c_dl c') \<longrightarrow> 0 \<le> c_fd c')"
  shows "live Y w'"
proof -
  have g': "w_store w' = w_store w" "active_fds w' = active_fds w" "conn_free_list w' = conn_free_list w"
    "conn_free_count w' = conn_free_count w"
    using g by (simp_all add: life_globals_def)
  have "store_ok Y w'"
    using l c c' y by (intro store_ok_other [OF _ g'(1) XY v, of "{p}"]) (auto simp: live_def)
  moreover have "active_ok w'"
  proof (rule active_ok_other [OF _ g'(1,2)])
    show "active_ok w"
      using l by (simp add: live_def)
    show "map_option (\<lambda>c. (in_active_set (c_link c), active_idx (c_link c))) (w_conns w' q) =
        map_option (\<lambda>c. (in_active_set (c_link c), active_idx (c_link c))) (w_conns w q)" for q
      using v [of q] c c' k
      by (cases "q = p"; cases "w_conns w q"; cases "w_conns w' q") (auto simp: same_view_def life_view_def)
  qed
  moreover have "free_ok w'"
    using l c by (intro free_ok_other [OF _ g'(3,4) v, of "{p}"]) (auto simp: live_def idle_conn_def)
  ultimately show ?thesis
    by (simp add: live_def)
qed

section \<open>Frames\<close>

text \<open>A connection without the links that operations on others may rewrite.\<close>

definition skel :: "conn \<Rightarrow> conn" where
  "skel c = c\<lparr>c_link := (c_link c)\<lparr>tw_prev := None, tw_next := None, active_idx := 0\<rparr>\<rparr>"

definition tw_params :: "worker_ctx \<Rightarrow> u32 \<times> u32 \<times> u64 \<times> u64 \<times> worker_config option" where
  "tw_params w = (tw_mask w, tw_tick_ms w, tw_now_tick w, next_tick_deadline_ms w, w_cfg w)"

text \<open>\<open>only_at p\<close>: other connections keep everything but links, and the trace only grows.\<close>

definition only_at :: "nat \<Rightarrow> worker_ctx \<Rightarrow> worker_ctx \<Rightarrow> bool" where
  "only_at p w w' \<longleftrightarrow>
     tw_params w' = tw_params w \<and> prefix (w_trace w) (w_trace w') \<and>
     (\<forall>q. q \<noteq> p \<longrightarrow> map_option skel (w_conns w' q) = map_option skel (w_conns w q))"

text \<open>\<open>calm p\<close>: only fields of connection \<open>p\<close> and matters outside the connection store change.\<close>

definition calm :: "nat \<Rightarrow> worker_ctx \<Rightarrow> worker_ctx \<Rightarrow> bool" where
  "calm p w w' \<longleftrightarrow>
     tw_params w' = tw_params w \<and> prefix (w_trace w) (w_trace w') \<and> life_globals w' = life_globals w \<and>
     tw_buckets w' = tw_buckets w \<and> (\<forall>q. q \<noteq> p \<longrightarrow> w_conns w' q = w_conns w q)"

lemma only_at_refl [simp]: "only_at p w w" and calm_refl [simp]: "calm p w w"
  by (simp_all add: only_at_def calm_def)

lemma only_at_trans [trans]: "only_at p w w1 \<Longrightarrow> only_at p w1 w2 \<Longrightarrow> only_at p w w2"
  unfolding only_at_def by (auto intro: prefix_order.trans)

lemma calm_trans [trans]: "calm p w w1 \<Longrightarrow> calm p w1 w2 \<Longrightarrow> calm p w w2"
  unfolding calm_def by (auto intro: prefix_order.trans)

lemma calm_at: "calm p w w' \<Longrightarrow> only_at p w w'"
  by (simp add: only_at_def calm_def)

lemma wheel_frame_at: "wheel_frame p w w' \<Longrightarrow> only_at p w w'"
proof -
  assume f: "wheel_frame p w w'"
  have sk: "skel (core c) = skel c" for c
    by (simp add: skel_def core_def)
  have "map_option skel (w_conns w' q) = map_option skel (w_conns w q)" if q: "q \<noteq> p" for q
  proof -
    have "map_option core (w_conns w' q) = map_option core (w_conns w q)"
      using f q by (simp add: wheel_frame_def)
    then have "map_option skel (map_option core (w_conns w' q)) = map_option skel (map_option core (w_conns w q))"
      by (rule arg_cong)
    then show ?thesis
      by (simp add: option.map_comp comp_def sk)
  qed
  then show ?thesis
    using f rest_eqD [of w' w] by (simp add: only_at_def tw_params_def wheel_frame_def)
qed

lemma core_life_view: "core c = core c' \<Longrightarrow> life_view c = life_view c'"
  using core_eqD [of c c'] by (simp add: life_view_def)

lemma wheel_frame_view: "wheel_frame p w w' \<Longrightarrow> q \<noteq> p \<Longrightarrow> same_view q w w'"
  unfolding wheel_frame_def same_view_def
  by (cases "w_conns w q"; cases "w_conns w' q") (auto intro: core_life_view dest!: spec [of _ q])

lemma wheel_frame_globals: "wheel_frame p w w' \<Longrightarrow> life_globals w' = life_globals w"
  using rest_eqD [of w' w] by (simp add: wheel_frame_def life_globals_def)

lemma calm_view: "calm p w w' \<Longrightarrow> q \<noteq> p \<Longrightarrow> same_view q w w'"
  by (simp add: calm_def same_view_def)

lemma calm_globals: "calm p w w' \<Longrightarrow> life_globals w' = life_globals w"
  by (simp add: calm_def)

section \<open>Quiet operations\<close>

lemma updc_calm:
  "w_conns w p = Some c \<Longrightarrow> \<exists>w'. updc p f w = Some w' \<and> calm p w w' \<and> w_conns w' p = Some (f c)"
  by (simp add: updc_def calm_def life_globals_def tw_params_def)

lemma calm_ring [simp]:
  "calm p w (act a w)" "calm p w (acts es w)" "calm p w (snd (get_sqe_batching w))" "calm p w (mark_post w)"
  "calm p w (maybe_flush u w)" "calm p w (post s w)" "calm p w (submit_if_pending w)"
  by (simp_all add: calm_def act_def acts_def life_globals_def tw_params_def get_sqe_batching_def
      io_uring_get_sqe_def io_uring_submit_def mark_post_def maybe_flush_def flush_now_def post_def
      io_uring_sq_space_left_def submit_if_pending_def Let_def case_prod_beta)

lemma ring_conns [simp]:
  "w_conns (act a w) = w_conns w" "w_conns (acts es w) = w_conns w"
  "w_conns (snd (get_sqe_batching w)) = w_conns w" "w_conns (mark_post w) = w_conns w"
  "w_conns (maybe_flush u w) = w_conns w" "w_conns (post s w) = w_conns w"
  "w_conns (submit_if_pending w) = w_conns w"
  by (simp_all add: act_def acts_def get_sqe_batching_def
      io_uring_get_sqe_def io_uring_submit_def mark_post_def maybe_flush_def flush_now_def post_def
      io_uring_sq_space_left_def submit_if_pending_def Let_def case_prod_beta)

lemma upd_tx_calm:
  assumes "w_conns w p = Some c"
  shows "\<exists>w'. upd_tx p f w = Some w' \<and> calm p w w' \<and> w_conns w' p = Some (c\<lparr>c_tx := fst (f (c_tx c))\<rparr>)"
proof -
  obtain w1 where "updc p (\<lambda>c'. c'\<lparr>c_tx := fst (f (c_tx c))\<rparr>) w = Some w1" "calm p w w1"
      "w_conns w1 p = Some (c\<lparr>c_tx := fst (f (c_tx c))\<rparr>)"
    using updc_calm [OF assms, of "\<lambda>c'. c'\<lparr>c_tx := fst (f (c_tx c))\<rparr>"] by blast
  then show ?thesis
    using assms calm_trans [of p w w1] by (simp add: upd_tx_def getc_def case_prod_beta)
qed

section \<open>The whole invariant\<close>

definition worker_ok :: "nat set \<Rightarrow> nat list \<Rightarrow> worker_ctx \<Rightarrow> nat list list \<Rightarrow> bool" where
  "worker_ok X pend w L \<longleftrightarrow> live X w \<and> wheel_rep pend w L \<and> wheel_wf w"

definition keeps_life :: "conn \<Rightarrow> conn \<Rightarrow> bool" where
  "keeps_life c c' \<longleftrightarrow>
     c_fd c' = c_fd c \<and> refcnt c' = refcnt c \<and> in_active_set (c_link c') = in_active_set (c_link c) \<and>
     active_idx (c_link c') = active_idx (c_link c)"

lemma keeps_life_trans: "keeps_life c c1 \<Longrightarrow> keeps_life c1 c2 \<Longrightarrow> keeps_life c c2"
  by (simp add: keeps_life_def)

lemma worker_ok_same:
  assumes "calm p w w'" "w_conns w' = w_conns w" "worker_ok X pend w L"
  shows "worker_ok X pend w' L"
proof -
  have e: "w_store w' = w_store w" "active_fds w' = active_fds w" "conn_free_list w' = conn_free_list w"
    "conn_free_count w' = conn_free_count w" "tw_buckets w' = tw_buckets w" "tw_mask w' = tw_mask w"
    "tw_tick_ms w' = tw_tick_ms w"
    using assms(1) by (simp_all add: calm_def life_globals_def tw_params_def)
  have "worker_ok X pend w' L = worker_ok X pend w L"
    unfolding worker_ok_def live_def store_ok_def active_ok_def free_ok_def wheel_rep_def pending_def wheel_wf_def
      e assms(2) ..
  then show ?thesis
    using assms(3) by (rule iffD2)
qed

lemma worker_ok_calm:
  assumes ok: "worker_ok X pend w L" and q: "calm p w w'" and XY: "X \<subseteq> Y"
    and c: "w_conns w p = Some c" "refcnt c \<noteq> 0" and c': "w_conns w' p = Some c'"
    and l: "link_view c' = link_view c"
    and k: "in_active_set (c_link c') = in_active_set (c_link c)" "active_idx (c_link c') = active_idx (c_link c)"
    and y: "p \<in> Y \<or> keeps_life c c' \<and> 1 \<le> refcnt c"
  shows "worker_ok Y pend w' L"
proof -
  have st: "store_ok X w"
    using ok by (simp add: worker_ok_def live_def)
  have "0 \<le> c_fd c" if "deadline_active (c_dl c')" "p \<notin> Y"
    using that l XY store_ok_armed [OF st c(1)] by (auto simp: link_view_def)
  then have y': "p \<in> Y \<or> c_fd c' = c_fd c \<and> 1 \<le> refcnt c' \<and> (deadline_active (c_dl c') \<longrightarrow> 0 \<le> c_fd c')"
    using y by (auto simp: keeps_life_def)
  have lw: "live X w"
    using ok by (simp add: worker_ok_def)
  have "live Y w'"
    by (rule live_step [OF lw calm_globals [OF q] XY calm_view [OF q] c c' k y'])
  moreover have "same_wheel w w'"
  proof -
    have "map_option link_view (w_conns w' x) = map_option link_view (w_conns w x)" for x
      using q c(1) c' l by (cases "x = p") (simp_all add: calm_def)
    then show ?thesis
      using q by (simp add: same_wheel_def calm_def)
  qed
  moreover have "wheel_wf w'"
    using ok q by (simp add: worker_ok_def wheel_wf_def calm_def tw_params_def)
  ultimately show ?thesis
    using ok wheel_rep_same by (simp add: worker_ok_def)
qed

lemma worker_ok_updc:
  assumes ok: "worker_ok X pend w L" and c: "w_conns w p = Some c" "refcnt c \<noteq> 0"
    and l: "link_view (f c) = link_view c" and k: "keeps_life c (f c)" and y: "p \<in> X \<or> 1 \<le> refcnt c"
  shows "\<exists>w'. updc p f w = Some w' \<and> worker_ok X pend w' L \<and> calm p w w' \<and> w_conns w' p = Some (f c)"
proof -
  obtain w' where w': "updc p f w = Some w'" "calm p w w'" "w_conns w' p = Some (f c)"
    using updc_calm [OF c(1)] by blast
  then show ?thesis
    using worker_ok_calm [OF ok w'(2) subset_refl c w'(3) l] k y by (auto simp: keeps_life_def)
qed

lemma worker_ok_wheel:
  assumes ok: "worker_ok X pend w L" and f: "wheel_frame p w w'" and r: "wheel_rep pend w' L'" "length L' = length L"
    and c: "w_conns w p = Some c" "refcnt c \<noteq> 0" and c': "w_conns w' p = Some c'" and k: "keeps_life c c'"
    and y: "p \<in> X \<or> 1 \<le> refcnt c \<and> (deadline_active (c_dl c') \<longrightarrow> 0 \<le> c_fd c)"
  shows "worker_ok X pend w' L'"
proof -
  have w: "live X w" "wheel_rep pend w L" "wheel_wf w"
    using ok by (simp_all add: worker_ok_def)
  have k': "in_active_set (c_link c') = in_active_set (c_link c)" "active_idx (c_link c') = active_idx (c_link c)"
    "p \<in> X \<or> c_fd c' = c_fd c \<and> 1 \<le> refcnt c' \<and> (deadline_active (c_dl c') \<longrightarrow> 0 \<le> c_fd c')"
    using k y by (auto simp: keeps_life_def)
  have "live X w'"
    by (rule live_step [OF w(1) wheel_frame_globals [OF f] subset_refl wheel_frame_view [OF f] c c' k'])
  then show ?thesis
    using r(1) wheel_wf_frame [OF f w(2) r w(3)] by (simp add: worker_ok_def)
qed

definition cancelled :: "conn \<Rightarrow> conn" where
  "cancelled c =
     (let d = (if deadline_active (c_dl c) then detached c else c)
      in d\<lparr>c_dl := (c_dl d)\<lparr>dl_kind := DK_NONE, deadline_ms := 0\<rparr>\<rparr>)"

lemma cancelled_keeps [simp]: "keeps_life c (cancelled c)" "\<not> deadline_active (c_dl (cancelled c))"
  by (simp_all add: keeps_life_def cancelled_def detached_def Let_def)

lemma tw_cancel_ok:
  assumes ok: "worker_ok X pend w L" and c: "w_conns w p = Some c" "refcnt c \<noteq> 0" and y: "p \<in> X \<or> 1 \<le> refcnt c"
    and np: "p \<notin> set pend"
  shows "\<exists>w'. tw_cancel p w = Some w' \<and> worker_ok X pend w' (map (removeAll p) L) \<and> only_at p w w' \<and>
    life_globals w' = life_globals w \<and> w_conns w' p = Some (cancelled c) \<and> w_trace w' = w_trace w"
proof -
  let ?d = "if deadline_active (c_dl c) then detached c else c"
  have rep: "wheel_rep pend w L"
    using ok by (simp add: worker_ok_def)
  obtain w1 where w1: "tw_remove_internal p w = Some w1" "wheel_rep pend w1 (map (removeAll p) L)"
      "wheel_frame p w w1" "w_conns w1 p = Some ?d"
    using tw_remove_rep [OF rep c(1) np] by blast
  have d: "keeps_life c ?d" "\<not> deadline_active (c_dl ?d)" "refcnt ?d \<noteq> 0"
    using c(2) by (simp_all add: keeps_life_def detached_def)
  have ok1: "worker_ok X pend w1 (map (removeAll p) L)"
    using y d by (intro worker_ok_wheel [OF ok w1(3,2) _ c w1(4)]) auto
  define w2 where "w2 = w1\<lparr>w_conns := (w_conns w1)(p := Some (cancelled c))\<rparr>"
  have q: "calm p w1 w2" "w_conns w2 p = Some (cancelled c)" "w_trace w2 = w_trace w1"
    by (simp_all add: w2_def calm_def tw_params_def life_globals_def)
  have "worker_ok X pend w2 (map (removeAll p) L)"
    using y d
    by (intro worker_ok_calm [OF ok1 q(1) subset_refl w1(4) d(3) q(2)])
      (auto simp: cancelled_def link_view_def keeps_life_def Let_def)
  moreover have "tw_cancel p w = Some w2"
    using w1(1,4) by (simp add: tw_cancel_def upd_dl_eq [OF w1(4)] w2_def cancelled_def Let_def)
  moreover have "only_at p w w2" "life_globals w2 = life_globals w"
    using only_at_trans [OF wheel_frame_at [OF w1(3)] calm_at [OF q(1)]] wheel_frame_globals [OF w1(3)]
      calm_globals [OF q(1)] by simp_all
  moreover have "w_trace w2 = w_trace w"
    using rest_eqD(6) [of w1 w] w1(3) q(3) by (simp add: wheel_frame_def)
  ultimately show ?thesis
    using q(2) by blast
qed

lemma worker_ok_get_sqe [simp]: "worker_ok X pend w L \<Longrightarrow> worker_ok X pend (snd (get_sqe_batching w)) L"
  and worker_ok_act [simp]: "worker_ok X pend w L \<Longrightarrow> worker_ok X pend (act a w) L"
  and worker_ok_mark_post [simp]: "worker_ok X pend w L \<Longrightarrow> worker_ok X pend (mark_post w) L"
  and worker_ok_flush [simp]: "worker_ok X pend w L \<Longrightarrow> worker_ok X pend (maybe_flush u w) L"
  and worker_ok_post [simp]: "worker_ok X pend w L \<Longrightarrow> worker_ok X pend (post s w) L"
  by (rule worker_ok_same [of 0 w]; simp)+

lemma worker_ok_upd_tx:
  assumes "worker_ok X pend w L" "w_conns w p = Some c" "refcnt c \<noteq> 0" "p \<in> X \<or> 1 \<le> refcnt c"
  shows "\<exists>w' c'. upd_tx p f w = Some w' \<and> worker_ok X pend w' L \<and> calm p w w' \<and> w_conns w' p = Some c' \<and>
    keeps_life c c' \<and> c_dl c' = c_dl c"
proof -
  obtain w' where w': "upd_tx p f w = Some w'" "calm p w w'" "w_conns w' p = Some (c\<lparr>c_tx := fst (f (c_tx c))\<rparr>)"
    using upd_tx_calm [OF assms(2)] by blast
  have "worker_ok X pend w' L"
    using assms(4)
    by (intro worker_ok_calm [OF assms(1) w'(2) subset_refl assms(2,3) w'(3)])
      (auto simp: link_view_def keeps_life_def)
  then show ?thesis
    using w' by (auto simp: keeps_life_def)
qed

lemma worker_ok_upd_dl:
  assumes "worker_ok X pend w L" "w_conns w p = Some c" "refcnt c \<noteq> 0" "p \<in> X \<or> 1 \<le> refcnt c"
    "deadline_active (f (c_dl c)) = deadline_active (c_dl c)"
  shows "\<exists>w'. upd_dl p f w = Some w' \<and> worker_ok X pend w' L \<and> calm p w w' \<and>
    w_conns w' p = Some (c\<lparr>c_dl := f (c_dl c)\<rparr>)"
  unfolding upd_dl_def using assms
  by (intro worker_ok_updc) (auto simp: link_view_def keeps_life_def)

lemma close_begin_ok:
  assumes ok: "worker_ok X pend w L" and c: "w_conns w p = Some c" "1 \<le> refcnt c" and np: "p \<notin> set pend"
  shows "\<exists>w' c'. close_begin p w = Some w' \<and> worker_ok X pend w' (map (removeAll p) L) \<and> only_at p w w' \<and>
    life_globals w' = life_globals w \<and> w_conns w' p = Some c' \<and> keeps_life c c' \<and> \<not> deadline_active (c_dl c')"
proof -
  have r: "refcnt c \<noteq> 0" "p \<in> X \<or> 1 \<le> refcnt c"
    using c(2) by auto
  define c1 where "c1 = c\<lparr>c_dl := (c_dl c)\<lparr>abortive_close := False\<rparr>\<rparr>"
  obtain w1 where w1: "upd_dl p (\<lambda>d. d\<lparr>abortive_close := False\<rparr>) w = Some w1" "worker_ok X pend w1 L"
      "calm p w w1" "w_conns w1 p = Some c1"
    using worker_ok_upd_dl [OF ok c(1) r, of "\<lambda>d. d\<lparr>abortive_close := False\<rparr>"] by (auto simp: c1_def)
  have r1: "refcnt c1 \<noteq> 0" "p \<in> X \<or> 1 \<le> refcnt c1"
    using r by (auto simp: c1_def)
  obtain w2 where w2: "tw_cancel p w1 = Some w2" "worker_ok X pend w2 (map (removeAll p) L)" "only_at p w1 w2"
      "life_globals w2 = life_globals w1" "w_conns w2 p = Some (cancelled c1)"
    using tw_cancel_ok [OF w1(2,4) r1 np] by blast
  have k2: "keeps_life c (cancelled c1)" "refcnt (cancelled c1) \<noteq> 0" "p \<in> X \<or> 1 \<le> refcnt (cancelled c1)"
    using cancelled_keeps(1) [of c1] r by (auto simp: keeps_life_def c1_def)
  define c3 where "c3 = (cancelled c1)\<lparr>c_dl := (c_dl (cancelled c1))\<lparr>closing := True\<rparr>\<rparr>"
  obtain w3 where w3: "conn_mark_closing p w2 = Some w3" "worker_ok X pend w3 (map (removeAll p) L)"
      "calm p w2 w3" "w_conns w3 p = Some c3"
    using worker_ok_upd_dl [OF w2(2,5) k2(2,3), of "\<lambda>d. d\<lparr>closing := True\<rparr>"]
    by (auto simp: conn_mark_closing_def c3_def)
  have k3: "keeps_life c c3" "\<not> deadline_active (c_dl c3)" "refcnt c3 \<noteq> 0" "p \<in> X \<or> 1 \<le> refcnt c3"
    using k2 cancelled_keeps(2) [of c1] by (auto simp: c3_def keeps_life_def)
  obtain w4 c4 where w4: "upd_tx p tx_close_attached_file w3 = Some w4" "worker_ok X pend w4 (map (removeAll p) L)"
      "calm p w3 w4" "w_conns w4 p = Some c4" "keeps_life c3 c4" "c_dl c4 = c_dl c3"
    using worker_ok_upd_tx [OF w3(2,4) k3(3,4)] by blast
  define w5 where "w5 = (if tls_enabled c4 then tls_conn_shutdown p c4 w4 else w4)"
  have w5: "calm p w4 w5" "w_conns w5 = w_conns w4"
    by (simp_all add: w5_def tls_conn_shutdown_def)
  have "close_begin p w = Some w5"
    using w1(1) w2(1) w3(1) w4(1,4) by (simp add: close_begin_def getc_def w5_def)
  moreover have "worker_ok X pend w5 (map (removeAll p) L)"
    by (rule worker_ok_same [OF w5 w4(2)])
  moreover have "only_at p w w5"
    using calm_at [OF w1(3)] w2(3) calm_at [OF w3(3)] calm_at [OF w4(3)] calm_at [OF w5(1)] only_at_trans by blast
  moreover have "life_globals w5 = life_globals w"
    using w1(3) w2(4) w3(3) w4(3) w5(1) by (simp add: calm_globals)
  ultimately show ?thesis
    using w5(2) w4(4,6) k3(2) keeps_life_trans [OF k3(1) w4(5)] by auto
qed

section \<open>Leaving the set of active descriptors\<close>

definition with_idx :: "int \<Rightarrow> conn \<Rightarrow> conn" where
  "with_idx i c = c\<lparr>c_link := (c_link c)\<lparr>active_idx := i\<rparr>\<rparr>"

definition inactive :: "conn \<Rightarrow> conn" where
  "inactive c = c\<lparr>c_link := (c_link c)\<lparr>in_active_set := False, active_idx := - 1\<rparr>\<rparr>"

lemma active_okD:
  assumes "active_ok w"
  shows active_ok_entry: "i < length (active_fds w) \<Longrightarrow> \<exists>p c. w_store w (active_fds w ! i) = Some p \<and>
      w_conns w p = Some c \<and> in_active_set (c_link c) \<and> active_idx (c_link c) = int i"
    and active_ok_member: "w_conns w p = Some c \<Longrightarrow> in_active_set (c_link c) \<Longrightarrow>
      \<exists>i < length (active_fds w). active_idx (c_link c) = int i \<and> w_store w (active_fds w ! i) = Some p"
  using assms unfolding active_ok_def by blast+

lemma active_place_eq:
  assumes "i < length A" "A ! i = fd"
  shows "active_place fd (int i) A = Some i"
  using assms by (simp add: active_place_def)

text \<open>The heap and the array after the last entry has moved to place \<open>i\<close>.\<close>

definition swap_heap :: "nat \<Rightarrow> nat \<Rightarrow> nat \<Rightarrow> worker_ctx \<Rightarrow> nat \<Rightarrow> conn option" where
  "swap_heap i p q w =
     (w_conns w)(q := map_option (with_idx (int i)) (w_conns w q), p := map_option inactive (w_conns w p))"

definition swap_fds :: "nat \<Rightarrow> int list \<Rightarrow> int list" where
  "swap_fds i A = take (length A - 1) (A[i := A ! (length A - 1)])"

lemma worker_active_remove_eq:
  assumes ok: "active_ok w" and st: "store_ok X w" and fd: "w_store w fd = Some p" and c: "w_conns w p = Some c"
    and a: "in_active_set (c_link c)"
  obtains i q where "i < length (active_fds w)" "w_store w (active_fds w ! i) = Some p"
    "w_store w (active_fds w ! (length (active_fds w) - 1)) = Some q" "active_idx (c_link c) = int i"
    "worker_active_remove fd w =
       Some (w\<lparr>active_fds := swap_fds i (active_fds w), w_conns := swap_heap i p q w\<rparr>)"
proof -
  let ?A = "active_fds w"
  let ?l = "length ?A - 1"
  obtain i where i: "i < length ?A" "active_idx (c_link c) = int i" "w_store w (?A ! i) = Some p"
    using active_ok_member [OF ok c a] by blast
  have Ai: "?A ! i = fd"
    using store_ok_inj [OF st i(3) fd] .
  have "?l < length ?A"
    using i(1) by simp
  then obtain q d where q: "w_store w (?A ! ?l) = Some q" "w_conns w q = Some d" "active_idx (c_link d) = int ?l"
    using active_ok_entry [OF ok] by blast
  have pq: "i \<noteq> ?l \<Longrightarrow> p \<noteq> q"
    using q(2,3) c i(2) by auto
  have self: "i = ?l \<Longrightarrow> q = p"
    using q(1) i(3) by simp
  have "worker_active_remove fd w = Some (w\<lparr>active_fds := swap_fds i ?A, w_conns := swap_heap i p q w\<rparr>)"
  proof (cases "i = ?l")
    case True
    then show ?thesis
      using self fd c a i(2) active_place_eq [OF i(1) Ai]
      by (simp add: worker_active_remove_def conn_get_def getc_def upd_link_def updc_def swap_fds_def
          swap_heap_def inactive_def Let_def)
  next
    case False
    then show ?thesis
      using pq fd c a i(2) q(1,2) active_place_eq [OF i(1) Ai]
      by (simp add: worker_active_remove_def conn_get_def getc_def upd_link_def updc_def swap_fds_def
          swap_heap_def inactive_def with_idx_def Let_def)
  qed
  then show thesis
    using that [OF i(1,3) q(1) i(2)] by blast
qed

lemma swap_fds_nth:
  assumes "i < length A" "j < length A - 1"
  shows "swap_fds i A ! j = (if j = i then A ! (length A - 1) else A ! j)"
  using assms by (auto simp: swap_fds_def nth_list_update)

lemma active_ok_swap:
  assumes ok: "active_ok w" and st: "store_ok X w"
    and i: "i < length (active_fds w)" "w_store w (active_fds w ! i) = Some p"
    and q: "w_store w (active_fds w ! (length (active_fds w) - 1)) = Some q"
  shows "active_ok (w\<lparr>active_fds := swap_fds i (active_fds w), w_conns := swap_heap i p q w\<rparr>)"
proof -
  let ?A = "active_fds w" and ?H = "swap_heap i p q w"
  let ?l = "length ?A - 1"
  have len: "length (swap_fds i ?A) = ?l"
    by (simp add: swap_fds_def)
  have idx: "\<exists>c. w_conns w r = Some c \<and> in_active_set (c_link c) \<and> active_idx (c_link c) = int j"
    if "j < length ?A" "w_store w (?A ! j) = Some r" for j r
    using active_ok_entry [OF ok that(1)] that(2) by auto
  have same: "j = k" if "j < length ?A" "k < length ?A" "w_store w (?A ! j) = Some r" "w_store w (?A ! k) = Some r" for j k r
    using idx [OF that(1,3)] idx [OF that(2,4)] by auto
  have l: "?l < length ?A"
    using i(1) by simp
  have entry: "\<exists>r c. w_store w (swap_fds i ?A ! j) = Some r \<and> ?H r = Some c \<and> in_active_set (c_link c) \<and>
      active_idx (c_link c) = int j" if j: "j < ?l" for j
  proof (cases "j = i")
    case True
    then have "q \<noteq> p"
      using same [OF i(1) l i(2)] q j by auto
    then show ?thesis
      using True idx [OF l q] swap_fds_nth [OF i(1) j] q by (auto simp: swap_heap_def with_idx_def)
  next
    case False
    have jl: "j < length ?A"
      using j by simp
    obtain r c where r: "w_store w (?A ! j) = Some r" "w_conns w r = Some c" "in_active_set (c_link c)"
        "active_idx (c_link c) = int j"
      using active_ok_entry [OF ok jl] by blast
    have "r \<noteq> p" "r \<noteq> q"
      using same [OF jl i(1) r(1)] i(2) False same [OF jl l r(1)] q j by auto
    then show ?thesis
      using r False swap_fds_nth [OF i(1) j] by (auto simp: swap_heap_def)
  qed
  have member: "\<exists>j < ?l. active_idx (c_link c) = int j \<and> w_store w (swap_fds i ?A ! j) = Some r"
    if m: "?H r = Some c" "in_active_set (c_link c)" for r c
  proof -
    have rp: "r \<noteq> p"
      using m by (auto simp: swap_heap_def inactive_def)
    show ?thesis
    proof (cases "r = q")
      case True
      have "i \<noteq> ?l"
        using True rp i(2) q by auto
      then show ?thesis
        using True rp m i(1) q swap_fds_nth [of i ?A i]
        by (intro exI [of _ i]) (auto simp: swap_heap_def with_idx_def)
    next
      case False
      then have "w_conns w r = Some c"
        using m rp by (simp add: swap_heap_def)
      then obtain j where j: "j < length ?A" "active_idx (c_link c) = int j" "w_store w (?A ! j) = Some r"
        using active_ok_member [OF ok _ m(2)] by blast
      then have "j \<noteq> i" "j \<noteq> ?l"
        using rp i(2) False q by auto
      then show ?thesis
        using j swap_fds_nth [OF i(1), of j] by (intro exI [of _ j]) auto
    qed
  qed
  show ?thesis
    unfolding active_ok_def using entry member by (simp add: len)
qed

lemma with_idx_fields [simp]:
  "link_view (with_idx i c) = link_view c" "c_fd (with_idx i c) = c_fd c" "refcnt (with_idx i c) = refcnt c"
  "free_next (with_idx i c) = free_next c" "c_dl (with_idx i c) = c_dl c" "skel (with_idx i c) = skel c"
  "idle_conn (with_idx i c) = idle_conn c"
  by (simp_all add: with_idx_def link_view_def skel_def idle_conn_def)

lemma inactive_fields [simp]:
  "link_view (inactive c) = link_view c" "c_fd (inactive c) = c_fd c" "refcnt (inactive c) = refcnt c"
  "free_next (inactive c) = free_next c" "c_dl (inactive c) = c_dl c" "\<not> in_active_set (c_link (inactive c))"
  by (simp_all add: inactive_def link_view_def)

lemma swap_heap_view:
  "map_option link_view (swap_heap i p q w r) = map_option link_view (w_conns w r)"
  "map_option (\<lambda>c. (c_fd c, refcnt c, free_next c, c_dl c)) (swap_heap i p q w r) =
     map_option (\<lambda>c. (c_fd c, refcnt c, free_next c, c_dl c)) (w_conns w r)"
  by (simp_all add: swap_heap_def option.map_comp comp_def)

lemma swap_heap_skel: "r \<noteq> p \<Longrightarrow> map_option skel (swap_heap i p q w r) = map_option skel (w_conns w r)"
  by (simp add: swap_heap_def option.map_comp comp_def)

lemma swap_heap_Some:
  assumes "swap_heap i p q w r = Some c'"
  obtains c where "w_conns w r = Some c" "c_fd c' = c_fd c" "refcnt c' = refcnt c" "free_next c' = free_next c"
    "c_dl c' = c_dl c"
  using assms swap_heap_view(2) [of i p q w r] by (cases "w_conns w r") auto

lemma store_ok_view:
  assumes st: "store_ok X w" and g: "w_store w' = w_store w"
    and v: "\<And>q c'. w_conns w' q = Some c' \<Longrightarrow> \<exists>c. w_conns w q = Some c \<and> c_fd c' = c_fd c \<and>
              refcnt c' = refcnt c \<and> deadline_active (c_dl c') = deadline_active (c_dl c)"
    and n: "\<And>q. w_conns w' q = None \<Longrightarrow> w_conns w q = None"
  shows "store_ok X w'"
  unfolding store_ok_def g
proof (intro conjI allI impI)
  fix fd q
  assume "w_store w fd = Some q"
  then show "w_conns w' q \<noteq> None"
    using store_ok_alloc [OF st] n by blast
next
  fix fd fd' q
  assume "w_store w fd = Some q \<and> w_store w fd' = Some q"
  then show "fd = fd'"
    using store_ok_inj [OF st] by blast
next
  fix fd q c'
  assume a: "w_store w fd = Some q \<and> w_conns w' q = Some c' \<and> q \<notin> X"
  then obtain c where "w_conns w q = Some c" "c_fd c' = c_fd c" "refcnt c' = refcnt c"
    using v by blast
  then show "c_fd c' = fd" "0 \<le> fd" "1 \<le> refcnt c'"
    using a store_ok_fd [OF st, of fd q c] by auto
next
  fix q c'
  assume a: "w_conns w' q = Some c' \<and> 0 \<le> c_fd c' \<and> q \<notin> X"
  then obtain c where "w_conns w q = Some c" "c_fd c' = c_fd c"
    using v by blast
  then show "w_store w (c_fd c') = Some q"
    using a store_ok_open [OF st] by simp
next
  fix q c'
  assume a: "w_conns w' q = Some c' \<and> deadline_active (c_dl c') \<and> q \<notin> X"
  then obtain c where "w_conns w q = Some c" "c_fd c' = c_fd c" "deadline_active (c_dl c)"
    using v by blast
  then show "0 \<le> c_fd c'"
    using a store_ok_armed [OF st] by simp
qed

lemma store_ok_swap:
  assumes st: "store_ok X w"
  shows "store_ok X (w\<lparr>active_fds := A, w_conns := swap_heap i p q w\<rparr>)"
proof (rule store_ok_view [OF st])
  fix r
  show "w_conns w r = None" if "w_conns (w\<lparr>active_fds := A, w_conns := swap_heap i p q w\<rparr>) r = None"
    using that swap_heap_view(2) [of i p q w r] by simp
  show "\<exists>c. w_conns w r = Some c \<and> c_fd c' = c_fd c \<and> refcnt c' = refcnt c \<and>
      deadline_active (c_dl c') = deadline_active (c_dl c)"
    if "w_conns (w\<lparr>active_fds := A, w_conns := swap_heap i p q w\<rparr>) r = Some c'" for c'
    using that by (auto elim: swap_heap_Some)
qed simp

lemma free_ok_swap:
  assumes "free_ok w" "w_conns w q = Some d" "1 \<le> refcnt d" "w_conns w p = Some c" "refcnt c \<noteq> 0"
  shows "free_ok (w\<lparr>active_fds := A, w_conns := swap_heap i p q w\<rparr>)"
proof (rule free_ok_other [OF assms(1), of _ "{p, q}"])
  show "same_view r w (w\<lparr>active_fds := A, w_conns := swap_heap i p q w\<rparr>)" if "r \<notin> {p, q}" for r
    using that by (simp add: same_view_def swap_heap_def)
  show "\<not> idle_conn c'" if "r \<in> {p, q}" "w_conns w r = Some c'" for r c'
    using that assms by (auto simp: idle_conn_def)
qed simp_all

lemma active_remove_ok:
  assumes ok: "worker_ok X pend w L" and p: "w_store w fd = Some p" "w_conns w p = Some c" "refcnt c \<noteq> 0"
    and X: "X \<subseteq> {p}"
  shows "\<exists>w' c'. worker_active_remove fd w = Some w' \<and> worker_ok X pend w' L \<and> only_at p w w' \<and>
    w_store w' = w_store w \<and> w_conns w' p = Some c' \<and> c_fd c' = c_fd c \<and> refcnt c' = refcnt c \<and>
    c_dl c' = c_dl c \<and> \<not> in_active_set (c_link c') \<and> w_trace w' = w_trace w"
proof (cases "in_active_set (c_link c)")
  case True
  have st: "store_ok X w" and ac: "active_ok w" and fr: "free_ok w"
    using ok by (simp_all add: worker_ok_def live_def)
  obtain i q where i: "i < length (active_fds w)" "w_store w (active_fds w ! i) = Some p"
      "w_store w (active_fds w ! (length (active_fds w) - 1)) = Some q"
      and eq: "worker_active_remove fd w =
         Some (w\<lparr>active_fds := swap_fds i (active_fds w), w_conns := swap_heap i p q w\<rparr>)"
    using worker_active_remove_eq [OF ac st p(1,2) True] by blast
  define w' where "w' = w\<lparr>active_fds := swap_fds i (active_fds w), w_conns := swap_heap i p q w\<rparr>"
  obtain d where d: "w_conns w q = Some d"
    using store_ok_alloc [OF st i(3)] by auto
  have "free_ok w'"
  proof (cases "q = p")
    case True
    then show ?thesis
      unfolding w'_def using fr p(2,3)
      by (intro free_ok_other [OF fr, of _ "{p}"]) (auto simp: same_view_def swap_heap_def idle_conn_def)
  next
    case False
    then show ?thesis
      unfolding w'_def using free_ok_swap [OF fr d _ p(2,3)] store_ok_fd [OF st i(3) d] X by blast
  qed
  then have "live X w'"
    using active_ok_swap [OF ac st i] store_ok_swap [OF st] by (simp add: live_def w'_def)
  moreover have "same_wheel w w'"
    by (simp add: same_wheel_def w'_def swap_heap_view)
  ultimately have "worker_ok X pend w' L"
    using ok wheel_rep_same by (auto simp: worker_ok_def wheel_wf_def w'_def)
  moreover have "only_at p w w'"
    by (simp add: only_at_def tw_params_def w'_def swap_heap_skel)
  moreover have "w_conns w' p = Some (inactive c)"
  proof (cases "q = p")
    case True
    then show ?thesis
      using p(2) by (simp add: w'_def swap_heap_def)
  qed (use p(2) in \<open>simp add: w'_def swap_heap_def\<close>)
  ultimately show ?thesis
    using eq by (intro exI [of _ w'] exI [of _ "inactive c"]) (simp_all add: w'_def)
next
  case False
  then show ?thesis
    using ok p by (auto simp: worker_active_remove_def conn_get_def getc_def)
qed

lemma store_remove_ok:
  assumes ok: "worker_ok X pend w L" and p: "w_store w fd = Some p" "w_conns w p = Some c" "\<not> in_active_set (c_link c)"
    and X: "p \<in> X"
  shows "worker_ok X pend (active_conns_dec (conn_store_remove fd w)) L"
proof -
  have st: "store_ok X w" and ac: "active_ok w" and fr: "free_ok w"
    using ok by (simp_all add: worker_ok_def live_def)
  let ?w = "active_conns_dec (conn_store_remove fd w)"
  have f: "w_store ?w = (w_store w)(fd := None)" "w_conns ?w = w_conns w" "active_fds ?w = active_fds w"
    "conn_free_list ?w = conn_free_list w" "conn_free_count ?w = conn_free_count w" "tw_buckets ?w = tw_buckets w"
    "tw_mask ?w = tw_mask w" "tw_tick_ms ?w = tw_tick_ms w"
    by (simp_all add: active_conns_dec_def conn_store_remove_def)
  have ne: "active_fds w ! i \<noteq> fd" if "i < length (active_fds w)" for i
    using active_ok_entry [OF ac that] p by auto
  have sub: "((w_store w)(fd := None)) x = Some r \<Longrightarrow> w_store w x = Some r" for x r
    by (simp split: if_splits)
  have "store_ok X ?w"
    unfolding store_ok_def f
  proof (intro conjI allI impI)
    fix r c'
    assume a: "w_conns w r = Some c' \<and> 0 \<le> c_fd c' \<and> r \<notin> X"
    then have "w_store w (c_fd c') = Some r" "r \<noteq> p"
      using store_ok_open [OF st] X by auto
    then show "((w_store w)(fd := None)) (c_fd c') = Some r"
      using p(1) by auto
  next
    fix x r
    assume "((w_store w)(fd := None)) x = Some r"
    then show "w_conns w r \<noteq> None"
      using store_ok_alloc [OF st sub] by blast
  next
    fix x y r
    assume "((w_store w)(fd := None)) x = Some r \<and> ((w_store w)(fd := None)) y = Some r"
    then show "x = y"
      using store_ok_inj [OF st sub sub] by blast
  next
    fix x r c'
    assume "((w_store w)(fd := None)) x = Some r \<and> w_conns w r = Some c' \<and> r \<notin> X"
    then show "c_fd c' = x" "0 \<le> x" "1 \<le> refcnt c'"
      using store_ok_fd [OF st sub] by blast+
  next
    fix r c'
    assume "w_conns w r = Some c' \<and> deadline_active (c_dl c') \<and> r \<notin> X"
    then show "0 \<le> c_fd c'"
      using store_ok_armed [OF st] by blast
  qed
  moreover have "active_ok ?w"
    unfolding active_ok_def f using active_okD [OF ac] ne by simp blast
  moreover have "free_ok ?w"
    using fr unfolding free_ok_def f .
  moreover have "wheel_rep pend ?w L" "wheel_wf ?w"
    using ok unfolding worker_ok_def wheel_rep_def pending_def wheel_wf_def f by blast+
  ultimately show ?thesis
    by (simp add: worker_ok_def live_def)
qed

section \<open>Reference counts\<close>

definition recycled :: "nat \<Rightarrow> worker_ctx \<Rightarrow> worker_ctx \<Rightarrow> bool" where
  "recycled p w w' \<longleftrightarrow>
     tw_params w' = tw_params w \<and> prefix (w_trace w) (w_trace w') \<and> w_store w' = w_store w \<and>
     active_fds w' = active_fds w \<and> tw_buckets w' = tw_buckets w \<and>
     (w_conns w' = (w_conns w)(p := None) \<and> conn_free_list w' = conn_free_list w \<and>
        conn_free_count w' = conn_free_count w \<or>
      (\<exists>c'. w_conns w' = (w_conns w)(p := Some c') \<and> c_fd c' = - 1 \<and> refcnt c' = 0 \<and>
         \<not> in_active_set (c_link c') \<and> \<not> deadline_active (c_dl c') \<and> free_next c' = conn_free_list w \<and>
         conn_free_list w' = Some p \<and> conn_free_count w' = conn_free_count w + 1))"

lemma calm_only: "calm p w w' \<Longrightarrow> w_conns w' p = Some c' \<Longrightarrow> w_conns w' = (w_conns w)(p := Some c')"
  by (rule ext) (simp add: calm_def)

lemma recycle_parts_calm:
  assumes "w_conns w p = Some c"
  shows "\<exists>w'. tls_conn_destroy p w = Some w' \<and> calm p w w' \<and> map_option refcnt (w_conns w' p) = Some (refcnt c)"
    and "\<exists>w'. conn_recycle_stash p w = Some w' \<and> calm p w w' \<and> map_option refcnt (w_conns w' p) = Some (refcnt c)"
    and "\<exists>w'. conn_recycle_arena p w = Some w' \<and> calm p w w' \<and> map_option refcnt (w_conns w' p) = Some (refcnt c)"
    and "\<exists>w'. upd_tx p f w = Some w' \<and> calm p w w' \<and> map_option refcnt (w_conns w' p) = Some (refcnt c)"
  using assms upd_tx_calm [OF assms, of f]
  by (auto simp: tls_conn_destroy_def conn_recycle_stash_def conn_recycle_arena_def getc_def updc_def calm_def
      life_globals_def tw_params_def act_def save_arena_def Let_def split: option.splits)

lemma conn_recycle_eff:
  assumes c: "w_conns w p = Some c" and z: "refcnt c = 0"
  shows "\<exists>w'. conn_recycle p w = Some w' \<and> recycled p w w'"
proof -
  obtain w1 where w1: "(if tls_enabled c \<or> tls_handle c then tls_conn_destroy p w else Some w) = Some w1"
      "calm p w w1" "map_option refcnt (w_conns w1 p) = Some 0"
    using recycle_parts_calm(1) [OF c] c z by (cases "tls_enabled c \<or> tls_handle c") auto
  obtain c1 where c1: "w_conns w1 p = Some c1" "refcnt c1 = 0"
    using w1(3) by auto
  obtain w2 where w2: "conn_recycle_stash p w1 = Some w2" "calm p w1 w2" "map_option refcnt (w_conns w2 p) = Some 0"
    using recycle_parts_calm(2) [OF c1(1)] c1(2) by auto
  obtain c2 where c2: "w_conns w2 p = Some c2" "refcnt c2 = 0"
    using w2(3) by auto
  obtain w3 where w3: "upd_tx p tx_reset w2 = Some w3" "calm p w2 w3" "map_option refcnt (w_conns w3 p) = Some 0"
    using recycle_parts_calm(4) [OF c2(1), of tx_reset] c2(2) by auto
  obtain c3 where c3: "w_conns w3 p = Some c3" "refcnt c3 = 0"
    using w3(3) by auto
  obtain w4 where w4: "conn_recycle_arena p w3 = Some w4" "calm p w3 w4" "map_option refcnt (w_conns w4 p) = Some 0"
    using recycle_parts_calm(3) [OF c3(1)] c3(2) by auto
  obtain c4 where c4: "w_conns w4 p = Some c4" "refcnt c4 = 0"
    using w4(3) by auto
  have q: "calm p w w4"
    using w1(2) w2(2) w3(2) w4(2) calm_trans by blast
  have H: "w_conns w4 = (w_conns w)(p := Some c4)"
    by (rule calm_only [OF q c4(1)])
  show ?thesis
    using w1(1) w2(1) w3(1) w4(1) c c4 q
    by (auto simp: conn_recycle_def getc_def updc_def recycled_def H calm_def life_globals_def tw_params_def
        act_def intro: prefix_order.trans)
qed

lemma conn_put_more:
  assumes "w_conns w p = Some c" "refcnt c \<noteq> 1"
  shows "\<exists>w'. conn_put p w = Some w' \<and> calm p w w' \<and> w_conns w' p = Some (c\<lparr>refcnt := refcnt c - 1\<rparr>)"
  using assms by (simp add: conn_put_def updc_def getc_def calm_def life_globals_def tw_params_def)

lemma conn_put_last:
  assumes c: "w_conns w p = Some c" "refcnt c = 1"
  shows "\<exists>w'. conn_put p w = Some w' \<and> recycled p w w'"
proof -
  define w1 where "w1 = w\<lparr>w_conns := (w_conns w)(p := Some (c\<lparr>refcnt := 0\<rparr>))\<rparr>"
  obtain w' where w': "conn_recycle p w1 = Some w'" "recycled p w1 w'"
    using conn_recycle_eff [of w1 p "c\<lparr>refcnt := 0\<rparr>"] by (auto simp: w1_def)
  have "conn_put p w = Some w'"
    using c w'(1) by (simp add: conn_put_def updc_def getc_def w1_def)
  moreover have "recycled p w w'"
    using w'(2) by (auto simp: recycled_def w1_def tw_params_def)
  ultimately show ?thesis
    by blast
qed

definition unowned :: "nat \<Rightarrow> worker_ctx \<Rightarrow> bool" where
  "unowned p w \<longleftrightarrow> (\<forall>fd. w_store w fd \<noteq> Some p)"

lemma store_ok_release:
  assumes st: "store_ok X w" and X: "X \<subseteq> {p}" and un: "unowned p w"
    and g: "w_store w' = w_store w" and o: "\<And>q. q \<noteq> p \<Longrightarrow> w_conns w' q = w_conns w q"
    and c': "\<And>c'. w_conns w' p = Some c' \<Longrightarrow> c_fd c' < 0 \<and> \<not> deadline_active (c_dl c')"
  shows "store_ok {} w'"
  unfolding store_ok_def g
proof (intro conjI allI impI)
  fix fd q
  assume a: "w_store w fd = Some q"
  then have "q \<noteq> p"
    using un by (auto simp: unowned_def)
  then show "w_conns w' q \<noteq> None"
    using store_ok_alloc [OF st a] o by simp
next
  fix fd fd' q
  assume "w_store w fd = Some q \<and> w_store w fd' = Some q"
  then show "fd = fd'"
    using store_ok_inj [OF st] by blast
next
  fix fd q c'
  assume a: "w_store w fd = Some q \<and> w_conns w' q = Some c' \<and> q \<notin> {}"
  then have "q \<noteq> p"
    using un by (auto simp: unowned_def)
  then show "c_fd c' = fd" "0 \<le> fd" "1 \<le> refcnt c'"
    using a X o store_ok_fd [OF st, of fd q c'] by auto
next
  fix q c'
  assume a: "w_conns w' q = Some c' \<and> 0 \<le> c_fd c' \<and> q \<notin> {}"
  then have "q \<noteq> p"
    using c' by fastforce
  then show "w_store w (c_fd c') = Some q"
    using a X o store_ok_open [OF st, of q c'] by auto
next
  fix q c'
  assume a: "w_conns w' q = Some c' \<and> deadline_active (c_dl c') \<and> q \<notin> {}"
  then have "q \<noteq> p"
    using c' by fastforce
  then show "0 \<le> c_fd c'"
    using a X o store_ok_armed [OF st, of q c'] by auto
qed

lemma active_ok_release:
  assumes ac: "active_ok w" and g: "w_store w' = w_store w" "active_fds w' = active_fds w"
    and o: "\<And>q. q \<noteq> p \<Longrightarrow> w_conns w' q = w_conns w q"
    and c: "\<And>c. w_conns w p = Some c \<Longrightarrow> \<not> in_active_set (c_link c)"
    and c': "\<And>c'. w_conns w' p = Some c' \<Longrightarrow> \<not> in_active_set (c_link c')"
  shows "active_ok w'"
  unfolding active_ok_def g
proof (intro conjI allI impI)
  fix i
  assume "i < length (active_fds w)"
  then obtain r d where "w_store w (active_fds w ! i) = Some r" "w_conns w r = Some d"
      "in_active_set (c_link d)" "active_idx (c_link d) = int i"
    using active_ok_entry [OF ac] by blast
  moreover from this have "r \<noteq> p"
    using c by blast
  ultimately show "\<exists>p c. w_store w (active_fds w ! i) = Some p \<and> w_conns w' p = Some c \<and>
      in_active_set (c_link c) \<and> active_idx (c_link c) = int i"
    using o by metis
next
  fix r d
  assume a: "w_conns w' r = Some d \<and> in_active_set (c_link d)"
  then have "r \<noteq> p"
    using c' by blast
  then show "\<exists>i<length (active_fds w). active_idx (c_link d) = int i \<and> w_store w (active_fds w ! i) = Some r"
    using a o active_ok_member [OF ac] by auto
qed

lemma wheel_rep_release:
  assumes rep: "wheel_rep pend w L" and b: "tw_buckets w' = tw_buckets w"
    and o: "\<And>q. q \<noteq> p \<Longrightarrow> w_conns w' q = w_conns w q"
    and c: "w_conns w p = Some c" "\<not> deadline_active (c_dl c)"
    and c': "\<And>c'. w_conns w' p = Some c' \<Longrightarrow> \<not> deadline_active (c_dl c')"
  shows "wheel_rep pend w' L"
proof -
  have H: "w_conns w' = (w_conns w)(p := w_conns w' p)"
    using o by (intro ext) simp
  have np: "p \<notin> set (L ! i)" if "i < length L" for i
    by (rule wheel_rep_not_member [OF rep c that])
  have "armed_in (w_conns w') i q = armed_in (w_conns w) i q" for i q
    using o [of q] c c' by (cases "q = p") (auto simp: armed_in_def split: option.splits)
  moreover have "linked (w_conns w') None (L ! i) None" if "i < length L" for i
    using wheel_rep_bucket(2) [OF rep that] np [OF that] by (subst H) simp
  moreover have "w_conns w' q = w_conns w q" if "q \<in> set pend" for q
    using that o [of q] wheel_rep_unarmed [OF rep c] by (cases "q = p") simp_all
  then have "pending pend w' L"
    using rep chained_cong [of pend "w_conns w'" "w_conns w"] by (simp add: wheel_rep_def pending_def is_armed_def)
  ultimately show ?thesis
    using rep by (simp add: wheel_rep_def b)
qed

lemma recycled_free_ok:
  assumes fr: "free_ok w" and c: "w_conns w p = Some c" "refcnt c \<noteq> 0" and r: "recycled p w w'"
  shows "free_ok w'"
proof -
  obtain ps where ps: "free_chain (w_conns w) (conn_free_list w) ps" "distinct ps"
      "length ps = conn_free_count w" "\<forall>p\<in>set ps. \<forall>c. w_conns w p = Some c \<longrightarrow> idle_conn c"
    using fr unfolding free_ok_def by blast
  have np: "p \<notin> set ps"
    using ps(4) c by (auto simp: idle_conn_def)
  have o: "w_conns w' q = w_conns w q" if "q \<in> set ps" for q
    using r that np by (auto simp: recycled_def)
  have ch: "free_chain (w_conns w') (conn_free_list w) ps"
    using free_chain_other [OF _ ps(1)] o by simp
  have idle: "\<forall>q\<in>set ps. \<forall>d. w_conns w' q = Some d \<longrightarrow> idle_conn d"
    using ps(4) o by auto
  show ?thesis
    using r unfolding recycled_def
  proof (elim conjE disjE exE)
    assume "conn_free_list w' = conn_free_list w" "conn_free_count w' = conn_free_count w"
    then show ?thesis
      unfolding free_ok_def using ch ps(2,3) idle by (intro exI [of _ ps]) simp
  next
    fix c'
    assume h: "w_conns w' = (w_conns w)(p := Some c')" "c_fd c' = - 1" "refcnt c' = 0"
      "\<not> in_active_set (c_link c')" "\<not> deadline_active (c_dl c')" "free_next c' = conn_free_list w"
      "conn_free_list w' = Some p" "conn_free_count w' = conn_free_count w + 1"
    have "w_conns w' p = Some c'" "idle_conn c'"
      using h by (simp_all add: idle_conn_def)
    then show ?thesis
      unfolding free_ok_def using ch h(6-8) ps(2,3) idle np by (intro exI [of _ "p # ps"]) simp
  qed
qed

lemma recycled_ok:
  assumes ok: "worker_ok X pend w L" and X: "X \<subseteq> {p}" and un: "unowned p w" and c: "w_conns w p = Some c" "refcnt c \<noteq> 0"
    and n: "\<not> in_active_set (c_link c)" "\<not> deadline_active (c_dl c)" and r: "recycled p w w'"
  shows "worker_ok {} pend w' L" "only_at p w w'"
proof -
  have st: "store_ok X w" and ac: "active_ok w" and fr: "free_ok w" and rep: "wheel_rep pend w L" and wf: "wheel_wf w"
    using ok by (simp_all add: worker_ok_def live_def)
  have g: "w_store w' = w_store w" "active_fds w' = active_fds w" "tw_buckets w' = tw_buckets w"
    "tw_params w' = tw_params w" "prefix (w_trace w) (w_trace w')"
    and o: "\<And>q. q \<noteq> p \<Longrightarrow> w_conns w' q = w_conns w q"
    and c': "\<And>c'. w_conns w' p = Some c' \<Longrightarrow> c_fd c' < 0 \<and> \<not> in_active_set (c_link c') \<and> \<not> deadline_active (c_dl c')"
    using r by (auto simp: recycled_def)
  have "store_ok {} w'"
    using c' by (intro store_ok_release [OF st X un g(1) o]) auto
  moreover have "active_ok w'"
    using c' c(1) n(1) by (intro active_ok_release [OF ac g(1,2) o]) auto
  moreover have "wheel_rep pend w' L"
    using c' by (intro wheel_rep_release [OF rep g(3) o c(1) n(2)]) auto
  moreover have "wheel_wf w'"
    using wf g by (simp add: wheel_wf_def tw_params_def)
  ultimately show "worker_ok {} pend w' L" "only_at p w w'"
    using recycled_free_ok [OF fr c r] g o by (simp_all add: worker_ok_def live_def only_at_def)
qed

lemma release_ok:
  assumes "worker_ok X pend w L" "X \<subseteq> {p}" "unowned p w" "w_conns w p = Some c" "c_fd c < 0" "\<not> deadline_active (c_dl c)"
  shows "worker_ok {} pend w L"
  using assms store_ok_release [of X w p w] by (auto simp: worker_ok_def live_def)

section \<open>Closing\<close>

lemma close_forget_ok:
  assumes ok: "worker_ok {p} pend w L" and p: "w_store w fd = Some p" "w_conns w p = Some c" "refcnt c \<noteq> 0"
  shows "\<exists>w' c'. close_forget fd w = Some w' \<and> worker_ok {p} pend w' L \<and> only_at p w w' \<and>
    w_store w' = (w_store w)(fd := None) \<and> unowned p w' \<and> w_conns w' p = Some c' \<and> c_fd c' = c_fd c \<and>
    refcnt c' = refcnt c \<and> c_dl c' = c_dl c \<and> \<not> in_active_set (c_link c') \<and> w_trace w' = w_trace w"
proof -
  obtain w1 c1 where w1: "worker_active_remove fd w = Some w1" "worker_ok {p} pend w1 L" "only_at p w w1"
      "w_store w1 = w_store w" "w_conns w1 p = Some c1" "c_fd c1 = c_fd c" "refcnt c1 = refcnt c"
      "c_dl c1 = c_dl c" "\<not> in_active_set (c_link c1)" "w_trace w1 = w_trace w"
    using active_remove_ok [OF ok p] by blast
  let ?w = "active_conns_dec (conn_store_remove fd w1)"
  have f: "w_store ?w = (w_store w)(fd := None)" "w_conns ?w = w_conns w1" "w_trace ?w = w_trace w"
    "tw_params ?w = tw_params w1"
    using w1(4,10) by (simp_all add: active_conns_dec_def conn_store_remove_def tw_params_def)
  have "worker_ok {p} pend ?w L"
    using w1 p(1) by (intro store_remove_ok [OF w1(2) _ w1(5,9)]) auto
  moreover have "unowned p ?w"
    unfolding unowned_def f
  proof
    fix x
    have "w_store w x \<noteq> Some p" if "x \<noteq> fd"
      using store_ok_inj [of "{p}" w x p fd] ok p(1) that by (auto simp: worker_ok_def live_def)
    then show "((w_store w)(fd := None)) x \<noteq> Some p"
      by simp
  qed
  moreover have "only_at p w ?w"
    using w1(3) f w1(10) by (simp add: only_at_def)
  ultimately show ?thesis
    using w1(1,5-9) f by (intro exI [of _ ?w] exI [of _ c1]) (simp add: close_forget_def)
qed

text \<open>A connection nobody can reach through the table any more.\<close>

definition closed_conn :: "nat \<Rightarrow> worker_ctx \<Rightarrow> conn \<Rightarrow> bool" where
  "closed_conn p w c \<longleftrightarrow>
     w_conns w p = Some c \<and> unowned p w \<and> c_fd c < 0 \<and> \<not> in_active_set (c_link c) \<and> \<not> deadline_active (c_dl c)"

lemma conn_put_ok:
  assumes ok: "worker_ok X pend w L" and X: "X \<subseteq> {p}" and c: "closed_conn p w c" "1 \<le> refcnt c"
  shows "\<exists>w'. conn_put p w = Some w' \<and> worker_ok {} pend w' L \<and> only_at p w w' \<and> w_store w' = w_store w \<and>
    (refcnt c > 1 \<longrightarrow> closed_conn p w' (c\<lparr>refcnt := refcnt c - 1\<rparr>))"
proof (cases "refcnt c = 1")
  case True
  obtain w' where w': "conn_put p w = Some w'" "recycled p w w'"
    using conn_put_last [of w p c] c True by (auto simp: closed_conn_def)
  then show ?thesis
    using recycled_ok [OF ok X _ _ _ _ _ w'(2), of c] c True by (auto simp: closed_conn_def recycled_def)
next
  case False
  obtain w' where w': "conn_put p w = Some w'" "calm p w w'" "w_conns w' p = Some (c\<lparr>refcnt := refcnt c - 1\<rparr>)"
    using conn_put_more [of w p c] c False by (auto simp: closed_conn_def)
  have g: "w_store w' = w_store w"
    using calm_globals [OF w'(2)] by (simp add: life_globals_def)
  have cl: "closed_conn p w' (c\<lparr>refcnt := refcnt c - 1\<rparr>)"
    using c w'(3) g by (simp add: closed_conn_def unowned_def)
  have "worker_ok {p} pend w' L"
    using c X by (intro worker_ok_calm [OF ok w'(2) _ _ _ w'(3)]) (auto simp: closed_conn_def link_view_def)
  then have "worker_ok {} pend w' L"
    using cl release_ok [of "{p}" pend w' L p] by (simp add: closed_conn_def)
  then show ?thesis
    using w' g cl calm_at by blast
qed

lemma conn_put_twice:
  assumes ok: "worker_ok X pend w L" and X: "X \<subseteq> {p}" and c: "closed_conn p w c" "2 \<le> refcnt c"
  shows "\<exists>w1 w'. conn_put p w = Some w1 \<and> conn_put p w1 = Some w' \<and> worker_ok {} pend w' L \<and> only_at p w w' \<and>
    w_store w' = w_store w"
proof -
  obtain w1 where w1: "conn_put p w = Some w1" "worker_ok {} pend w1 L" "only_at p w w1" "w_store w1 = w_store w"
      "closed_conn p w1 (c\<lparr>refcnt := refcnt c - 1\<rparr>)"
    using conn_put_ok [OF ok X c(1)] c(2) by auto
  then show ?thesis
    using conn_put_ok [OF w1(2) _ w1(5)] c(2) only_at_trans [OF w1(3)] by auto
qed

lemma cancel_poll_calm:
  assumes "w_conns w p = Some c"
  shows "\<exists>b w' tx. worker_loop_cancel_write_poll_if_armed p w = Some (b, w') \<and> calm p w w' \<and>
    w_conns w' p = Some (c\<lparr>c_tx := tx\<rparr>)"
proof -
  have sq: "calm p w (snd (get_sqe_batching w))" "w_conns (snd (get_sqe_batching w)) = w_conns w"
    by simp_all
  let ?w = "post (Sqe_poll_remove p) (snd (get_sqe_batching w))"
  have cp: "calm p w ?w"
    using sq(1) calm_ring(6) calm_trans by blast
  obtain w2 where w2: "updc p (\<lambda>c. c\<lparr>c_tx := tx_notify_poll_disarmed_staged (c_tx c)\<rparr>) ?w = Some w2" "calm p ?w w2"
      "w_conns w2 p = Some (c\<lparr>c_tx := tx_notify_poll_disarmed_staged (c_tx c)\<rparr>)"
    using updc_calm [of ?w p c] assms by auto
  have same: "w_conns w p = Some (c\<lparr>c_tx := c_tx c\<rparr>)"
    using assms by simp
  consider "\<not> write_poll_armed (c_tx c)" | "write_poll_armed (c_tx c)" "\<not> fst (get_sqe_batching w)"
    | "write_poll_armed (c_tx c)" "fst (get_sqe_batching w)" by blast
  then show ?thesis
  proof cases
    case 1
    then have "worker_loop_cancel_write_poll_if_armed p w = Some (False, w)"
      using assms by (simp add: worker_loop_cancel_write_poll_if_armed_def getc_def)
    then show ?thesis
      using same calm_refl by blast
  next
    case 2
    then have "worker_loop_cancel_write_poll_if_armed p w = Some (False, snd (get_sqe_batching w))"
      using assms by (simp add: worker_loop_cancel_write_poll_if_armed_def getc_def case_prod_beta)
    then show ?thesis
      using same sq by metis
  next
    case 3
    then have "worker_loop_cancel_write_poll_if_armed p w = Some (True, w2)"
      using assms w2(1) by (simp add: worker_loop_cancel_write_poll_if_armed_def getc_def case_prod_beta)
    then show ?thesis
      using w2 calm_trans [OF cp] by blast
  qed
qed

text \<open>A connection whose descriptor has been taken from it, still in the table.\<close>

definition closing_conn :: "nat list \<Rightarrow> nat \<Rightarrow> int \<Rightarrow> worker_ctx \<Rightarrow> nat list list \<Rightarrow> int \<Rightarrow> bool" where
  "closing_conn pend p fd w L n \<longleftrightarrow>
     worker_ok {p} pend w L \<and> w_store w fd = Some p \<and>
     (\<exists>c. w_conns w p = Some c \<and> c_fd c = - 1 \<and> refcnt c = n \<and> \<not> deadline_active (c_dl c))"

lemma closing_calm:
  assumes "closing_conn pend p fd w L n" "calm p w w'" "w_conns w' p = map_option f (w_conns w p)" "1 \<le> n"
    and "\<And>c. keeps_life c (f c) \<and> link_view (f c) = link_view c"
  shows "closing_conn pend p fd w' L n"
proof -
  obtain c where c: "w_conns w p = Some c" "c_fd c = - 1" "refcnt c = n" "\<not> deadline_active (c_dl c)"
      and ok: "worker_ok {p} pend w L"
    using assms(1) by (auto simp: closing_conn_def)
  have c': "w_conns w' p = Some (f c)"
    using assms(3) c(1) by simp
  have "worker_ok {p} pend w' L"
    using assms(4,5) c
    by (intro worker_ok_calm [OF ok assms(2) subset_refl c(1) _ c']) (auto simp: keeps_life_def)
  moreover have "w_store w' = w_store w"
    using calm_globals [OF assms(2)] by (simp add: life_globals_def)
  ultimately show ?thesis
    using assms(1,5) c c' by (auto simp: closing_conn_def keeps_life_def link_view_def)
qed

lemma closing_same: "closing_conn pend p fd w L n \<Longrightarrow> calm p w w' \<Longrightarrow> w_conns w' = w_conns w \<Longrightarrow> 1 \<le> n \<Longrightarrow>
    closing_conn pend p fd w' L n"
  by (rule closing_calm [where f = "\<lambda>c. c"]) (auto simp: keeps_life_def option.map_ident)

lemma closing_start:
  assumes ok: "worker_ok {} pend w L" and c: "w_conns w p = Some c" "1 \<le> refcnt c" "\<not> deadline_active (c_dl c)"
    and fd: "w_store w fd = Some p"
    and f: "\<And>c. c_fd (f c) = - 1 \<and> refcnt (f c) = refcnt c \<and> c_link (f c) = c_link c \<and> c_dl (f c) = c_dl c"
  shows "\<exists>w'. updc p f w = Some w' \<and> closing_conn pend p fd w' L (refcnt c) \<and> calm p w w'"
proof -
  obtain w' where w': "updc p f w = Some w'" "calm p w w'" "w_conns w' p = Some (f c)"
    using updc_calm [OF c(1)] by blast
  have "worker_ok {p} pend w' L"
    using c f by (intro worker_ok_calm [OF ok w'(2) _ c(1) _ w'(3)]) (auto simp: link_view_def)
  moreover have "w_store w' = w_store w"
    using calm_globals [OF w'(2)] by (simp add: life_globals_def)
  ultimately show ?thesis
    using w' f fd c(3) by (auto simp: closing_conn_def)
qed

lemma closing_cancel_poll:
  assumes "closing_conn pend p fd w L n" "1 \<le> n"
  shows "\<exists>b w'. worker_loop_cancel_write_poll_if_armed p w = Some (b, w') \<and> closing_conn pend p fd w' L n \<and> calm p w w'"
proof -
  obtain c where c: "w_conns w p = Some c"
    using assms(1) by (auto simp: closing_conn_def)
  obtain b w' tx where w': "worker_loop_cancel_write_poll_if_armed p w = Some (b, w')" "calm p w w'"
      "w_conns w' p = Some (c\<lparr>c_tx := tx\<rparr>)"
    using cancel_poll_calm [OF c] by blast
  have "closing_conn pend p fd w' L n"
    using c w'(3) assms(2)
    by (intro closing_calm [OF assms(1) w'(2), of "\<lambda>c. c\<lparr>c_tx := tx\<rparr>"]) (auto simp: keeps_life_def link_view_def)
  then show ?thesis
    using w' by blast
qed

lemma closing_forget:
  assumes "closing_conn pend p fd w L n" "1 \<le> n"
  shows "\<exists>w' c. close_forget fd w = Some w' \<and> worker_ok {p} pend w' L \<and> closed_conn p w' c \<and> refcnt c = n \<and>
    only_at p w w' \<and> w_store w' = (w_store w)(fd := None)"
proof -
  obtain c where c: "w_conns w p = Some c" "c_fd c = - 1" "refcnt c = n" "\<not> deadline_active (c_dl c)"
      and ok: "worker_ok {p} pend w L" and fd: "w_store w fd = Some p"
    using assms(1) by (auto simp: closing_conn_def)
  have r: "refcnt c \<noteq> 0"
    using c(3) assms(2) by simp
  obtain w' c' where w': "close_forget fd w = Some w'" "worker_ok {p} pend w' L" "only_at p w w'"
      "w_store w' = (w_store w)(fd := None)" "unowned p w'" "w_conns w' p = Some c'" "c_fd c' = c_fd c"
      "refcnt c' = refcnt c" "c_dl c' = c_dl c" "\<not> in_active_set (c_link c')"
    using close_forget_ok [OF ok fd c(1) r] by blast
  have "closed_conn p w' c'"
    using w'(5-10) c by (simp add: closed_conn_def)
  then show ?thesis
    using w'(1-4,8) c(3) by blast
qed

text \<open>The last two references go, or the last but the one the pending operation holds.\<close>

lemma closing_finish:
  assumes "closing_conn pend p fd w L n" "2 \<le> n"
  shows "\<exists>w1 w2 w'. close_forget fd w = Some w1 \<and> conn_put p w1 = Some w2 \<and> conn_put p w2 = Some w' \<and>
    worker_ok {} pend w' L \<and> only_at p w w' \<and> w_store w' = (w_store w)(fd := None)"
proof -
  obtain w1 c where w1: "close_forget fd w = Some w1" "worker_ok {p} pend w1 L" "closed_conn p w1 c" "refcnt c = n"
      "only_at p w w1" "w_store w1 = (w_store w)(fd := None)"
    using closing_forget [OF assms(1)] assms(2) by auto
  obtain w2 w' where "conn_put p w1 = Some w2" "conn_put p w2 = Some w'" "worker_ok {} pend w' L" "only_at p w1 w'"
      "w_store w' = w_store w1"
    using conn_put_twice [OF w1(2) subset_refl w1(3)] w1(4) assms(2) by auto
  then show ?thesis
    using w1 only_at_trans [OF w1(5)] by auto
qed

lemma closing_finish_async:
  assumes "closing_conn pend p fd w L n" "2 \<le> n"
  shows "\<exists>w1 w' c. close_forget fd w = Some w1 \<and> conn_put p w1 = Some w' \<and> worker_ok {} pend w' L \<and>
    only_at p w w' \<and> w_store w' = (w_store w)(fd := None) \<and> closed_conn p w' c \<and> refcnt c = n - 1"
proof -
  obtain w1 c where w1: "close_forget fd w = Some w1" "worker_ok {p} pend w1 L" "closed_conn p w1 c" "refcnt c = n"
      "only_at p w w1" "w_store w1 = (w_store w)(fd := None)"
    using closing_forget [OF assms(1)] assms(2) by auto
  obtain w' where w': "conn_put p w1 = Some w'" "worker_ok {} pend w' L" "only_at p w1 w'" "w_store w' = w_store w1"
      "closed_conn p w' (c\<lparr>refcnt := refcnt c - 1\<rparr>)"
    using conn_put_ok [OF w1(2) subset_refl w1(3)] w1(4) assms(2) by auto
  then show ?thesis
    using w1 only_at_trans [OF w1(5) w'(3)]
    by (intro exI [of _ w1] exI [of _ w'] exI [of _ "c\<lparr>refcnt := refcnt c - 1\<rparr>"]) simp
qed

lemma only_at_trace: "only_at p w w' \<Longrightarrow> a \<in> set (w_trace w) \<Longrightarrow> a \<in> set (w_trace w')"
  by (auto simp: only_at_def dest: set_mono_prefix)

lemma act_trace [simp]: "w_trace (act a w) = w_trace w @ [a]"
  by (simp add: act_def)

lemma calm_store: "calm p w w' \<Longrightarrow> w_store w' = w_store w"
  using calm_globals [of p w w'] by (simp add: life_globals_def)

text \<open>What a close that has run to its end leaves behind.\<close>

definition close_done :: "nat list \<Rightarrow> nat \<Rightarrow> int \<Rightarrow> worker_ctx \<Rightarrow> worker_ctx \<Rightarrow> nat list list \<Rightarrow> bool" where
  "close_done pend p fd w w' L \<longleftrightarrow>
     worker_ok {} pend w' L \<and> only_at p w w' \<and> w_store w' = (w_store w)(fd := None)"

lemma close_now_ok:
  assumes ok: "worker_ok {} pend w L" and c: "w_conns w p = Some c" "2 \<le> refcnt c" "\<not> deadline_active (c_dl c)"
    and fd: "w_store w fd = Some p"
  shows "\<exists>w'. close_now ab p fd w = Some w' \<and> close_done pend p fd w w' L \<and> Act_eff (Close_fd fd) \<in> set (w_trace w')"
proof -
  obtain w1 where w1: "updc p (\<lambda>c. c\<lparr>c_fd := - 1\<rparr>) w = Some w1" "closing_conn pend p fd w1 L (refcnt c)" "calm p w w1"
    using closing_start [OF ok c(1) _ c(3) fd, of "\<lambda>c. c\<lparr>c_fd := - 1\<rparr>"] c(2) by auto
  obtain b w2 where w2: "worker_loop_cancel_write_poll_if_armed p w1 = Some (b, w2)"
      "closing_conn pend p fd w2 L (refcnt c)" "calm p w1 w2"
    using closing_cancel_poll [OF w1(2)] c(2) by auto
  define w3 where "w3 = act (if ab then Act_linger fd else Act_shutdown fd True) (maybe_flush False w2)"
  define w4 where "w4 = act (Act_eff (Close_fd fd)) w3"
  have q: "calm p w2 w4" "w_conns w4 = w_conns w2"
    unfolding w4_def w3_def
    by (rule calm_trans [OF calm_trans [OF calm_ring(5) calm_ring(1)] calm_ring(1)]) simp
  have cl: "closing_conn pend p fd w4 L (refcnt c)"
    using closing_same [OF w2(2) q] c(2) by simp
  obtain w5 w6 w' where w': "close_forget fd w4 = Some w5" "conn_put p w5 = Some w6" "conn_put p w6 = Some w'"
      "worker_ok {} pend w' L" "only_at p w4 w'" "w_store w' = (w_store w4)(fd := None)"
    using closing_finish [OF cl c(2)] by blast
  have run: "close_now ab p fd w = Some w'"
    using w1(1) w2(1) w'(1-3) by (simp add: close_now_def Let_def w4_def w3_def)
  have "calm p w w4"
    using w1(3) w2(3) q(1) calm_trans by blast
  then have "close_done pend p fd w w' L"
    using w'(4-6) calm_at [of p w w4] only_at_trans [of p w w4 w'] calm_store [of p w w4]
    by (simp add: close_done_def)
  then show ?thesis
    using run only_at_trace [OF w'(5)] by (auto simp: w4_def)
qed

lemma close_without_sqe_ok:
  assumes ok: "worker_ok {} pend w L" and c: "w_conns w p = Some c" "2 \<le> refcnt c" "\<not> deadline_active (c_dl c)"
    and fd: "w_store w fd = Some p"
  shows "\<exists>w'. close_without_sqe p fd w = Some w' \<and> close_done pend p fd w w' L \<and>
    Act_eff (Close_fd fd) \<in> set (w_trace w')"
proof -
  obtain w1 where w1: "updc p (\<lambda>c. c\<lparr>c_fd := - 1\<rparr>) w = Some w1" "closing_conn pend p fd w1 L (refcnt c)" "calm p w w1"
    using closing_start [OF ok c(1) _ c(3) fd, of "\<lambda>c. c\<lparr>c_fd := - 1\<rparr>"] c(2) by auto
  define w4 where "w4 = act (Act_eff (Close_fd fd)) w1"
  have cl: "closing_conn pend p fd w4 L (refcnt c)"
    using closing_same [OF w1(2), of w4] c(2) by (simp add: w4_def)
  obtain w5 w6 w' where w': "close_forget fd w4 = Some w5" "conn_put p w5 = Some w6" "conn_put p w6 = Some w'"
      "worker_ok {} pend w' L" "only_at p w4 w'" "w_store w' = (w_store w4)(fd := None)"
    using closing_finish [OF cl c(2)] by blast
  have run: "close_without_sqe p fd w = Some w'"
    using w1(1) w'(1-3) by (simp add: close_without_sqe_def w4_def)
  have "calm p w w4"
    using calm_trans [OF w1(3), of w4] by (simp add: w4_def)
  then have "close_done pend p fd w w' L"
    using w'(4-6) calm_at [of p w w4] only_at_trans [of p w w4 w'] calm_store [of p w w4]
    by (simp add: close_done_def)
  then show ?thesis
    using run only_at_trace [OF w'(5)] by (auto simp: w4_def)
qed

lemma close_async_ok:
  assumes ok: "worker_ok {} pend w L" and c: "w_conns w p = Some c" "2 \<le> refcnt c" "\<not> deadline_active (c_dl c)"
    and fd: "w_store w fd = Some p"
  shows "\<exists>w' c'. close_async p fd w = Some w' \<and> close_done pend p fd w w' L \<and>
    Act_sqe (Sqe_close p fd) \<in> set (w_trace w') \<and> closed_conn p w' c' \<and> refcnt c' = refcnt c - 1"
proof -
  let ?a = "act (Act_sqe (Sqe_close p fd)) w"
  have a: "worker_ok {} pend ?a L" "w_conns ?a p = Some c" "w_store ?a fd = Some p"
    using ok c(1) fd by simp_all (simp add: act_def)
  obtain w1 where w1: "updc p (\<lambda>c. c\<lparr>c_fd := - 1, op_close_fd := fd\<rparr>) ?a = Some w1"
      "closing_conn pend p fd w1 L (refcnt c)" "calm p ?a w1"
    using closing_start [OF a(1,2) _ c(3) a(3), of "\<lambda>c. c\<lparr>c_fd := - 1, op_close_fd := fd\<rparr>"] c(2) by auto
  obtain b w2 where w2: "worker_loop_cancel_write_poll_if_armed p w1 = Some (b, w2)"
      "closing_conn pend p fd w2 L (refcnt c)" "calm p w1 w2"
    using closing_cancel_poll [OF w1(2)] c(2) by auto
  define w3 where "w3 = maybe_flush (accept_is_fd_pressure (mark_post w2)) (mark_post w2)"
  have q: "calm p w2 w3" "w_conns w3 = w_conns w2"
    unfolding w3_def by (rule calm_trans [OF calm_ring(4,5)]) simp
  have cl: "closing_conn pend p fd w3 L (refcnt c)"
    using closing_same [OF w2(2) q] c(2) by simp
  obtain w4 w' c' where w': "close_forget fd w3 = Some w4" "conn_put p w4 = Some w'" "worker_ok {} pend w' L"
      "only_at p w3 w'" "w_store w' = (w_store w3)(fd := None)" "closed_conn p w' c'" "refcnt c' = refcnt c - 1"
    using closing_finish_async [OF cl c(2)] by blast
  have run: "close_async p fd w = Some w'"
    using w1(1) w2(1) w'(1,2) by (simp add: close_async_def Let_def w3_def)
  have ca: "calm p ?a w3"
    using w1(3) w2(3) q(1) calm_trans by blast
  have cw: "calm p w w3"
    using calm_trans [OF calm_ring(1) ca] .
  have o: "only_at p w w'" "only_at p ?a w'"
    using only_at_trans [OF calm_at w'(4)] cw ca by blast+
  have "close_done pend p fd w w' L"
    using w'(3,5) o(1) calm_store [OF cw] by (simp add: close_done_def)
  then show ?thesis
    using run w'(6,7) only_at_trace [OF o(2)] by auto
qed

text \<open>
  The deadlines whose expiry, and the aborted writes, which close the descriptor at once.
\<close>

definition closes_at_once :: "conn \<Rightarrow> bool" where
  "closes_at_once c \<longleftrightarrow>
     dl_kind (c_dl c) \<in> {DK_INITIAL_IDLE, DK_KA_IDLE, DK_DRAIN} \<or> abortive_close (c_dl c)"

lemma schedule_or_sync_close_ok:
  assumes ok: "worker_ok {} pend w L" and fd: "w_store w fd = Some p" and c: "w_conns w p = Some c"
    and np: "p \<notin> set pend"
  shows "\<exists>r w'. schedule_or_sync_close fd w = Some (r, w') \<and> close_done pend p fd w w' (map (removeAll p) L) \<and>
    (if r then Act_sqe (Sqe_close p fd) \<in> set (w_trace w') \<and>
       (\<exists>c'. closed_conn p w' c' \<and> refcnt c' = refcnt c)
     else Act_eff (Close_fd fd) \<in> set (w_trace w')) \<and>
    (closes_at_once c \<longrightarrow> \<not> r)"
proof -
  let ?L = "map (removeAll p) L"
  have st: "store_ok {} w"
    using ok by (simp add: worker_ok_def live_def)
  have f: "c_fd c = fd" "0 \<le> fd" "1 \<le> refcnt c"
    using store_ok_fd [OF st fd c] by auto
  obtain w1 c1 where w1: "close_begin p w = Some w1" "worker_ok {} pend w1 ?L" "only_at p w w1"
      "life_globals w1 = life_globals w" "w_conns w1 p = Some c1" "keeps_life c c1" "\<not> deadline_active (c_dl c1)"
    using close_begin_ok [OF ok c f(3) np] by blast
  define c2 where "c2 = c1\<lparr>refcnt := refcnt c1 + 1\<rparr>"
  have k: "refcnt c1 = refcnt c" "refcnt c2 = refcnt c + 1" "\<not> deadline_active (c_dl c2)" "2 \<le> refcnt c2"
    using w1(6,7) f(3) by (simp_all add: keeps_life_def c2_def)
  obtain w2 where w2: "conn_ref p w1 = Some w2" "calm p w1 w2" "w_conns w2 p = Some c2"
    using updc_calm [OF w1(5), of "\<lambda>c. c\<lparr>refcnt := refcnt c + 1\<rparr>"] by (auto simp: conn_ref_def c2_def)
  have ok2: "worker_ok {} pend w2 ?L"
  proof -
    have "live {} w2"
      using w1(2,6,7) k(1) f(3) w2(3)
      by (intro live_step [OF _ calm_globals [OF w2(2)] subset_refl calm_view [OF w2(2)] w1(5) _ w2(3)])
        (auto simp: worker_ok_def c2_def)
    moreover have "wheel_rep pend w2 ?L"
      using w1(2) wheel_rep_upd [of pend w1 ?L p c1 c2] w1(5) updc_def [of p "\<lambda>c. c\<lparr>refcnt := refcnt c + 1\<rparr>" w1] w2(1)
      by (simp add: worker_ok_def conn_ref_def c2_def link_view_def)
    ultimately show ?thesis
      using w1(2) w2(2) by (simp add: worker_ok_def wheel_wf_def calm_def tw_params_def)
  qed
  have s2: "w_store w2 = w_store w" "w_store w2 fd = Some p" and o2: "only_at p w w2"
    using calm_store [OF w2(2)] w1(4) fd only_at_trans [OF w1(3) calm_at [OF w2(2)]]
    by (simp_all add: life_globals_def)
  have lift: "close_done pend p fd w w' ?L" if "close_done pend p fd w2 w' ?L" for w'
    using that s2(1) only_at_trans [OF o2, of w'] by (simp add: close_done_def)
  show ?thesis
  proof (cases "closes_at_once c")
    case True
    obtain w' where "close_now (abortive_close (c_dl c)) p fd w2 = Some w'" "close_done pend p fd w2 w' ?L"
        "Act_eff (Close_fd fd) \<in> set (w_trace w')"
      using close_now_ok [OF ok2 w2(3) k(4,3) s2(2)] by blast
    then show ?thesis
      using True fd c f w1(1) w2(1) lift
      by (auto simp: schedule_or_sync_close_def conn_get_def getc_def closes_at_once_def Let_def)
  next
    case False
    define w3 where "w3 = snd (get_sqe_batching w2)"
    have w3: "worker_ok {} pend w3 ?L" "w_conns w3 p = Some c2" "w_store w3 fd = Some p" "calm p w2 w3"
      using ok2 w2(3) s2(2) calm_store [of p w2 w3] by (simp_all add: w3_def)
    have lift3: "close_done pend p fd w w' ?L" if "close_done pend p fd w3 w' ?L" for w'
      using that s2(1) calm_store [OF w3(4)] only_at_trans [OF o2 only_at_trans [OF calm_at [OF w3(4)], of w']]
      by (simp add: close_done_def)
    obtain w4 where w4: "close_without_sqe p fd w3 = Some w4" "close_done pend p fd w3 w4 ?L"
        "Act_eff (Close_fd fd) \<in> set (w_trace w4)"
      using close_without_sqe_ok [OF w3(1,2) k(4,3) w3(3)] by blast
    obtain w5 c5 where w5: "close_async p fd w3 = Some w5" "close_done pend p fd w3 w5 ?L"
        "Act_sqe (Sqe_close p fd) \<in> set (w_trace w5)" "closed_conn p w5 c5" "refcnt c5 = refcnt c2 - 1"
      using close_async_ok [OF w3(1,2) k(4,3) w3(3)] by blast
    have run: "schedule_or_sync_close fd w =
        (if fst (get_sqe_batching w2) then Some (True, w5) else Some (False, w4))"
      using False fd c f w1(1) w2(1) w4(1) w5(1)
      by (simp add: schedule_or_sync_close_def conn_get_def getc_def closes_at_once_def Let_def case_prod_beta w3_def)
    show ?thesis
      using run False w4(2,3) w5(2-5) lift3 k(2) by (cases "fst (get_sqe_batching w2)") auto
  qed
qed

end
