(* ===== verification/Wheel_Tick.thy ===== *)
theory Wheel_Tick
  imports Conn_Live
begin

text \<open>
  The tick of the timing wheel, \<open>tw_process_tick\<close> of \<^verbatim>\<open>src/src/timing_wheel.c\<close>, and the sweep of
  \<^verbatim>\<open>src/src/worker_loop.c\<close> that runs the ticks that are due. A tick takes the chain of one bucket
  and visits it: a connection whose deadline has passed is closed or answered with 408, another
  goes back into the wheel.
\<close>

section \<open>The model\<close>

subsection \<open>Staging a response head\<close>

definition conn_serve :: "conn \<Rightarrow> worker_ctx \<Rightarrow> serve" where
  "conn_serve c w = \<lparr>sv_os = w_os w, sv_tx = c_tx c, sv_date = w_date w, sv_open_err = 0\<rparr>"

definition put_serve :: "nat \<Rightarrow> serve \<Rightarrow> worker_ctx \<Rightarrow> worker_ctx option" where
  "put_serve p s w = updc p (\<lambda>c. c\<lparr>c_tx := sv_tx s\<rparr>) (w\<lparr>w_os := sv_os s, w_date := sv_date s\<rparr>)"

text \<open>
  The plan with its policy headers, the head built for it (or the canned text when that fails), and
  the start of its transmission; the bytes to send are returned.
\<close>

definition stage_head ::
    "request_response_plan \<Rightarrow> conn \<Rightarrow> worker_ctx \<Rightarrow> request_response_plan \<times> string \<times> serve" where
  "stage_head plan0 c w =
     (let extra = request_build_policy_extra_headers (h1_path (c_h1 c)) (c_vhost c) (rp_kind plan0);
          plan = request_policy_fail_closed_response_plan plan0 extra;
          ptr = (case extra of Some (x # xs) \<Rightarrow> Some (x # xs) | _ \<Rightarrow> None);
          (built, s) =
            (case rp_status_line plan of
               None \<Rightarrow> (None, conn_serve c w)
             | Some st \<Rightarrow>
                 sv_build st None True 0 None 0 (rp_keepalive plan) (rp_drain_after_headers plan) ptr (conn_serve c w));
          buf = (case built of Some b \<Rightarrow> Some b | None \<Rightarrow> rp_response plan);
          (_, tx, out) =
            tx_begin_headers (rp_kind plan) buf (case buf of None \<Rightarrow> 0 | Some b \<Rightarrow> length b) (rp_keepalive plan)
              (rp_drain_after_headers plan) (sv_tx s)
      in (plan, out, s\<lparr>sv_tx := tx\<rparr>))"

definition stage_plan ::
    "nat \<Rightarrow> request_response_plan \<Rightarrow> worker_ctx \<Rightarrow> (request_response_plan \<times> string \<times> worker_ctx) option" where
  "stage_plan p plan0 w = do {
     c \<leftarrow> getc p w;
     let (plan, out, s) = stage_head plan0 c w;
     w1 \<leftarrow> put_serve p s w;
     Some (plan, out, w1)
   }"

subsection \<open>Visiting a connection\<close>

definition tw_close :: "int \<Rightarrow> worker_ctx \<Rightarrow> (bool \<times> worker_ctx) option" where
  "tw_close fd w = schedule_or_sync_close fd w"

definition tw_send_408 :: "nat \<Rightarrow> int \<Rightarrow> worker_ctx \<Rightarrow> worker_ctx option" where
  "tw_send_408 p fd w = do {
     (_, out, w1) \<leftarrow> stage_plan p (request_build_response_plan RK_408 False False True) w;
     w2 \<leftarrow> upd_dl p (\<lambda>d. d\<lparr>closing := True\<rparr>) w1;
     w3 \<leftarrow> conn_ref p w2;
     Some (post (Sqe_send p fd out) w3)
   }"

text \<open>The action for the kind of the deadline; the result tells whether the connection is still there.\<close>

definition tw_expire :: "nat \<Rightarrow> worker_ctx \<Rightarrow> (bool \<times> worker_ctx) option" where
  "tw_expire p w = do {
     c \<leftarrow> getc p w;
     let k = dl_kind (c_dl c);
     if k = DK_DRAIN \<or> k = DK_KA_IDLE \<or> k = DK_INITIAL_IDLE \<or> k = DK_WRITE_TIMEOUT then do {
       w1 \<leftarrow> (if k = DK_WRITE_TIMEOUT then upd_dl p (\<lambda>d. d\<lparr>abortive_close := True\<rparr>) w else Some w);
       tw_close (c_fd c) w1
     } else if k = DK_HEADER_TIMEOUT \<or> k = DK_BODY_TIMEOUT then
       (let (ok, w1) = get_sqe_batching w
        in if \<not> ok then tw_close (c_fd c) w1
           else do { w2 \<leftarrow> tw_send_408 p (c_fd c) w1; Some (True, w2) })
     else Some (True, w)
   }"

definition tw_rearm :: "nat \<Rightarrow> u64 \<Rightarrow> worker_ctx \<Rightarrow> worker_ctx option" where
  "tw_rearm p now w = do {
     (d, w1) \<leftarrow> tw_store_deadline p w;
     if d \<noteq> 0 then tw_insert_internal p now d w1 else Some w1
   }"

definition tw_visit :: "u64 \<Rightarrow> nat \<Rightarrow> worker_ctx \<Rightarrow> worker_ctx option" where
  "tw_visit now p w = do {
     c \<leftarrow> getc p w;
     w1 \<leftarrow> updc p (\<lambda>c. c\<lparr>c_link := (c_link c)\<lparr>tw_prev := None, tw_next := None\<rparr>,
                         c_dl := (c_dl c)\<lparr>deadline_active := False\<rparr>\<rparr>) w;
     if deadline_ms (c_dl c) \<le> now then do {
       (alive, w2) \<leftarrow> tw_expire p w1;
       if alive then tw_rearm p now w2 else Some w2
     } else tw_insert_internal p now (deadline_ms (c_dl c)) w1
   }"

subsection \<open>The loops\<close>

text \<open>The loop over a chain; the successor is read before the connection is visited.\<close>

partial_function (option) walk ::
    "(nat \<Rightarrow> worker_ctx \<Rightarrow> worker_ctx option) \<Rightarrow> nat option \<Rightarrow> worker_ctx \<Rightarrow> worker_ctx option" where
  "walk visit cur w =
     (case cur of
        None \<Rightarrow> Some w
      | Some p \<Rightarrow>
          Option.bind (getc p w)
            (\<lambda>c. Option.bind (visit p w) (\<lambda>w1. walk visit (tw_next (c_link c)) w1)))"

definition tick_slot :: "worker_ctx \<Rightarrow> nat" where
  "tick_slot w = unat (ucast (tw_now_tick w AND ucast (tw_mask w)) :: u32)"

definition tw_process_tick :: "u64 \<Rightarrow> worker_ctx \<Rightarrow> worker_ctx option" where
  "tw_process_tick now w = do {
     cur \<leftarrow> get_bucket (tick_slot w) w;
     w1 \<leftarrow> set_bucket (tick_slot w) None w;
     walk (tw_visit now) cur (w1\<lparr>tw_now_tick := tw_now_tick w1 + 1\<rparr>)
   }"

partial_function (option) sweep_ticks :: "u64 \<Rightarrow> worker_ctx \<Rightarrow> worker_ctx option" where
  "sweep_ticks now w =
     (if next_tick_deadline_ms w \<le> now then
        Option.bind (tw_process_tick now w)
          (\<lambda>w1. sweep_ticks now (w1\<lparr>next_tick_deadline_ms := next_tick_deadline_ms w1 + ucast (tw_tick_ms w1)\<rparr>))
      else Some w)"

text \<open>The handler of the sweep timer: the ticks that are due, then the next timer.\<close>

definition handle_sweep :: "worker_ctx \<Rightarrow> worker_ctx option" where
  "handle_sweep w =
     (let (now, w0) = now_or_clock w in do {
        w1 \<leftarrow> sweep_ticks now w0;
        let delta = (if next_tick_deadline_ms w1 > now then next_tick_deadline_ms w1 - now
                     else ucast (tw_tick_ms w1));
        let (ok, w2) = get_sqe_retry_once w1;
        Some (maybe_flush False (if ok then post (Sqe_timeout OP_SWEEP delta) w2 else w2))
      })"

declare walk.simps [code] sweep_ticks.simps [code] conn_freelist_drain.simps [code]

section \<open>Every visit succeeds and keeps the invariant\<close>

lemma detach_ok:
  assumes ok: "worker_ok {} (p # xs) w L"
  shows "\<exists>c w1. w_conns w p = Some c \<and> tw_next (c_link c) = first xs None \<and> 0 \<le> c_fd c \<and>
    w_store w (c_fd c) = Some p \<and> 1 \<le> refcnt c \<and>
    updc p (\<lambda>c. c\<lparr>c_link := (c_link c)\<lparr>tw_prev := None, tw_next := None\<rparr>,
                  c_dl := (c_dl c)\<lparr>deadline_active := False\<rparr>\<rparr>) w = Some w1 \<and>
    worker_ok {} xs w1 L \<and> calm p w w1 \<and> w_conns w1 p = Some (detached c)"
proof -
  have rep: "wheel_rep (p # xs) w L" and st: "store_ok {} w" and lv: "live {} w" and wf: "wheel_wf w"
    using ok by (simp_all add: worker_ok_def live_def)
  have "is_armed (w_conns w) p"
    by (rule wheel_rep_pend(3) [OF rep]) simp
  then obtain c where c: "w_conns w p = Some c" "deadline_active (c_dl c)"
    by (cases "w_conns w p") (simp_all add: is_armed_def)
  have nx: "tw_next (c_link c) = first xs None"
    using wheel_rep_pend(2) [OF rep] c(1) by simp
  have fd: "0 \<le> c_fd c"
    by (rule store_ok_armed [OF st c]) simp
  have fp: "w_store w (c_fd c) = Some p"
    by (rule store_ok_open [OF st c(1) fd]) simp
  have rc: "1 \<le> refcnt c"
    using store_ok_fd [OF st fp c(1)] by simp
  define w1 where "w1 = w\<lparr>w_conns := (w_conns w)(p := Some (detached c))\<rparr>"
  have q: "calm p w w1" "w_conns w1 p = Some (detached c)"
    by (simp_all add: w1_def calm_def life_globals_def tw_params_def)
  have "live {} w1"
    using rc
    by (intro live_step [OF lv calm_globals [OF q(1)] subset_refl calm_view [OF q(1)] c(1) _ q(2)])
      (auto simp: detached_def)
  moreover have "wheel_rep xs w1 L"
  proof -
    have np: "p \<notin> set xs" "p \<notin> set (L ! i)" if "i < length L" for i
      using wheel_rep_pend(1) [OF rep] wheel_rep_disjoint [OF rep that] by auto
    have px: "p \<notin> set xs"
      using wheel_rep_pend(1) [OF rep] by simp
    have "armed_in (w_conns w1) i x \<longleftrightarrow> i < length L \<and> x \<in> set (L ! i)" if "x \<notin> set xs" for i x
    proof (cases "x = p")
      case True
      then show ?thesis
        using np(2) [of i] by (auto simp: w1_def armed_in_def detached_def)
    next
      case False
      then show ?thesis
        using wheel_rep_armed_iff [OF rep, of x i] that by (simp add: w1_def armed_in_def)
    qed
    moreover have "pending xs w1 L"
    proof -
      have "chained (w_conns w1) xs"
        using wheel_rep_pend(2) [OF rep] c(1) px by (simp add: w1_def)
      moreover have "is_armed (w_conns w1) x" if "x \<in> set xs" for x
        using wheel_rep_pend(3) [OF rep, of x] that px by (auto simp: w1_def is_armed_def)
      moreover have "set (L ! i) \<inter> set xs = {}" if "i < length L" for i
        using wheel_rep_disjoint [OF rep that] by auto
      ultimately show ?thesis
        using wheel_rep_pend(1) [OF rep] by (simp add: pending_def)
    qed
    moreover have "linked (w_conns w1) None (L ! i) None" if "i < length L" for i
      using wheel_rep_bucket(2) [OF rep that] np(2) [OF that] by (simp add: w1_def)
    ultimately show ?thesis
      using wheel_rep_bucket [OF rep] rep by (simp add: wheel_rep_def w1_def)
  qed
  ultimately have "worker_ok {} xs w1 L"
    using wf by (simp add: worker_ok_def w1_def wheel_wf_def)
  moreover have "updc p (\<lambda>c. c\<lparr>c_link := (c_link c)\<lparr>tw_prev := None, tw_next := None\<rparr>,
      c_dl := (c_dl c)\<lparr>deadline_active := False\<rparr>\<rparr>) w = Some w1"
    using c(1) by (simp add: updc_def w1_def detached_def)
  ultimately show ?thesis
    using c(1) nx fd fp rc q by blast
qed

lemma insert_ok:
  assumes ok: "worker_ok {} xs w L" and c: "w_conns w p = Some c" "\<not> deadline_active (c_dl c)" "0 \<le> c_fd c" "1 \<le> refcnt c"
  shows "\<exists>w' c' s. tw_insert_internal p now d w = Some w' \<and> worker_ok {} xs w' (L[s := p # L ! s]) \<and> only_at p w w' \<and>
    w_conns w' p = Some c' \<and> c_dl c' = (c_dl c)\<lparr>deadline_ms := d, deadline_active := True\<rparr> \<and> c_fd c' = c_fd c"
proof -
  let ?s = "tw_slot_for w now d"
  have rep: "wheel_rep xs w L" and wf: "wheel_wf w"
    using ok by (simp_all add: worker_ok_def)
  obtain w' where w': "tw_insert_internal p now d w = Some w'" "wheel_rep xs w' (L[?s := p # L ! ?s])"
      "wheel_frame p w w'" "w_conns w' p = Some (armed_at ?s d (first (L ! ?s) None) c)"
    using tw_insert_rep [OF rep wf c(1-3) refl] by blast
  have "worker_ok {} xs w' (L[?s := p # L ! ?s])"
    using c by (intro worker_ok_wheel [OF ok w'(3,2) _ c(1) _ w'(4)]) (auto simp: armed_at_def keeps_life_def)
  then show ?thesis
    using w' wheel_frame_at [OF w'(3)]
    by (intro exI [of _ w'] exI [of _ "armed_at ?s d (first (L ! ?s) None) c"] exI [of _ ?s]) (simp add: armed_at_def)
qed

lemma rearm_ok:
  assumes ok: "worker_ok {} xs w L" and c: "w_conns w p = Some c" "\<not> deadline_active (c_dl c)" "1 \<le> refcnt c"
  shows "\<exists>w' L'. tw_rearm p now w = Some w' \<and> worker_ok {} xs w' L' \<and> only_at p w w' \<and> length L' = length L"
proof -
  obtain k d where kd: "tw_compute_conn_deadline (w_cfg w) c = (k, d)"
    by fastforce
  obtain w1 where w1: "upd_dl p (\<lambda>x. x\<lparr>dl_kind := k\<rparr>) w = Some w1" "worker_ok {} xs w1 L" "calm p w w1"
      "w_conns w1 p = Some (c\<lparr>c_dl := (c_dl c)\<lparr>dl_kind := k\<rparr>\<rparr>)"
    using worker_ok_upd_dl [OF ok c(1), of "\<lambda>x. x\<lparr>dl_kind := k\<rparr>"] c(3) by auto
  have s: "tw_store_deadline p w = Some (d, w1)"
    using c(1) kd w1(1) by (simp add: tw_store_deadline_def getc_def)
  show ?thesis
  proof (cases "d = 0")
    case True
    then show ?thesis
      using s w1(2) calm_at [OF w1(3)] by (auto simp: tw_rearm_def)
  next
    case False
    have fd: "0 \<le> c_fd c"
      using deadline_fd [of "w_cfg w" c] kd False by simp
    obtain w' sl where "tw_insert_internal p now d w1 = Some w'" "worker_ok {} xs w' (L[sl := p # L ! sl])" "only_at p w1 w'"
      using insert_ok [OF w1(2,4), of now d] c fd by auto
    then show ?thesis
      using s False only_at_trans [OF calm_at [OF w1(3)]]
      by (intro exI [of _ w'] exI [of _ "L[sl := p # L ! sl]"]) (auto simp: tw_rearm_def)
  qed
qed

lemma stage_plan_calm:
  assumes "w_conns w p = Some c"
  shows "\<exists>plan out w' tx. stage_plan p plan0 w = Some (plan, out, w') \<and> calm p w w' \<and>
    w_conns w' p = Some (c\<lparr>c_tx := tx\<rparr>)"
proof -
  have put: "\<exists>w'. put_serve p s w = Some w' \<and> calm p w w' \<and> w_conns w' p = Some (c\<lparr>c_tx := sv_tx s\<rparr>)" for s
    using assms by (simp add: put_serve_def updc_def calm_def life_globals_def tw_params_def)
  obtain plan out s where h: "stage_head plan0 c w = (plan, out, s)"
    using prod_cases3 by blast
  show ?thesis
    using put [of s] assms h by (auto simp: stage_plan_def getc_def)
qed

lemma tw_send_408_ok:
  assumes ok: "worker_ok {} xs w L" and c: "w_conns w p = Some c" "\<not> deadline_active (c_dl c)" "1 \<le> refcnt c"
  shows "\<exists>w' c' out. tw_send_408 p fd w = Some w' \<and> worker_ok {} xs w' L \<and> only_at p w w' \<and>
    w_conns w' p = Some c' \<and> \<not> deadline_active (c_dl c') \<and> 1 \<le> refcnt c' \<and>
    Act_sqe (Sqe_send p fd out) \<in> set (w_trace w')"
proof -
  obtain plan out w1 tx where w1: "stage_plan p (request_build_response_plan RK_408 False False True) w = Some (plan, out, w1)"
      "calm p w w1" "w_conns w1 p = Some (c\<lparr>c_tx := tx\<rparr>)"
    using stage_plan_calm [OF c(1)] by blast
  define c3 where "c3 = c\<lparr>c_tx := tx, c_dl := (c_dl c)\<lparr>closing := True\<rparr>, refcnt := refcnt c + 1\<rparr>"
  define w3 where "w3 = w1\<lparr>w_conns := (w_conns w1)(p := Some c3)\<rparr>"
  have run: "tw_send_408 p fd w = Some (post (Sqe_send p fd out) w3)"
    using w1(1,3) by (simp add: tw_send_408_def upd_dl_def updc_def conn_ref_def w3_def c3_def)
  have q3: "calm p w w3" "w_conns w3 p = Some c3"
    using calm_trans [OF w1(2), of w3] by (simp_all add: w3_def calm_def life_globals_def tw_params_def)
  have "worker_ok {} xs w3 L"
  proof -
    have l: "live {} w" "wheel_rep xs w L" "wheel_wf w"
      using ok by (simp_all add: worker_ok_def)
    have "live {} w3"
      using c by (intro live_step [OF l(1) calm_globals [OF q3(1)] subset_refl calm_view [OF q3(1)] c(1) _ q3(2)])
        (auto simp: c3_def)
    moreover have "same_wheel w w3"
    proof -
      have "map_option link_view (w_conns w3 x) = map_option link_view (w_conns w x)" for x
        using q3 c(1) by (cases "x = p") (simp_all add: calm_def c3_def link_view_def)
      then show ?thesis
        using q3(1) by (simp add: same_wheel_def calm_def)
    qed
    ultimately show ?thesis
      using l wheel_rep_same q3(1) by (simp add: worker_ok_def wheel_wf_def calm_def tw_params_def)
  qed
  moreover have "only_at p w (post (Sqe_send p fd out) w3)"
    by (rule calm_at [OF calm_trans [OF q3(1) calm_ring(6)]])
  moreover have "Act_sqe (Sqe_send p fd out) \<in> set (w_trace (post (Sqe_send p fd out) w3))"
    by (simp add: post_def mark_post_def)
  ultimately show ?thesis
    using run q3(2) c by (intro exI [of _ "post (Sqe_send p fd out) w3"] exI [of _ c3] exI [of _ out]) (auto simp: c3_def)
qed

text \<open>
  What the expiry of a deadline does to a connection that is out of its bucket: either it is gone,
  its descriptor closed or a close staged, or it is still there and no longer armed.
\<close>

definition acted :: "nat \<Rightarrow> int \<Rightarrow> deadline_kind \<Rightarrow> worker_ctx \<Rightarrow> bool" where
  "acted p fd k w \<longleftrightarrow>
     (if k \<in> {DK_DRAIN, DK_KA_IDLE, DK_INITIAL_IDLE, DK_WRITE_TIMEOUT} then Act_eff (Close_fd fd) \<in> set (w_trace w)
      else if k \<in> {DK_HEADER_TIMEOUT, DK_BODY_TIMEOUT}
      then (\<exists>out. Act_sqe (Sqe_send p fd out) \<in> set (w_trace w)) \<or> Act_eff (Close_fd fd) \<in> set (w_trace w) \<or>
           Act_sqe (Sqe_close p fd) \<in> set (w_trace w)
      else True)"

lemma acted_mono: "acted p fd k w \<Longrightarrow> only_at q w w' \<Longrightarrow> acted p fd k w'"
  unfolding acted_def by (auto split: if_splits dest: only_at_trace)

lemma tw_close_ok:
  assumes ok: "worker_ok {} xs w L" and fd: "w_store w fd = Some p" and c: "w_conns w p = Some c" "\<not> deadline_active (c_dl c)"
  shows "\<exists>r w' L'. tw_close fd w = Some (r, w') \<and> worker_ok {} xs w' L' \<and> only_at p w w' \<and> length L' = length L \<and>
    (r \<longrightarrow> (\<exists>c'. w_conns w' p = Some c' \<and> \<not> deadline_active (c_dl c') \<and> 1 \<le> refcnt c')) \<and>
    (if r then Act_sqe (Sqe_close p fd) \<in> set (w_trace w') else Act_eff (Close_fd fd) \<in> set (w_trace w')) \<and>
    (closes_at_once c \<longrightarrow> \<not> r)"
proof -
  have np: "p \<notin> set xs"
    using wheel_rep_unarmed [of xs w L p c] ok c by (simp add: worker_ok_def)
  have rc: "1 \<le> refcnt c"
    using store_ok_fd [of "{}" w fd p c] ok fd c(1) by (simp add: worker_ok_def live_def)
  obtain r w' where w': "schedule_or_sync_close fd w = Some (r, w')" "close_done xs p fd w w' (map (removeAll p) L)"
      "if r then Act_sqe (Sqe_close p fd) \<in> set (w_trace w') \<and> (\<exists>c'. closed_conn p w' c' \<and> refcnt c' = refcnt c)
       else Act_eff (Close_fd fd) \<in> set (w_trace w')" "closes_at_once c \<longrightarrow> \<not> r"
    using schedule_or_sync_close_ok [OF ok fd c(1) np] by blast
  then show ?thesis
    using rc by (intro exI [of _ r] exI [of _ w'] exI [of _ "map (removeAll p) L"])
      (auto simp: tw_close_def close_done_def closed_conn_def split: if_splits)
qed

definition timed_out :: "conn \<Rightarrow> bool" where
  "timed_out c \<longleftrightarrow> dl_kind (c_dl c) \<in> {DK_DRAIN, DK_KA_IDLE, DK_INITIAL_IDLE, DK_WRITE_TIMEOUT}"

lemma tw_expire_ok:
  assumes ok: "worker_ok {} xs w L" and c: "w_conns w p = Some c" "\<not> deadline_active (c_dl c)"
    and fd: "w_store w (c_fd c) = Some p" and rc: "1 \<le> refcnt c"
  shows "\<exists>alive w' L'. tw_expire p w = Some (alive, w') \<and> worker_ok {} xs w' L' \<and> only_at p w w' \<and>
    length L' = length L \<and> (alive \<longrightarrow> (\<exists>c'. w_conns w' p = Some c' \<and> \<not> deadline_active (c_dl c') \<and> 1 \<le> refcnt c')) \<and>
    acted p (c_fd c) (dl_kind (c_dl c)) w'"
proof -
  let ?k = "dl_kind (c_dl c)"
  consider "timed_out c" | "?k \<in> {DK_HEADER_TIMEOUT, DK_BODY_TIMEOUT}" | "?k = DK_NONE"
    by (cases ?k) (auto simp: timed_out_def)
  then show ?thesis
  proof cases
    case 1
    define c1 where "c1 = (if ?k = DK_WRITE_TIMEOUT then c\<lparr>c_dl := (c_dl c)\<lparr>abortive_close := True\<rparr>\<rparr> else c)"
    obtain w1 where w1: "(if ?k = DK_WRITE_TIMEOUT then upd_dl p (\<lambda>d. d\<lparr>abortive_close := True\<rparr>) w else Some w) = Some w1"
        "worker_ok {} xs w1 L" "calm p w w1" "w_conns w1 p = Some c1"
      using worker_ok_upd_dl [OF ok c(1), of "\<lambda>d. d\<lparr>abortive_close := True\<rparr>"] rc ok c(1)
      by (cases "?k = DK_WRITE_TIMEOUT") (auto simp: c1_def)
    have s1: "w_store w1 (c_fd c) = Some p" "\<not> deadline_active (c_dl c1)"
      using calm_store [OF w1(3)] fd c(2) by (simp_all add: c1_def)
    have once: "closes_at_once c1"
      using 1 by (auto simp: closes_at_once_def c1_def timed_out_def)
    obtain w' L' where w': "tw_close (c_fd c) w1 = Some (False, w')" "worker_ok {} xs w' L'" "only_at p w1 w'"
        "length L' = length L" "Act_eff (Close_fd (c_fd c)) \<in> set (w_trace w')"
      using tw_close_ok [OF w1(2) s1(1) w1(4) s1(2)] once by auto
    have "tw_expire p w = Some (False, w')"
      using 1 w1(1) w'(1) c(1) by (auto simp: tw_expire_def getc_def timed_out_def Let_def)
    then show ?thesis
      using w' 1 only_at_trans [OF calm_at [OF w1(3)] w'(3)] by (auto simp: acted_def timed_out_def)
  next
    case 2
    define w1 where "w1 = snd (get_sqe_batching w)"
    have w1: "worker_ok {} xs w1 L" "w_conns w1 p = Some c" "w_store w1 (c_fd c) = Some p" "calm p w w1"
      using ok c(1) fd calm_store [of p w w1] by (simp_all add: w1_def)
    show ?thesis
    proof (cases "fst (get_sqe_batching w)")
      case True
      obtain w' c' out where w': "tw_send_408 p (c_fd c) w1 = Some w'" "worker_ok {} xs w' L" "only_at p w1 w'"
          "w_conns w' p = Some c'" "\<not> deadline_active (c_dl c')" "1 \<le> refcnt c'"
          "Act_sqe (Sqe_send p (c_fd c) out) \<in> set (w_trace w')"
        using tw_send_408_ok [OF w1(1,2) c(2) rc] by blast
      have "tw_expire p w = Some (True, w')"
        using 2 True c(1) w'(1) by (auto simp: tw_expire_def getc_def Let_def case_prod_beta w1_def)
      then show ?thesis
        using w' 2 only_at_trans [OF calm_at [OF w1(4)] w'(3)] by (auto simp: acted_def)
    next
      case False
      obtain r w' L' where w': "tw_close (c_fd c) w1 = Some (r, w')" "worker_ok {} xs w' L'" "only_at p w1 w'"
          "length L' = length L" "r \<longrightarrow> (\<exists>c'. w_conns w' p = Some c' \<and> \<not> deadline_active (c_dl c') \<and> 1 \<le> refcnt c')"
          "if r then Act_sqe (Sqe_close p (c_fd c)) \<in> set (w_trace w') else Act_eff (Close_fd (c_fd c)) \<in> set (w_trace w')"
        using tw_close_ok [OF w1(1,3,2) c(2)] by blast
      have "tw_expire p w = Some (r, w')"
        using 2 False c(1) w'(1) by (auto simp: tw_expire_def getc_def Let_def case_prod_beta w1_def)
      then show ?thesis
        using w' 2 only_at_trans [OF calm_at [OF w1(4)] w'(3)] by (auto simp: acted_def split: if_splits)
    qed
  next
    case 3
    then have "tw_expire p w = Some (True, w)"
      using c(1) by (simp add: tw_expire_def getc_def Let_def)
    then show ?thesis
      using ok c rc 3 by (auto simp: acted_def)
  qed
qed

text \<open>
  A visit acts on a connection whose deadline has passed and gives any other back to the wheel with
  its deadline as it was.
\<close>

definition visited :: "u64 \<Rightarrow> nat \<Rightarrow> conn \<Rightarrow> worker_ctx \<Rightarrow> bool" where
  "visited now p c w' \<longleftrightarrow>
     (if deadline_ms (c_dl c) \<le> now then acted p (c_fd c) (dl_kind (c_dl c)) w'
      else (\<exists>c'. w_conns w' p = Some c' \<and> c_dl c' = c_dl c \<and> c_fd c' = c_fd c))"

lemma tw_visit_ok:
  assumes ok: "worker_ok {} (p # xs) w L"
  shows "\<exists>c w' L'. w_conns w p = Some c \<and> tw_next (c_link c) = first xs None \<and> tw_visit now p w = Some w' \<and>
    worker_ok {} xs w' L' \<and> only_at p w w' \<and> length L' = length L \<and> visited now p c w'"
proof -
  have arm: "is_armed (w_conns w) p"
    by (rule wheel_rep_pend(3) [of "p # xs" w L]) (use ok in \<open>simp_all add: worker_ok_def\<close>)
  obtain c w1 where c: "w_conns w p = Some c" "tw_next (c_link c) = first xs None" "0 \<le> c_fd c"
      "w_store w (c_fd c) = Some p" "1 \<le> refcnt c"
      and w1: "updc p (\<lambda>c. c\<lparr>c_link := (c_link c)\<lparr>tw_prev := None, tw_next := None\<rparr>,
                  c_dl := (c_dl c)\<lparr>deadline_active := False\<rparr>\<rparr>) w = Some w1"
        "worker_ok {} xs w1 L" "calm p w w1" "w_conns w1 p = Some (detached c)"
    using detach_ok [OF ok] by blast
  have d: "\<not> deadline_active (c_dl (detached c))" "c_fd (detached c) = c_fd c" "1 \<le> refcnt (detached c)"
      "dl_kind (c_dl (detached c)) = dl_kind (c_dl c)" "w_store w1 (c_fd (detached c)) = Some p"
    using c(4,5) calm_store [OF w1(3)] by (simp_all add: detached_def)
  show ?thesis
  proof (cases "deadline_ms (c_dl c) \<le> now")
    case True
    obtain alive w2 L2 where w2: "tw_expire p w1 = Some (alive, w2)" "worker_ok {} xs w2 L2" "only_at p w1 w2"
        "length L2 = length L" "alive \<longrightarrow> (\<exists>c'. w_conns w2 p = Some c' \<and> \<not> deadline_active (c_dl c') \<and> 1 \<le> refcnt c')"
        "acted p (c_fd c) (dl_kind (c_dl c)) w2"
      using tw_expire_ok [OF w1(2,4) d(1,5,3)] d(2,4) by auto
    obtain w3 L3 where w3: "(if alive then tw_rearm p now w2 else Some w2) = Some w3" "worker_ok {} xs w3 L3"
        "only_at p w2 w3" "length L3 = length L"
      using rearm_ok [OF w2(2), of p _ now] w2 by (cases alive) auto
    have "tw_visit now p w = Some w3"
      using c(1) w1(1) True w2(1) w3(1) by (simp add: tw_visit_def getc_def)
    moreover have "only_at p w w3"
      using calm_at [OF w1(3)] w2(3) w3(3) only_at_trans by blast
    ultimately show ?thesis
      using c(1,2) w3(2,4) True acted_mono [OF w2(6) w3(3)] by (auto simp: visited_def)
  next
    case False
    have a: "deadline_active (c_dl c)"
      using arm c(1) by (simp add: is_armed_def)
    obtain w2 c2 s where w2: "tw_insert_internal p now (deadline_ms (c_dl c)) w1 = Some w2"
        "worker_ok {} xs w2 (L[s := p # L ! s])" "only_at p w1 w2" "w_conns w2 p = Some c2"
        "c_dl c2 = (c_dl (detached c))\<lparr>deadline_ms := deadline_ms (c_dl c), deadline_active := True\<rparr>"
        "c_fd c2 = c_fd (detached c)"
      using insert_ok [OF w1(2,4) d(1) _ d(3), of now "deadline_ms (c_dl c)"] c(3) d(2) by auto
    have "c_dl c2 = c_dl c" "c_fd c2 = c_fd c"
      using w2(5,6) a d(2) by (simp_all add: detached_def)
    moreover have "tw_visit now p w = Some w2"
      using c(1) w1(1) False w2(1) by (simp add: tw_visit_def getc_def)
    ultimately show ?thesis
      using c(1,2) w2(2,4) False only_at_trans [OF calm_at [OF w1(3)] w2(3)]
      by (intro exI [of _ c] exI [of _ w2] exI [of _ "L[s := p # L ! s]"]) (auto simp: visited_def)
  qed
qed

section \<open>Walking a chain\<close>

text \<open>The states between the visits of a walk.\<close>

fun trail :: "(nat \<Rightarrow> worker_ctx \<Rightarrow> worker_ctx option) \<Rightarrow> nat list \<Rightarrow> worker_ctx \<Rightarrow> worker_ctx \<Rightarrow> bool" where
  "trail visit [] w w' \<longleftrightarrow> w' = w"
| "trail visit (p # ps) w w' \<longleftrightarrow> (\<exists>w1. visit p w = Some w1 \<and> trail visit ps w1 w')"

lemma trail_append: "trail visit (xs @ ys) w w' \<longleftrightarrow> (\<exists>w1. trail visit xs w w1 \<and> trail visit ys w1 w')"
  by (induction xs arbitrary: w) auto

text \<open>
  What the loop needs of the action it runs on each connection: with the rest of the chain still to
  come it succeeds, leaves that rest linked, and stays within its frame.
\<close>

locale chain_walk =
  fixes visit :: "nat \<Rightarrow> worker_ctx \<Rightarrow> worker_ctx option"
    and inv :: "nat list \<Rightarrow> worker_ctx \<Rightarrow> bool"
    and frame :: "nat set \<Rightarrow> worker_ctx \<Rightarrow> worker_ctx \<Rightarrow> bool"
  assumes head: "inv (p # ps) w \<Longrightarrow> \<exists>c. getc p w = Some c \<and> tw_next (c_link c) = first ps None"
    and visit_ok: "inv (p # ps) w \<Longrightarrow> \<exists>w'. visit p w = Some w' \<and> inv ps w' \<and> frame {p} w w'"
    and frame_refl: "frame {} w w"
    and frame_trans: "frame A w w1 \<Longrightarrow> frame B w1 w2 \<Longrightarrow> frame (A \<union> B) w w2"
begin

lemma walk_ok:
  "inv ps w \<Longrightarrow> \<exists>w'. walk visit (first ps None) w = Some w' \<and> trail visit ps w w' \<and> inv [] w'"
proof (induction ps arbitrary: w)
  case Nil
  then show ?case
    by (simp add: walk.simps)
next
  case (Cons p ps)
  obtain c where c: "getc p w = Some c" "tw_next (c_link c) = first ps None"
    using head [OF Cons.prems] by blast
  obtain w1 where w1: "visit p w = Some w1" "inv ps w1"
    using visit_ok [OF Cons.prems] by blast
  obtain w' where "walk visit (first ps None) w1 = Some w'" "trail visit ps w1 w'" "inv [] w'"
    using Cons.IH [OF w1(2)] by blast
  then show ?case
    using c w1(1) by (subst walk.simps) auto
qed

lemma trail_prefix: "inv (xs @ ys) w \<Longrightarrow> trail visit xs w w' \<Longrightarrow> inv ys w' \<and> frame (set xs) w w'"
proof (induction xs arbitrary: w)
  case Nil
  then show ?case
    using frame_refl by simp
next
  case (Cons p ps)
  obtain w1 where w1: "visit p w = Some w1" "trail visit ps w1 w'"
    using Cons.prems(2) by auto
  have i: "inv (ps @ ys) w1" "frame {p} w w1"
    using visit_ok [of p "ps @ ys" w] Cons.prems(1) w1(1) by auto
  show ?case
    using Cons.IH [OF i(1) w1(2)] frame_trans [OF i(2)] by auto
qed

text \<open>The walk reaches every member of the chain, in a state only the earlier visits have touched.\<close>

lemma trail_visits:
  assumes "inv ps w" "trail visit ps w w'" "p \<in> set ps" "distinct ps"
  shows "\<exists>A B w1 w2 qs. inv (p # qs) w1 \<and> frame A w w1 \<and> p \<notin> A \<and> visit p w1 = Some w2 \<and> frame B w2 w' \<and> p \<notin> B"
proof -
  obtain xs ys where ps: "ps = xs @ p # ys"
    using split_list [OF assms(3)] by blast
  obtain w1 w2 where t: "trail visit xs w w1" "visit p w1 = Some w2" "trail visit ys w2 w'"
    using assms(2) unfolding ps trail_append by auto
  have 1: "inv (p # ys) w1" "frame (set xs) w w1"
    using trail_prefix [of xs "p # ys" w w1] assms(1) t(1) ps by auto
  have "inv ys w2"
    using visit_ok [OF 1(1)] t(2) by auto
  then have "frame (set ys) w2 w'"
    using trail_prefix [of ys "[]" w2 w'] t(3) by simp
  then show ?thesis
    using 1 t(2) assms(4) ps by (intro exI [of _ "set xs"] exI [of _ "set ys"] exI [of _ w1] exI [of _ w2] exI [of _ ys]) auto
qed

end

definition apart :: "nat set \<Rightarrow> worker_ctx \<Rightarrow> worker_ctx \<Rightarrow> bool" where
  "apart A w w' \<longleftrightarrow>
     tw_params w' = tw_params w \<and> prefix (w_trace w) (w_trace w') \<and>
     (\<forall>q. q \<notin> A \<longrightarrow> map_option skel (w_conns w' q) = map_option skel (w_conns w q))"

definition tick_inv :: "nat \<Rightarrow> nat list \<Rightarrow> worker_ctx \<Rightarrow> bool" where
  "tick_inv n pend w \<longleftrightarrow> (\<exists>L. length L = n \<and> worker_ok {} pend w L)"

lemma only_at_apart: "only_at p w w' \<Longrightarrow> apart {p} w w'"
  by (simp add: only_at_def apart_def)

lemma apart_trans: "apart A w w1 \<Longrightarrow> apart B w1 w2 \<Longrightarrow> apart (A \<union> B) w w2"
  unfolding apart_def by (auto intro: prefix_order.trans)

interpretation tick: chain_walk "tw_visit now" "tick_inv n" apart
proof
  fix p ps w
  assume "tick_inv n (p # ps) w"
  then obtain L where L: "length L = n" "worker_ok {} (p # ps) w L"
    by (auto simp: tick_inv_def)
  obtain c w' L' where v: "w_conns w p = Some c" "tw_next (c_link c) = first ps None" "tw_visit now p w = Some w'"
      "worker_ok {} ps w' L'" "only_at p w w'" "length L' = length L"
    using tw_visit_ok [OF L(2), of now] by blast
  show "\<exists>c. getc p w = Some c \<and> tw_next (c_link c) = first ps None"
    using v by (simp add: getc_def)
  show "\<exists>w'. tw_visit now p w = Some w' \<and> tick_inv n ps w' \<and> apart {p} w w'"
    using v L only_at_apart by (auto simp: tick_inv_def)
next
  show "apart {} w w" for w
    by (simp add: apart_def)
  show "apart A w w1 \<Longrightarrow> apart B w1 w2 \<Longrightarrow> apart (A \<union> B) w w2" for A B w w1 w2
    by (rule apart_trans)
qed

section \<open>The tick\<close>

lemma linked_chained: "linked H pr ps None \<Longrightarrow> chained H ps"
  by (induction ps arbitrary: pr) (auto split: option.splits)

lemma tick_slot_eq: "wheel_wf w \<Longrightarrow> tick_slot w = unat (tw_now_tick w) mod 1024"
  by (simp add: tick_slot_def wheel_wf_def unat_mask_slots)

lemma take_bucket_ok:
  assumes ok: "worker_ok {} [] w L" and s: "s < length L"
  shows "worker_ok {} (L ! s) (w\<lparr>tw_buckets := (tw_buckets w)[s := None], tw_now_tick := t\<rparr>) (L[s := []])"
proof -
  let ?w = "w\<lparr>tw_buckets := (tw_buckets w)[s := None], tw_now_tick := t\<rparr>"
  have rep: "wheel_rep [] w L" and lv: "live {} w" and wf: "wheel_wf w"
    using ok by (simp_all add: worker_ok_def)
  have len: "length L = length (tw_buckets w)"
    using rep by (simp add: wheel_rep_def)
  have "(tw_buckets w)[s := None] ! i = first (L[s := []] ! i) None \<and> linked (w_conns w) None (L[s := []] ! i) None \<and>
      distinct (L[s := []] ! i)" if "i < length L" for i
    using that s len wheel_rep_bucket [OF rep that] by (cases "i = s") simp_all
  moreover have "armed_in (w_conns w) i q \<longleftrightarrow> i < length L \<and> q \<in> set (L[s := []] ! i)" if "q \<notin> set (L ! s)" for i q
    using that s wheel_rep_armed_iff [OF rep, of q i] by (cases "i = s") simp_all
  moreover have "pending (L ! s) ?w (L[s := []])"
  proof -
    have "set (L[s := []] ! i) \<inter> set (L ! s) = {}" if "i < length L" for i
      using that s wheel_rep_unique [OF rep that s] by (cases "i = s") auto
    moreover have "is_armed (w_conns w) q" if "q \<in> set (L ! s)" for q
      using wheel_rep_armed [OF rep s that] by (auto simp: armed_in_def is_armed_def split: option.splits)
    ultimately show ?thesis
      using linked_chained wheel_rep_bucket [OF rep s] by (auto simp: pending_def)
  qed
  ultimately have "wheel_rep (L ! s) ?w (L[s := []])"
    using len by (simp add: wheel_rep_def)
  moreover have "live {} ?w = live {} w"
    unfolding live_def store_ok_def active_ok_def free_ok_def by simp
  ultimately show ?thesis
    using wf lv by (simp add: worker_ok_def wheel_wf_def)
qed

lemma skel_eqD:
  assumes "skel c = skel c'"
  shows "c_dl c = c_dl c'" "c_fd c = c_fd c'" "tw_slot (c_link c) = tw_slot (c_link c')"
  using arg_cong [OF assms, of c_dl] arg_cong [OF assms, of c_fd] arg_cong [OF assms, of "\<lambda>c. tw_slot (c_link c)"]
  by (simp_all add: skel_def)

definition unchanged :: "nat \<Rightarrow> conn \<Rightarrow> worker_ctx \<Rightarrow> bool" where
  "unchanged p c w' \<longleftrightarrow>
     (\<exists>c'. w_conns w' p = Some c' \<and> c_dl c' = c_dl c \<and> c_fd c' = c_fd c \<and> tw_slot (c_link c') = tw_slot (c_link c))"

lemma apart_unchanged:
  assumes "apart A w w'" "p \<notin> A" "w_conns w p = Some c"
  shows "unchanged p c w'"
proof -
  have "map_option skel (w_conns w' p) = Some (skel c)"
    using assms by (simp add: apart_def)
  then obtain c' where "w_conns w' p = Some c'" "skel c' = skel c"
    by auto
  then show ?thesis
    using skel_eqD [of c' c] by (auto simp: unchanged_def)
qed

lemma apart_trace: "apart A w w' \<Longrightarrow> prefix (w_trace w) (w_trace w')"
  by (simp add: apart_def)

lemma acted_prefix: "acted p fd k w \<Longrightarrow> prefix (w_trace w) (w_trace w') \<Longrightarrow> acted p fd k w'"
  unfolding acted_def by (auto split: if_splits dest: set_mono_prefix)

text \<open>The whole tick: it returns, and each connection of the bucket has been visited once.\<close>

lemma tw_process_tick_ok:
  assumes ok: "worker_ok {} [] w L"
  shows "\<exists>w' L'. tw_process_tick now w = Some w' \<and> worker_ok {} [] w' L' \<and>
    tw_now_tick w' = tw_now_tick w + 1 \<and> next_tick_deadline_ms w' = next_tick_deadline_ms w \<and>
    prefix (w_trace w) (w_trace w') \<and>
    (\<forall>p c. w_conns w p = Some c \<and> deadline_active (c_dl c) \<longrightarrow>
       (if tw_slot (c_link c) = tick_slot w then visited now p c w' else unchanged p c w'))"
proof -
  let ?s = "tick_slot w"
  define w2 where "w2 = w\<lparr>tw_buckets := (tw_buckets w)[?s := None], tw_now_tick := tw_now_tick w + 1\<rparr>"
  have rep: "wheel_rep [] w L" and wf: "wheel_wf w"
    using ok by (simp_all add: worker_ok_def)
  have s: "?s < length L" "?s < length (tw_buckets w)"
    using tick_slot_eq [OF wf] rep wf by (simp_all add: wheel_rep_def wheel_wf_def TW_SLOTS_def)
  have ok2: "worker_ok {} (L ! ?s) w2 (L[?s := []])"
    unfolding w2_def by (rule take_bucket_ok [OF ok s(1)])
  have inv2: "tick_inv (length L) (L ! ?s) w2"
    unfolding tick_inv_def using ok2 by (intro exI [of _ "L[?s := []]"]) simp
  obtain w' where w': "walk (tw_visit now) (first (L ! ?s) None) w2 = Some w'"
      "trail (tw_visit now) (L ! ?s) w2 w'" "tick_inv (length L) [] w'"
    using tick.walk_ok [OF inv2] by blast
  have run: "tw_process_tick now w = Some w'"
    using w'(1) s(2) wheel_rep_bucket(1) [OF rep s(1)]
    by (simp add: tw_process_tick_def get_bucket_def set_bucket_def w2_def)
  have fr: "apart (set (L ! ?s)) w2 w'"
    using tick.trail_prefix [of "length L" "L ! ?s" "[]"] inv2 w'(2) by auto
  have pr: "tw_now_tick w' = tw_now_tick w + 1" "next_tick_deadline_ms w' = next_tick_deadline_ms w"
    "prefix (w_trace w) (w_trace w')" and H: "w_conns w2 = w_conns w"
    using fr by (simp_all add: apart_def tw_params_def w2_def)
  have each: "if tw_slot (c_link c) = ?s then visited now p c w' else unchanged p c w'"
    if c: "w_conns w p = Some c" "deadline_active (c_dl c)" for p c
  proof (cases "p \<in> set (L ! ?s)")
    case True
    have slot: "tw_slot (c_link c) = ?s"
      using wheel_rep_armed [OF rep s(1) True] c by (simp add: armed_in_def)
    obtain A B w3 w4 qs where t: "tick_inv (length L) (p # qs) w3" "apart A w2 w3" "p \<notin> A"
        "tw_visit now p w3 = Some w4" "apart B w4 w'" "p \<notin> B"
      using tick.trail_visits [OF inv2 w'(2) True wheel_rep_bucket(3) [OF rep s(1)]] by blast
    obtain c3 where c3: "w_conns w3 p = Some c3" "c_dl c3 = c_dl c" "c_fd c3 = c_fd c"
      using apart_unchanged [OF t(2,3), of c] c(1) H by (auto simp: unchanged_def)
    obtain L3 where "worker_ok {} (p # qs) w3 L3"
      using t(1) by (auto simp: tick_inv_def)
    then have v: "visited now p c w4"
      using tw_visit_ok [of p qs w3 L3 now] c3 t(4) by (auto simp: visited_def)
    have "visited now p c w'"
      using v acted_prefix [OF _ apart_trace [OF t(5)]] apart_unchanged [OF t(5,6)]
      by (auto simp: visited_def unchanged_def)
    then show ?thesis
      using slot by simp
  next
    case False
    have "tw_slot (c_link c) \<noteq> ?s"
      using wheel_rep_member [OF rep c] False by auto
    then show ?thesis
      using apart_unchanged [OF fr False, of c] c(1) H by simp
  qed
  then show ?thesis
    using run w'(3) pr by (auto simp: tick_inv_def)
qed

section \<open>The sweep and sequences of ticks\<close>










section \<open>Properties\<close>

text \<open>A worker with one connection, idle since 1000 ms, in slot 50 of the wheel.\<close>

definition sample_conn :: conn where
  "sample_conn =
     conn_zero\<lparr>c_fd := 7, refcnt := 2,
       c_dl := dl_zero\<lparr>last_active_ms := 1000, ka_idle := True, dl_kind := DK_KA_IDLE, deadline_ms := 6000,
                       deadline_active := True\<rparr>,
       c_link := link_zero\<lparr>in_active_set := True, active_idx := 0, tw_slot := 50\<rparr>\<rparr>"

definition sample_worker :: worker_ctx where
  "sample_worker =
     \<lparr>w_conns = [5 \<mapsto> sample_conn], conn_free_list = None, conn_free_count = 0, w_store = [7 \<mapsto> 5],
      g_active_conns = 1, active_fds = [7], active_cap = 1024, w_cfg = None, listen_fds = [3],
      accept_inited = [True], need_submit = False, sqes_pending = 0, now_cached_ms = 1000, is_draining = False,
      accept_paused = False, accept_backoff_armed = False, accept_multishot = False,
      accept_cancel_inflight = False, tw_slots = 1024, tw_mask = 1023, tw_tick_ms = 100, tw_now_tick = 0,
      next_tick_deadline_ms = 1100, tw_buckets = (replicate 1024 None)[50 := Some 5], next_conn_generation = 1,
      w_rx_pool = \<lparr>rx_stash_free_list = [], rx_stash_blocks_total = 0, rx_stash_blocks_inuse = 0\<rparr>,
      w_arena = empty_arena,
      w_os = \<lparr>os_opens = [], os_fstats = [], os_mallocs = [], os_reads = [], os_lseeks = [], os_clock = [],
             os_errno = 0, os_calls = []\<rparr>,
      w_date = date_cache_empty, w_callocs = [], w_reallocs = [], w_puts = [], w_get_sqes = [], w_submits = [],
      w_sq_space = [], w_clock_ms = [], w_clock_us = [], w_trace = []\<rparr>"

definition sample_lists :: "nat list list" where
  "sample_lists = (replicate 1024 [])[50 := [5]]"

lemma sample_fields [simp]:
  "c_fd sample_conn = 7" "refcnt sample_conn = 2" "deadline_active (c_dl sample_conn)"
  "dl_kind (c_dl sample_conn) = DK_KA_IDLE" "deadline_ms (c_dl sample_conn) = 6000"
  "in_active_set (c_link sample_conn)" "active_idx (c_link sample_conn) = 0" "tw_slot (c_link sample_conn) = 50"
  "tw_prev (c_link sample_conn) = None" "tw_next (c_link sample_conn) = None"
  by (simp_all add: sample_conn_def dl_zero_def link_zero_def)

lemma sample_conns [simp]: "w_conns sample_worker p = Some c \<longleftrightarrow> p = 5 \<and> c = sample_conn"
  "w_conns sample_worker p = None \<longleftrightarrow> p \<noteq> 5"
  by (auto simp: sample_worker_def)

lemma sample_ok: "worker_ok {} [] sample_worker sample_lists"
proof -
  have "armed_in (w_conns sample_worker) i p \<longleftrightarrow> i = 50 \<and> p = 5" for i p
    by (cases "p = 5") (auto simp: armed_in_def sample_worker_def)
  moreover have "i < 1024 \<Longrightarrow> sample_lists ! i = (if i = 50 then [5] else [])" for i
    by (simp add: sample_lists_def nth_list_update)
  moreover have "linked (w_conns sample_worker) None [5] None"
    by (simp add: sample_worker_def)
  moreover have "length sample_lists = 1024" "length (tw_buckets sample_worker) = 1024"
    "i < 1024 \<Longrightarrow> tw_buckets sample_worker ! i = (if i = 50 then Some 5 else None)" for i
    by (simp_all add: sample_lists_def sample_worker_def nth_list_update)
  ultimately have "wheel_rep [] sample_worker sample_lists"
    by (auto simp: wheel_rep_def pending_def)
  moreover have "store_ok {} sample_worker"
    unfolding store_ok_def by (auto simp: sample_worker_def split: if_splits)
  moreover have "active_ok sample_worker"
    unfolding active_ok_def by (auto simp: sample_worker_def split: if_splits)
  moreover have "free_ok sample_worker"
    unfolding free_ok_def by (intro exI [of _ "[]"]) (simp add: sample_worker_def)
  ultimately show ?thesis
    by (simp add: worker_ok_def live_def wheel_wf_def sample_worker_def TW_SLOTS_def TW_TICK_MS_def)
qed





text \<open>
  C35: no deadline fires early. A tick leaves every armed connection whose deadline lies in the
  future armed, with the same deadline, kind and descriptor.
\<close>

theorem deadline_never_early:
  assumes "worker_ok {} [] w L" "w_conns w p = Some c" "deadline_active (c_dl c)" "now < deadline_ms (c_dl c)"
  shows "\<exists>w' c'. tw_process_tick now w = Some w' \<and> w_conns w' p = Some c' \<and> c_dl c' = c_dl c \<and> c_fd c' = c_fd c"
proof -
  obtain w' where w': "tw_process_tick now w = Some w'"
      and each: "if tw_slot (c_link c) = tick_slot w then visited now p c w' else unchanged p c w'"
    using tw_process_tick_ok [OF assms(1), of now] assms(2,3) by blast
  have "\<not> deadline_ms (c_dl c) \<le> now"
    using assms(4) by simp
  then show ?thesis
    using w' each by (auto simp: visited_def unchanged_def split: if_splits)
qed

theorem deadline_never_early_witness:
  "\<exists>w' c'. tw_process_tick 5999 sample_worker = Some w' \<and> w_conns w' 5 = Some c' \<and> c_dl c' = c_dl sample_conn \<and>
     c_fd c' = 7"
  using deadline_never_early [OF sample_ok, of 5 sample_conn 5999] by simp

text \<open>
  C36: the linked buckets of the wheel implement lists. Rescheduling a connection of a consistent
  worker succeeds; it takes the connection out of the list it was in and puts it at the head of the
  list its new deadline selects (or in none), and changes nothing else but links between connections
  of the touched buckets; the connection holds the kind and time that its state demands.
\<close>

theorem tw_reschedule_refines:
  assumes "wheel_rep [] w L" "wheel_wf w" "w_conns w p = Some c"
    and "tw_compute_conn_deadline (w_cfg w) c = (k, d)"
  shows "\<exists>w' c'. tw_reschedule p now w = Some w' \<and> wheel_rep [] w' (rearm p (tw_slot_for w now d) d L) \<and>
    wheel_frame p w w' \<and> w_conns w' p = Some c' \<and> rescheduled w now c c'"
  using tw_reschedule_rep [OF assms(1-3) _ assms(4)] by simp

theorem tw_reschedule_refines_witness:
  "\<exists>w' c'. tw_reschedule 5 1000 sample_worker = Some w' \<and>
     wheel_rep [] w' (rearm 5 (tw_slot_for sample_worker 1000 6000) 6000 sample_lists) \<and>
     wheel_frame 5 sample_worker w' \<and> w_conns w' 5 = Some c' \<and> rescheduled sample_worker 1000 sample_conn c'"
proof (rule tw_reschedule_refines)
  show "wheel_rep [] sample_worker sample_lists" "wheel_wf sample_worker"
    using sample_ok by (simp_all add: worker_ok_def)
  show "w_conns sample_worker 5 = Some sample_conn"
    by simp
  show "tw_compute_conn_deadline (w_cfg sample_worker) sample_conn = (DK_KA_IDLE, 6000)"
    by (simp add: tw_compute_conn_deadline_def tw_conn_get_state_def conn_tls_handshake_pending_def
        conn_is_closing_no_deadline_def conn_is_keepalive_idle_def sample_conn_def sample_worker_def conn_zero_def
        dl_zero_def h1_zero_def cfg_or_def DEFAULT_KEEPALIVE_IDLE_CLOSE_MS_def)
qed

end
