(* ===== verification/Spec2Isabelle.thy ===== *)
theory Spec2Isabelle
  imports Url Http_Range Rx_Stash Conn_Store Req_Arena Response_Head Http1_Request Auth Compression
    Static_Safety Static_Validators Wheel_Tick
begin

text \<open>
  A verification library for Lamseryn, an io_uring HTTP/1.1 server written in C
  (\<^verbatim>\<open>src/lamseryn.c\<close>, \<^verbatim>\<open>src/src\<close>, \<^verbatim>\<open>src/include\<close>).

  \<^bold>\<open>The program.\<close> Each worker thread owns a ring, a table from descriptors to connections, a timing
  wheel of deadlines and a pool of receive buffers. Bytes that arrive are split at the header
  terminator (receive stash), fed to the llhttp parser whose callbacks fill the per-request state,
  and classified by the pipeline into one verdict. A complete request is dispatched: CORS preflight,
  authentication, then a file below the document root, possibly a range of it, a precompressed
  sibling or a compressed body. The response head is staged in the transmit state, which the event
  loop drives through partial sends and \<open>sendfile\<close>; afterwards the connection is reset or closed.

  \<^bold>\<open>Conventions.\<close> A pointer to bytes is the string it points to, with \<open>None\<close> for \<open>NULL\<close>; an operation
  that would read or write outside its buffers, follow a dangling address or not return has the
  result \<open>None\<close>, so a theorem that gives \<open>Some\<close> includes memory safety and termination. Widths are
  kept where wrap-around can matter (\<open>u8\<close> to \<open>u64\<close> are words). Results of \<open>malloc\<close>, \<open>openat\<close>,
  \<open>fstat\<close>, \<open>read\<close>, the clock and the ring are lists of outcomes to come, so theorems hold for all of
  them; calls made are recorded in order. Guards against \<open>NULL\<close> structure pointers, instrumentation
  counters, logging and the test hooks of \<open>ENABLE_ITEST_ECHO\<close> are left out. llhttp, crypt, zlib and
  Brotli are parameters.

  \<^bold>\<open>Theories.\<close>
  \<^item> \<open>Prelude\<close>, \<open>Decimal\<close>, \<open>Tokens\<close>, \<open>Types\<close>: shared types, buffers, decimal text, list syntax.
  \<^item> \<open>Url\<close> (\<^verbatim>\<open>url.c\<close>), \<open>Http_Range\<close> (\<^verbatim>\<open>http_range.c\<close>), \<open>Http_Date\<close> (\<^verbatim>\<open>time_utils.h\<close>): decoding and
    normalising paths, byte ranges, HTTP dates; round trips and exactness.
  \<^item> \<open>Rx_Stash\<close> (\<^verbatim>\<open>rx_stash.c\<close>, \<^verbatim>\<open>http_boundary.c\<close>), \<open>Req_Arena\<close> (\<^verbatim>\<open>req_arena.h\<close>), \<open>Conn_Store\<close>
    (\<^verbatim>\<open>conn_store.c\<close>): no byte is lost or duplicated, allocations are disjoint and in bounds, the open
    addressing table refines a map.
  \<^item> \<open>Http_Headers\<close>, \<open>Http1_Parser\<close>, \<open>Http1_Safety\<close>, \<open>Http1_Framing\<close>, \<open>Http1_Request\<close>
    (\<^verbatim>\<open>http_parser.c\<close>, \<^verbatim>\<open>http_headers.c\<close>, \<^verbatim>\<open>http1_limits.c\<close>): the callbacks as functions of llhttp's
    events; memory safety of every session, the framing rules against request smuggling, and the
    verdict on a whole request.
  \<^item> \<open>Http_Pipeline\<close> (\<^verbatim>\<open>http_pipeline.c\<close>), \<open>Policy\<close> (\<^verbatim>\<open>policy_headers_shared.h\<close>), \<open>Auth\<close> (\<^verbatim>\<open>auth.c\<close>),
    \<open>Compression\<close> (\<^verbatim>\<open>compression.c\<close>), \<open>Request_Plan\<close> and \<open>Request_Dispatch\<close> (\<^verbatim>\<open>request_handlers.c\<close>),
    \<open>Static_Files\<close> and \<open>Static_Serve\<close> (\<^verbatim>\<open>static_serve_utils.c\<close>): from verdict to staged response.
    \<open>Static_Safety\<close> shows that dispatch stays below the document root, opens nothing without
    authorisation and conserves descriptors; \<open>Static_Validators\<close> that revalidation is exact.
  \<^item> \<open>Tx\<close> and \<open>Response_Head\<close> (\<^verbatim>\<open>tx.c\<close>): the transmit state delivers exactly the staged bytes.
  \<^item> \<open>Worker_State\<close> (\<^verbatim>\<open>conn.h\<close>, \<^verbatim>\<open>worker_ctx.h\<close>), \<open>Ring_Ops\<close> (\<^verbatim>\<open>ring_ops.h\<close>), \<open>Timing_Wheel\<close>
    (\<^verbatim>\<open>timing_wheel.c\<close>, \<^verbatim>\<open>conn_deadline.c\<close>), \<open>Conn_Lifecycle\<close> (\<^verbatim>\<open>conn_lifecycle.c\<close>), \<open>Wheel_Tick\<close>: the
    worker's state with connections at addresses. \<open>worker_ok\<close> of \<open>Conn_Live\<close> is the invariant that
    ties the table, the active set, the freelist and the linked buckets together; closing, and every
    visit of a tick, preserve it. From it follow termination of the sweep, that no deadline fires
    early, and that each is acted on within one turn of the wheel.

  \<^bold>\<open>Bounds.\<close> The probe loops of \<open>Conn_Store\<close> take fuel equal to the table's capacity, which is enough
  because a table always has an empty slot; the loops over a bucket, over the ticks that are due and
  over the freelist are \<open>partial_function\<close>s, and that they return is proved. The wheel is taken with
  the build's constants, 1024 slots of 100 ms.

  \<^bold>\<open>Not modelled.\<close> The configuration loader (\<^verbatim>\<open>config_ini.c\<close>), the access log (\<^verbatim>\<open>access_log.c\<close>), the
  accept controller, the completion handlers of \<^verbatim>\<open>worker_loop.c\<close> beyond the sweep, and start-up and
  signal handling in \<^verbatim>\<open>lamseryn.c\<close>; the TLS context set-up of \<^verbatim>\<open>tls.c\<close>, which is a sequence of OpenSSL
  calls; sockets (\<^verbatim>\<open>net_server.c\<close>) and logging (\<^verbatim>\<open>logger.c\<close>), which are input and output.
\<close>

end
